(* ===== verification/Prelude.thy ===== *)
theory Prelude
  imports Main "HOL-Library.Word"
begin

text \<open>
  Shared vocabulary of the development: the C++ integer types as words, the ways the program
  can go wrong as a datatype, fallible computations as a sum with their sequencing operator,
  and little-endian byte strings. Every component theory imports this one.
\<close>

unbundle bit_operations_syntax

section \<open>Types and rule collections\<close>

type_synonym u8 = "8 word"
type_synonym u16 = "16 word"
type_synonym u32 = "32 word"
type_synonym u64 = "64 word"

named_theorems res_simps "inversion rules of successful fallible computations"
named_theorems mem_simps "reading back and framing rules of byte memories"
named_theorems frame_intros "rules showing that an operation leaves a region alone"

section \<open>Failures and fallible computations\<close>

text \<open>
  The source has no exceptions of its own. What can go wrong is undefined behaviour (a
  dereference outside the object it points into, an index past the end of a fixed array or
  vector), a failed \<open>assert\<close>, an exception of the standard library, or \<open>exit(1)\<close>.
  \<open>Out_Of_Fuel\<close> is the result of a bounded run of a loop that has not returned yet.
\<close>

datatype fault =
    Wild_Access
  | Index_Out_Of_Bounds
  | Buffer_Overflow
  | Assert_Failed
  | Std_Exception
  | Exit_Failure
  | Out_Of_Fuel

type_synonym 'a res = "fault + 'a"

definition bindR :: "'a res \<Rightarrow> ('a \<Rightarrow> 'b res) \<Rightarrow> 'b res" where
  "bindR x f = (case x of Inl e \<Rightarrow> Inl e | Inr a \<Rightarrow> f a)"

definition require :: "fault \<Rightarrow> bool \<Rightarrow> unit res" where
  "require e b = (if b then Inr () else Inl e)"

definition ok :: "'a res \<Rightarrow> bool" where
  "ok x = (case x of Inl _ \<Rightarrow> False | Inr _ \<Rightarrow> True)"

lemma bindR_simps [simp]:
  "bindR (Inl e) f = Inl e"
  "bindR (Inr a) f = f a"
  by (simp_all add: bindR_def)

lemma bindR_Inr_iff [res_simps]:
  "bindR x f = Inr b \<longleftrightarrow> (\<exists>a. x = Inr a \<and> f a = Inr b)"
  by (cases x) simp_all

lemma bindR_Inl_iff:
  "bindR x f = Inl e \<longleftrightarrow> x = Inl e \<or> (\<exists>a. x = Inr a \<and> f a = Inl e)"
  by (cases x) simp_all

lemma bindR_assoc: "bindR (bindR x f) g = bindR x (\<lambda>a. bindR (f a) g)"
  by (cases x) simp_all

lemma require_Inr_iff [res_simps]: "require e b = Inr u \<longleftrightarrow> b"
  by (simp add: require_def)

lemma require_simps [simp]:
  "b \<Longrightarrow> require e b = Inr ()"
  "\<not> b \<Longrightarrow> require e b = Inl e"
  by (simp_all add: require_def)

lemma ok_simps [simp]: "\<not> ok (Inl e)" "ok (Inr a)"
  by (simp_all add: ok_def)

lemma ok_iff: "ok x \<longleftrightarrow> (\<exists>a. x = Inr a)"
  by (cases x) simp_all

section \<open>Powers of two and 64-bit words\<close>

lemma pow2_less_64: "n < 64 \<Longrightarrow> (2 :: nat) ^ n < 2 ^ 64"
  by (rule power_strict_increasing) simp_all

lemma unat_pow2: "n < 64 \<Longrightarrow> unat ((2 :: u64) ^ n) = 2 ^ n"
proof -
  assume "n < 64"
  then have lt: "(2 :: nat) ^ n < 2 ^ 64" by (rule pow2_less_64)
  have "unat ((2 :: u64) ^ n) = unat (of_nat (2 ^ n) :: u64)" by simp
  also have "\<dots> = 2 ^ n mod 2 ^ 64" by (simp only: unat_of_nat) simp
  also have "\<dots> = 2 ^ n" using lt by (rule mod_less)
  finally show ?thesis .
qed

lemma unat_of_nat_32: "n < 2 ^ 32 \<Longrightarrow> unat (of_nat n :: u32) = n"
  by (simp add: unat_of_nat)

lemma unat_of_nat_64: "n < 2 ^ 64 \<Longrightarrow> unat (of_nat n :: u64) = n"
  by (simp add: unat_of_nat)

lemma word_step_up: "(x :: 'a::len word) \<le> t \<Longrightarrow> x \<noteq> t \<Longrightarrow> x \<le> x + 1 \<and> x + 1 \<le> t"
proof -
  assume "x \<le> t" "x \<noteq> t"
  then have lt: "unat x < unat t" by (simp add: word_less_nat_alt [symmetric])
  moreover have "unat t < 2 ^ LENGTH('a)" by (rule unsigned_less)
  ultimately have "Suc (unat x) < 2 ^ LENGTH('a)" by linarith
  then have "unat (x + 1) = Suc (unat x)" by (simp add: unat_word_ariths)
  then show ?thesis using lt by (simp add: word_le_nat_alt)
qed

lemma word_step_down: "t \<le> (x :: 'a::len word) \<Longrightarrow> x \<noteq> t \<Longrightarrow> x - 1 \<le> x \<and> t \<le> x - 1"
proof -
  assume "t \<le> x" "x \<noteq> t"
  then have lt: "unat t < unat x" by (simp add: word_less_nat_alt [symmetric])
  then have "unat (x - 1) = unat x - 1" by (intro unat_minus_one) auto
  then show ?thesis using lt by (simp add: word_le_nat_alt)
qed

lemma unat_add_less_64:
  "unat (a :: u64) + unat b < 2 ^ 64 \<Longrightarrow> unat (a + b) = unat a + unat b"
  by (simp add: unat_word_ariths)

section \<open>Little-endian byte strings\<close>

fun to_le :: "nat \<Rightarrow> nat \<Rightarrow> u8 list" where
  "to_le 0 v = []"
| "to_le (Suc n) v = of_nat v # to_le n (v div 256)"

fun of_le :: "u8 list \<Rightarrow> nat" where
  "of_le [] = 0"
| "of_le (b # bs) = unat b + 256 * of_le bs"

lemma length_to_le [simp]: "length (to_le n v) = n"
  by (induction n arbitrary: v) simp_all

lemma unat_of_nat_u8: "unat (of_nat v :: u8) = v mod 256"
  by (simp add: unat_of_nat)

lemma of_le_to_le: "of_le (to_le n v) = v mod 256 ^ n"
proof (induction n arbitrary: v)
  case 0
  then show ?case by simp
next
  case (Suc n)
  have "v mod 256 ^ Suc n = v mod 256 + 256 * (v div 256 mod 256 ^ n)"
    by (simp add: mod_mult2_eq)
  then show ?case by (simp add: Suc unat_of_nat_u8)
qed

lemma of_le_bound: "of_le bs < 256 ^ length bs"
proof (induction bs)
  case Nil
  then show ?case by simp
next
  case (Cons b bs)
  have "unat b < 256" using unsigned_less [of b] by simp
  with Cons show ?case by simp
qed

lemma to_le_of_le: "to_le (length bs) (of_le bs) = bs"
proof (induction bs)
  case Nil
  then show ?case by simp
next
  case (Cons b bs)
  have b: "unat b < 256" using unsigned_less [of b] by simp
  have "(unat b + 256 * of_le bs) div 256 = of_le bs"
    using b by simp
  moreover have "(of_nat (unat b + 256 * of_le bs) :: u8) = b"
    by (rule word_unat_eq_iff [THEN iffD2]) (simp only: unat_of_nat_u8, simp add: b)
  ultimately show ?case using Cons by simp
qed

lemma of_nat_of_le_word:
  fixes w :: "'a::len word"
  assumes "LENGTH('a) = 8 * n"
  shows "of_nat (of_le (to_le n (unat w))) = w"
proof -
  have "unat w < 256 ^ n"
    using unsigned_less [of w] assms by (simp add: power_mult)
  then show ?thesis by (simp add: of_le_to_le)
qed

lemma of_le_word16: "of_nat (of_le (to_le 2 (unat w))) = (w :: u16)"
  by (rule of_nat_of_le_word) simp

lemma of_le_word32: "of_nat (of_le (to_le 4 (unat w))) = (w :: u32)"
  by (rule of_nat_of_le_word) simp

lemma of_le_word64: "of_nat (of_le (to_le 8 (unat w))) = (w :: u64)"
  by (rule of_nat_of_le_word) simp

lemmas of_le_words [mem_simps] = of_le_word16 of_le_word32 of_le_word64

end
