(* ===== verification/Byte_Memory.thy ===== *)
theory Byte_Memory
  imports Prelude
begin

text \<open>
  Mapped objects as byte memories. Everything the host tool touches through a pointer is a
  mapped object: the 8 GiB view of an L2CPU's DRAM, a 2 MiB NOC window, the disk image. An
  object is a function from byte offsets to bytes together with its size; a read or write that
  does not lie inside the object is \<open>Wild_Access\<close>. Multi-byte values are little-endian, as on
  the x86-64 host and the X280.
\<close>

section \<open>Unchecked bytes\<close>

type_synonym mem = "nat \<Rightarrow> u8"

definition peek :: "mem \<Rightarrow> nat \<Rightarrow> nat \<Rightarrow> u8 list" where
  "peek m p n = map (\<lambda>i. m (p + i)) [0..<n]"

definition poke :: "mem \<Rightarrow> nat \<Rightarrow> u8 list \<Rightarrow> mem" where
  "poke m p bs = (\<lambda>x. if p \<le> x \<and> x < p + length bs then bs ! (x - p) else m x)"

lemma length_peek [simp]: "length (peek m p n) = n"
  by (simp add: peek_def)

lemma nth_peek [simp]: "i < n \<Longrightarrow> peek m p n ! i = m (p + i)"
  by (simp add: peek_def)

lemma poke_Nil [simp]: "poke m p [] = m"
  by (rule ext) (auto simp: poke_def)

lemma poke_outside [mem_simps]: "x < p \<or> p + length bs \<le> x \<Longrightarrow> poke m p bs x = m x"
  by (auto simp: poke_def)

lemma poke_inside: "i < length bs \<Longrightarrow> poke m p bs (p + i) = bs ! i"
  by (simp add: poke_def)

lemma peek_cong: "(\<And>x. p \<le> x \<Longrightarrow> x < p + n \<Longrightarrow> m' x = m x) \<Longrightarrow> peek m' p n = peek m p n"
  by (rule nth_equalityI) simp_all

lemma peek_poke_same [mem_simps]: "n = length bs \<Longrightarrow> peek (poke m p bs) p n = bs"
  by (rule nth_equalityI) (simp_all add: poke_inside)

lemma peek_poke_sub:
  "p \<le> q \<Longrightarrow> q + n \<le> p + length bs \<Longrightarrow> peek (poke m p bs) q n = take n (drop (q - p) bs)"
  by (rule nth_equalityI) (auto simp: poke_def)

lemma peek_poke_disjoint [mem_simps]:
  "q + n \<le> p \<or> p + length bs \<le> q \<Longrightarrow> peek (poke m p bs) q n = peek m q n"
  by (rule peek_cong) (auto simp: poke_def)

lemma poke_peek_id: "poke m p (peek m p n) = m"
  by (rule ext) (auto simp: poke_def)

lemma peek_1: "peek m p 1 = [m p]"
  by (simp add: peek_def)

section \<open>Checked access to an object of a given size\<close>

definition fetch :: "nat \<Rightarrow> mem \<Rightarrow> nat \<Rightarrow> nat \<Rightarrow> u8 list res" where
  "fetch sz m p n = (if p + n \<le> sz then Inr (peek m p n) else Inl Wild_Access)"

definition store :: "nat \<Rightarrow> mem \<Rightarrow> nat \<Rightarrow> u8 list \<Rightarrow> mem res" where
  "store sz m p bs = (if p + length bs \<le> sz then Inr (poke m p bs) else Inl Wild_Access)"

lemma fetch_Inr_iff [res_simps]: "fetch sz m p n = Inr bs \<longleftrightarrow> p + n \<le> sz \<and> bs = peek m p n"
  by (auto simp: fetch_def)

lemma store_Inr_iff [res_simps]: "store sz m p bs = Inr m' \<longleftrightarrow> p + length bs \<le> sz \<and> m' = poke m p bs"
  by (auto simp: store_def)

lemma fetch_ok [simp]: "p + n \<le> sz \<Longrightarrow> fetch sz m p n = Inr (peek m p n)"
  by (simp add: fetch_def)

lemma fetch_wild [simp]: "sz < p + n \<Longrightarrow> fetch sz m p n = Inl Wild_Access"
  by (simp add: fetch_def)

lemma store_ok [simp]: "p + length bs \<le> sz \<Longrightarrow> store sz m p bs = Inr (poke m p bs)"
  by (simp add: store_def)

lemma store_wild [simp]: "sz < p + length bs \<Longrightarrow> store sz m p bs = Inl Wild_Access"
  by (simp add: store_def)

section \<open>Little-endian values\<close>

definition val16 :: "mem \<Rightarrow> nat \<Rightarrow> u16" where
  "val16 m p = of_nat (of_le (peek m p 2))"

definition val32 :: "mem \<Rightarrow> nat \<Rightarrow> u32" where
  "val32 m p = of_nat (of_le (peek m p 4))"

definition val64 :: "mem \<Rightarrow> nat \<Rightarrow> u64" where
  "val64 m p = of_nat (of_le (peek m p 8))"

definition bytes16 :: "u16 \<Rightarrow> u8 list" where
  "bytes16 w = to_le 2 (unat w)"

definition bytes32 :: "u32 \<Rightarrow> u8 list" where
  "bytes32 w = to_le 4 (unat w)"

definition bytes64 :: "u64 \<Rightarrow> u8 list" where
  "bytes64 w = to_le 8 (unat w)"

lemma length_bytes [simp]:
  "length (bytes16 a) = 2" "length (bytes32 b) = 4" "length (bytes64 c) = 8"
  by (simp_all add: bytes16_def bytes32_def bytes64_def)

lemma val_poke_same [mem_simps]:
  "val16 (poke m p (bytes16 a)) p = a"
  "val32 (poke m p (bytes32 b)) p = b"
  "val64 (poke m p (bytes64 c)) p = c"
  by (simp_all add: val16_def val32_def val64_def bytes16_def bytes32_def bytes64_def mem_simps)

lemma val_poke_disjoint [mem_simps]:
  "q + 2 \<le> p \<or> p + length bs \<le> q \<Longrightarrow> val16 (poke m p bs) q = val16 m q"
  "q + 4 \<le> p \<or> p + length bs \<le> q \<Longrightarrow> val32 (poke m p bs) q = val32 m q"
  "q + 8 \<le> p \<or> p + length bs \<le> q \<Longrightarrow> val64 (poke m p bs) q = val64 m q"
  by (simp_all add: val16_def val32_def val64_def peek_poke_disjoint)

definition ld8 :: "nat \<Rightarrow> mem \<Rightarrow> nat \<Rightarrow> u8 res" where
  "ld8 sz m p = (if p < sz then Inr (m p) else Inl Wild_Access)"

definition ld16 :: "nat \<Rightarrow> mem \<Rightarrow> nat \<Rightarrow> u16 res" where
  "ld16 sz m p = (if p + 2 \<le> sz then Inr (val16 m p) else Inl Wild_Access)"

definition ld32 :: "nat \<Rightarrow> mem \<Rightarrow> nat \<Rightarrow> u32 res" where
  "ld32 sz m p = (if p + 4 \<le> sz then Inr (val32 m p) else Inl Wild_Access)"

definition ld64 :: "nat \<Rightarrow> mem \<Rightarrow> nat \<Rightarrow> u64 res" where
  "ld64 sz m p = (if p + 8 \<le> sz then Inr (val64 m p) else Inl Wild_Access)"

lemma ld_ok [simp]:
  "p < sz \<Longrightarrow> ld8 sz m p = Inr (m p)"
  "p + 2 \<le> sz \<Longrightarrow> ld16 sz m p = Inr (val16 m p)"
  "p + 4 \<le> sz \<Longrightarrow> ld32 sz m p = Inr (val32 m p)"
  "p + 8 \<le> sz \<Longrightarrow> ld64 sz m p = Inr (val64 m p)"
  by (simp_all add: ld8_def ld16_def ld32_def ld64_def)

lemma ld_Inr_iff [res_simps]:
  "ld8 sz m p = Inr a \<longleftrightarrow> p < sz \<and> a = m p"
  "ld16 sz m p = Inr b \<longleftrightarrow> p + 2 \<le> sz \<and> b = val16 m p"
  "ld32 sz m p = Inr c \<longleftrightarrow> p + 4 \<le> sz \<and> c = val32 m p"
  "ld64 sz m p = Inr d \<longleftrightarrow> p + 8 \<le> sz \<and> d = val64 m p"
  by (auto simp: ld8_def ld16_def ld32_def ld64_def)

section \<open>Regions and framing\<close>

text \<open>\<open>span p n\<close> is the \<open>n\<close> bytes from offset \<open>p\<close>; \<open>same_on A m m'\<close> says that two memories
  agree on the region \<open>A\<close>, the form in which operations state what they leave alone.\<close>

definition span :: "nat \<Rightarrow> nat \<Rightarrow> nat set" where
  "span p n = {p ..< p + n}"

definition same_on :: "nat set \<Rightarrow> mem \<Rightarrow> mem \<Rightarrow> bool" where
  "same_on A m m' \<longleftrightarrow> (\<forall>x \<in> A. m' x = m x)"

lemma in_span [simp]: "x \<in> span p n \<longleftrightarrow> p \<le> x \<and> x < p + n"
  by (simp add: span_def)

lemma span_0 [simp]: "span p 0 = {}"
  by (simp add: span_def)

lemma span_mono: "p \<le> q \<Longrightarrow> q + k \<le> p + n \<Longrightarrow> span q k \<subseteq> span p n"
  by (auto simp: span_def)

lemma same_on_refl [simp, frame_intros]: "same_on A m m"
  by (simp add: same_on_def)

lemma same_on_trans: "same_on A m m' \<Longrightarrow> same_on A m' m'' \<Longrightarrow> same_on A m m''"
  by (simp add: same_on_def)

lemma same_on_subset: "same_on A m m' \<Longrightarrow> B \<subseteq> A \<Longrightarrow> same_on B m m'"
  by (auto simp: same_on_def)

lemma same_on_poke [frame_intros]: "span p (length bs) \<inter> A = {} \<Longrightarrow> same_on A m (poke m p bs)"
  by (auto simp: same_on_def poke_def span_def)

lemma same_on_poke2: "same_on R m m' \<Longrightarrow> same_on R (poke m p bs) (poke m' p bs)"
  by (simp add: same_on_def poke_def)

lemma same_on_peek: "same_on A m m' \<Longrightarrow> span p n \<subseteq> A \<Longrightarrow> peek m' p n = peek m p n"
  by (rule peek_cong) (auto simp: same_on_def span_def subset_iff)

lemma same_on_vals:
  "same_on A m m' \<Longrightarrow> span p 2 \<subseteq> A \<Longrightarrow> val16 m' p = val16 m p"
  "same_on A m m' \<Longrightarrow> span p 4 \<subseteq> A \<Longrightarrow> val32 m' p = val32 m p"
  "same_on A m m' \<Longrightarrow> span p 8 \<subseteq> A \<Longrightarrow> val64 m' p = val64 m p"
  by (simp_all add: val16_def val32_def val64_def same_on_peek)

end
