(* ===== verification/C_Layout.thy ===== *)
theory C_Layout
  imports Prelude
begin

text \<open>
  Layout of the C structs the host tool shares with the kernel driver and with OpenSBI. A struct
  declaration is a value of the type \<open>ctype\<close>; sizes, alignments and field offsets are computed
  from it by the rules of the System V x86-64 ABI, with g++'s size 1 for a struct that has no
  members. \<open>CPacked a\<close> is a struct with the attributes \<open>packed, aligned(a)\<close>.
\<close>

section \<open>Types, alignments, sizes\<close>

datatype ctype =
    CU8 | CU16 | CU32 | CU64
  | CArr ctype nat
  | CStruct "(string \<times> ctype) list"
  | CPacked nat "(string \<times> ctype) list"

definition align_up :: "nat \<Rightarrow> nat \<Rightarrow> nat" where
  "align_up a n = (n + a - 1) div a * a"

fun calign :: "ctype \<Rightarrow> nat" where
  "calign CU8 = 1"
| "calign CU16 = 2"
| "calign CU32 = 4"
| "calign CU64 = 8"
| "calign (CArr t n) = calign t"
| "calign (CStruct fs) = foldr max (map (\<lambda>f. calign (snd f)) fs) 1"
| "calign (CPacked a fs) = a"

fun csize :: "ctype \<Rightarrow> nat"
  and cend :: "nat \<Rightarrow> (string \<times> ctype) list \<Rightarrow> nat"
  and psize :: "(string \<times> ctype) list \<Rightarrow> nat" where
  "csize CU8 = 1"
| "csize CU16 = 2"
| "csize CU32 = 4"
| "csize CU64 = 8"
| "csize (CArr t n) = n * csize t"
| "csize (CStruct fs) = (if fs = [] then 1 else align_up (calign (CStruct fs)) (cend 0 fs))"
| "csize (CPacked a fs) = align_up a (psize fs)"
| "cend p [] = p"
| "cend p ((nm, t) # fs) = cend (align_up (calign t) p + csize t) fs"
| "psize [] = 0"
| "psize ((nm, t) # fs) = csize t + psize fs"

text \<open>Field name, offset and size of every member, in declaration order.\<close>

fun coffsets :: "nat \<Rightarrow> (string \<times> ctype) list \<Rightarrow> (string \<times> nat \<times> nat) list" where
  "coffsets p [] = []"
| "coffsets p ((nm, t) # fs) =
     (let q = align_up (calign t) p in (nm, q, csize t) # coffsets (q + csize t) fs)"

fun poffsets :: "nat \<Rightarrow> (string \<times> ctype) list \<Rightarrow> (string \<times> nat \<times> nat) list" where
  "poffsets p [] = []"
| "poffsets p ((nm, t) # fs) = (nm, p, csize t) # poffsets (p + csize t) fs"

definition offset_of :: "ctype \<Rightarrow> string \<Rightarrow> nat option" where
  "offset_of t nm =
     (case t of
        CStruct fs \<Rightarrow> map_option fst (map_of (coffsets 0 fs) nm)
      | CPacked a fs \<Rightarrow> map_option fst (map_of (poffsets 0 fs) nm)
      | _ \<Rightarrow> None)"

section \<open>The layout is sound\<close>

fun aligned_type :: "ctype \<Rightarrow> bool" where
  "aligned_type (CArr t n) = aligned_type t"
| "aligned_type (CStruct fs) = list_all (\<lambda>f. aligned_type (snd f)) fs"
| "aligned_type (CPacked a fs) = (0 < a)"
| "aligned_type _ = True"

lemma align_up_ge: "0 < a \<Longrightarrow> n \<le> align_up a n"
proof -
  assume "0 < a"
  then have "n + a - 1 = (n + a - 1) div a * a + (n + a - 1) mod a" and "(n + a - 1) mod a < a"
    by simp_all
  then show ?thesis unfolding align_up_def by linarith
qed

lemma align_up_dvd [simp]: "a dvd align_up a n"
  by (simp add: align_up_def)

lemma align_up_1 [simp]: "align_up (Suc 0) n = n"
  by (simp add: align_up_def)

lemma align_up_less: "0 < a \<Longrightarrow> align_up a n < n + a"
proof -
  assume "0 < a"
  have "(n + a - 1) div a * a \<le> n + a - 1" by (metis div_mult_mod_eq le_add1)
  with \<open>0 < a\<close> show ?thesis unfolding align_up_def by linarith
qed

lemma foldr_max_pos [simp]: "0 < foldr max xs (Suc 0)"
  by (induction xs) (simp_all add: less_max_iff_disj)

lemma calign_pos: "aligned_type t \<Longrightarrow> 0 < calign t"
  by (induction t rule: aligned_type.induct) simp_all

lemma cend_ge: "list_all (\<lambda>f. aligned_type (snd f)) fs \<Longrightarrow> p \<le> cend p fs"
proof (induction fs arbitrary: p)
  case Nil
  then show ?case by simp
next
  case (Cons f fs)
  obtain nm t where f: "f = (nm, t)" by (cases f)
  have "p \<le> align_up (calign t) p"
    using Cons.prems f by (simp add: align_up_ge calign_pos)
  also have "\<dots> \<le> cend (align_up (calign t) p + csize t) fs"
    using Cons.IH [of "align_up (calign t) p + csize t"] Cons.prems f by simp
  finally show ?case using f by simp
qed

text \<open>Every member lies inside the struct, at a multiple of its alignment, after the ones
  declared before it.\<close>

lemma coffsets_bounds:
  "list_all (\<lambda>f. aligned_type (snd f)) fs \<Longrightarrow> (nm, q, n) \<in> set (coffsets p fs) \<Longrightarrow>
     p \<le> q \<and> q + n \<le> cend p fs"
proof (induction fs arbitrary: p)
  case Nil
  then show ?case by simp
next
  case (Cons f fs)
  obtain nm' t where f: "f = (nm', t)" by (cases f)
  let ?q = "align_up (calign t) p"
  have pq: "p \<le> ?q" using Cons.prems(1) f by (simp add: align_up_ge calign_pos)
  have rest: "list_all (\<lambda>f. aligned_type (snd f)) fs" using Cons.prems(1) by simp
  consider "q = ?q" "n = csize t" | "(nm, q, n) \<in> set (coffsets (?q + csize t) fs)"
    using Cons.prems(2) f by (auto simp: Let_def)
  then show ?case
  proof cases
    case 1
    then show ?thesis using pq cend_ge [OF rest, of "?q + csize t"] f by simp
  next
    case 2
    then show ?thesis using Cons.IH [OF rest 2] pq f by simp
  qed
qed

lemma coffsets_ordered:
  "list_all (\<lambda>f. aligned_type (snd f)) fs \<Longrightarrow>
     sorted_wrt (\<lambda>a b. fst (snd a) + snd (snd a) \<le> fst (snd b)) (coffsets p fs)"
proof (induction fs arbitrary: p)
  case Nil
  then show ?case by simp
next
  case (Cons f fs)
  obtain nm t where f: "f = (nm, t)" by (cases f)
  have rest: "list_all (\<lambda>f. aligned_type (snd f)) fs" using Cons.prems by simp
  show ?case
    using Cons.IH [OF rest] coffsets_bounds [OF rest] f by (fastforce simp: Let_def)
qed

lemma coffsets_aligned:
  "(nm, q, n) \<in> set (coffsets p fs) \<Longrightarrow> \<exists>t. (nm, t) \<in> set fs \<and> calign t dvd q \<and> n = csize t"
proof (induction fs arbitrary: p)
  case Nil
  then show ?case by simp
next
  case (Cons f fs)
  obtain nm' t where f: "f = (nm', t)" by (cases f)
  show ?case
    using Cons.prems Cons.IH [of "align_up (calign t) p + csize t"] f
    by (auto simp: Let_def)
qed

lemma cend_le_csize:
  "fs \<noteq> [] \<Longrightarrow> cend 0 fs \<le> csize (CStruct fs)"
  by (simp add: align_up_ge)

end
