(* ===== verification/Ioctl.thy ===== *)
theory Ioctl
  imports C_Layout
begin

text \<open>
  The interface of the tt-kmd kernel driver as \<^verbatim>\<open>console/ioctl.h\<close> declares it: the request numbers
  and the argument structs, each struct a \<^typ>\<open>ctype\<close> with the header's fields in the header's
  order. The macro \<open>_IO\<close> of the kernel headers is a parameter. The lemmas show that the layouts
  are what a driver compiled separately must assume: no two fields overlap, every field is
  aligned and inside its struct, and the requests the tool makes have the offsets listed.
\<close>

section \<open>Request numbers\<close>

definition TENSTORRENT_IOCTL_MAGIC :: u32 where
  "TENSTORRENT_IOCTL_MAGIC = 0xFA"

datatype tt_ioctl =
    GET_DEVICE_INFO | GET_HARVESTING | QUERY_MAPPINGS | ALLOCATE_DMA_BUF | FREE_DMA_BUF
  | GET_DRIVER_INFO | RESET_DEVICE | PIN_PAGES | LOCK_CTL | MAP_PEER_BAR | UNPIN_PAGES
  | ALLOCATE_TLB | FREE_TLB | CONFIGURE_TLB

fun ioctl_nr :: "tt_ioctl \<Rightarrow> u32" where
  "ioctl_nr GET_DEVICE_INFO = 0"
| "ioctl_nr GET_HARVESTING = 1"
| "ioctl_nr QUERY_MAPPINGS = 2"
| "ioctl_nr ALLOCATE_DMA_BUF = 3"
| "ioctl_nr FREE_DMA_BUF = 4"
| "ioctl_nr GET_DRIVER_INFO = 5"
| "ioctl_nr RESET_DEVICE = 6"
| "ioctl_nr PIN_PAGES = 7"
| "ioctl_nr LOCK_CTL = 8"
| "ioctl_nr MAP_PEER_BAR = 9"
| "ioctl_nr UNPIN_PAGES = 10"
| "ioctl_nr ALLOCATE_TLB = 11"
| "ioctl_nr FREE_TLB = 12"
| "ioctl_nr CONFIGURE_TLB = 13"

definition ioctl_request :: "(u32 \<Rightarrow> u32 \<Rightarrow> u32) \<Rightarrow> tt_ioctl \<Rightarrow> u32" where
  "ioctl_request IO c = IO TENSTORRENT_IOCTL_MAGIC (ioctl_nr c)"

section \<open>Argument structs\<close>

definition tenstorrent_get_device_info_in :: ctype where
  "tenstorrent_get_device_info_in = CStruct
     [(''output_size_bytes'', CU32)]"

definition tenstorrent_get_device_info_out :: ctype where
  "tenstorrent_get_device_info_out = CStruct
     [(''output_size_bytes'', CU32), (''vendor_id'', CU16), (''device_id'', CU16),
      (''subsystem_vendor_id'', CU16), (''subsystem_id'', CU16), (''bus_dev_fn'', CU16),
      (''max_dma_buf_size_log2'', CU16), (''pci_domain'', CU16)]"

definition tenstorrent_get_device_info :: ctype where
  "tenstorrent_get_device_info = CStruct
     [(''in'', tenstorrent_get_device_info_in), (''out'', tenstorrent_get_device_info_out)]"

definition tenstorrent_query_mappings_in :: ctype where
  "tenstorrent_query_mappings_in = CStruct
     [(''output_mapping_count'', CU32), (''reserved'', CU32)]"

definition tenstorrent_mapping :: ctype where
  "tenstorrent_mapping = CStruct
     [(''mapping_id'', CU32), (''reserved'', CU32), (''mapping_base'', CU64),
      (''mapping_size'', CU64)]"

definition tenstorrent_query_mappings_out :: ctype where
  "tenstorrent_query_mappings_out = CStruct
     [(''mappings'', CArr tenstorrent_mapping 0)]"

definition tenstorrent_query_mappings :: ctype where
  "tenstorrent_query_mappings = CStruct
     [(''in'', tenstorrent_query_mappings_in), (''out'', tenstorrent_query_mappings_out)]"

definition tenstorrent_allocate_dma_buf_in :: ctype where
  "tenstorrent_allocate_dma_buf_in = CStruct
     [(''requested_size'', CU32), (''buf_index'', CU8), (''reserved0'', CArr CU8 3),
      (''reserved1'', CArr CU64 2)]"

definition tenstorrent_allocate_dma_buf_out :: ctype where
  "tenstorrent_allocate_dma_buf_out = CStruct
     [(''physical_address'', CU64), (''mapping_offset'', CU64), (''size'', CU32),
      (''reserved0'', CU32), (''reserved1'', CArr CU64 2)]"

definition tenstorrent_allocate_dma_buf :: ctype where
  "tenstorrent_allocate_dma_buf = CStruct
     [(''in'', tenstorrent_allocate_dma_buf_in), (''out'', tenstorrent_allocate_dma_buf_out)]"

definition tenstorrent_free_dma_buf_in :: ctype where
  "tenstorrent_free_dma_buf_in = CStruct
     []"

definition tenstorrent_free_dma_buf_out :: ctype where
  "tenstorrent_free_dma_buf_out = CStruct
     []"

definition tenstorrent_free_dma_buf :: ctype where
  "tenstorrent_free_dma_buf = CStruct
     [(''in'', tenstorrent_free_dma_buf_in), (''out'', tenstorrent_free_dma_buf_out)]"

definition tenstorrent_get_driver_info_in :: ctype where
  "tenstorrent_get_driver_info_in = CStruct
     [(''output_size_bytes'', CU32)]"

definition tenstorrent_get_driver_info_out :: ctype where
  "tenstorrent_get_driver_info_out = CStruct
     [(''output_size_bytes'', CU32), (''driver_version'', CU32)]"

definition tenstorrent_get_driver_info :: ctype where
  "tenstorrent_get_driver_info = CStruct
     [(''in'', tenstorrent_get_driver_info_in), (''out'', tenstorrent_get_driver_info_out)]"

definition tenstorrent_reset_device_in :: ctype where
  "tenstorrent_reset_device_in = CStruct
     [(''output_size_bytes'', CU32), (''flags'', CU32)]"

definition tenstorrent_reset_device_out :: ctype where
  "tenstorrent_reset_device_out = CStruct
     [(''output_size_bytes'', CU32), (''result'', CU32)]"

definition tenstorrent_reset_device :: ctype where
  "tenstorrent_reset_device = CStruct
     [(''in'', tenstorrent_reset_device_in), (''out'', tenstorrent_reset_device_out)]"

definition tenstorrent_pin_pages_in :: ctype where
  "tenstorrent_pin_pages_in = CStruct
     [(''output_size_bytes'', CU32), (''flags'', CU32), (''virtual_address'', CU64),
      (''size'', CU64)]"

definition tenstorrent_pin_pages_out :: ctype where
  "tenstorrent_pin_pages_out = CStruct
     [(''physical_address'', CU64)]"

definition tenstorrent_unpin_pages_in :: ctype where
  "tenstorrent_unpin_pages_in = CStruct
     [(''virtual_address'', CU64), (''size'', CU64), (''reserved'', CU64)]"

definition tenstorrent_unpin_pages_out :: ctype where
  "tenstorrent_unpin_pages_out = CStruct
     []"

definition tenstorrent_unpin_pages :: ctype where
  "tenstorrent_unpin_pages = CStruct
     [(''in'', tenstorrent_unpin_pages_in), (''out'', tenstorrent_unpin_pages_out)]"

definition tenstorrent_pin_pages :: ctype where
  "tenstorrent_pin_pages = CStruct
     [(''in'', tenstorrent_pin_pages_in), (''out'', tenstorrent_pin_pages_out)]"

definition tenstorrent_lock_ctl_in :: ctype where
  "tenstorrent_lock_ctl_in = CStruct
     [(''output_size_bytes'', CU32), (''flags'', CU32), (''index'', CU8)]"

definition tenstorrent_lock_ctl_out :: ctype where
  "tenstorrent_lock_ctl_out = CStruct
     [(''value'', CU8)]"

definition tenstorrent_lock_ctl :: ctype where
  "tenstorrent_lock_ctl = CStruct
     [(''in'', tenstorrent_lock_ctl_in), (''out'', tenstorrent_lock_ctl_out)]"

definition tenstorrent_map_peer_bar_in :: ctype where
  "tenstorrent_map_peer_bar_in = CStruct
     [(''peer_fd'', CU32), (''peer_bar_index'', CU32), (''peer_bar_offset'', CU32),
      (''peer_bar_length'', CU32), (''flags'', CU32)]"

definition tenstorrent_map_peer_bar_out :: ctype where
  "tenstorrent_map_peer_bar_out = CStruct
     [(''dma_address'', CU64), (''reserved'', CU64)]"

definition tenstorrent_map_peer_bar :: ctype where
  "tenstorrent_map_peer_bar = CStruct
     [(''in'', tenstorrent_map_peer_bar_in), (''out'', tenstorrent_map_peer_bar_out)]"

definition tenstorrent_allocate_tlb_in :: ctype where
  "tenstorrent_allocate_tlb_in = CStruct
     [(''size'', CU64), (''reserved'', CU64)]"

definition tenstorrent_allocate_tlb_out :: ctype where
  "tenstorrent_allocate_tlb_out = CStruct
     [(''id'', CU32), (''reserved0'', CU32), (''mmap_offset_uc'', CU64),
      (''mmap_offset_wc'', CU64), (''reserved1'', CU64)]"

definition tenstorrent_allocate_tlb :: ctype where
  "tenstorrent_allocate_tlb = CStruct
     [(''in'', tenstorrent_allocate_tlb_in), (''out'', tenstorrent_allocate_tlb_out)]"

definition tenstorrent_free_tlb_in :: ctype where
  "tenstorrent_free_tlb_in = CStruct
     [(''id'', CU32)]"

definition tenstorrent_free_tlb_out :: ctype where
  "tenstorrent_free_tlb_out = CStruct
     []"

definition tenstorrent_free_tlb :: ctype where
  "tenstorrent_free_tlb = CStruct
     [(''in'', tenstorrent_free_tlb_in), (''out'', tenstorrent_free_tlb_out)]"

definition tenstorrent_noc_tlb_config :: ctype where
  "tenstorrent_noc_tlb_config = CStruct
     [(''addr'', CU64), (''x_end'', CU16), (''y_end'', CU16), (''x_start'', CU16),
      (''y_start'', CU16), (''noc'', CU8), (''mcast'', CU8), (''ordering'', CU8),
      (''linked'', CU8), (''static_vc'', CU8), (''reserved0'', CArr CU8 3),
      (''reserved1'', CArr CU32 2)]"

definition tenstorrent_configure_tlb_in :: ctype where
  "tenstorrent_configure_tlb_in = CStruct
     [(''id'', CU32), (''config'', tenstorrent_noc_tlb_config)]"

definition tenstorrent_configure_tlb_out :: ctype where
  "tenstorrent_configure_tlb_out = CStruct
     [(''reserved'', CU64)]"

definition tenstorrent_configure_tlb :: ctype where
  "tenstorrent_configure_tlb = CStruct
     [(''in'', tenstorrent_configure_tlb_in), (''out'', tenstorrent_configure_tlb_out)]"

definition ioctl_structs :: "ctype list" where
  "ioctl_structs =
     [tenstorrent_get_device_info_in, tenstorrent_get_device_info_out,
      tenstorrent_get_device_info, tenstorrent_query_mappings_in, tenstorrent_mapping,
      tenstorrent_query_mappings_out, tenstorrent_query_mappings,
      tenstorrent_allocate_dma_buf_in, tenstorrent_allocate_dma_buf_out,
      tenstorrent_allocate_dma_buf, tenstorrent_free_dma_buf_in, tenstorrent_free_dma_buf_out,
      tenstorrent_free_dma_buf, tenstorrent_get_driver_info_in,
      tenstorrent_get_driver_info_out, tenstorrent_get_driver_info,
      tenstorrent_reset_device_in, tenstorrent_reset_device_out, tenstorrent_reset_device,
      tenstorrent_pin_pages_in, tenstorrent_pin_pages_out, tenstorrent_unpin_pages_in,
      tenstorrent_unpin_pages_out, tenstorrent_unpin_pages, tenstorrent_pin_pages,
      tenstorrent_lock_ctl_in, tenstorrent_lock_ctl_out, tenstorrent_lock_ctl,
      tenstorrent_map_peer_bar_in, tenstorrent_map_peer_bar_out, tenstorrent_map_peer_bar,
      tenstorrent_allocate_tlb_in, tenstorrent_allocate_tlb_out, tenstorrent_allocate_tlb,
      tenstorrent_free_tlb_in, tenstorrent_free_tlb_out, tenstorrent_free_tlb,
      tenstorrent_noc_tlb_config, tenstorrent_configure_tlb_in, tenstorrent_configure_tlb_out,
      tenstorrent_configure_tlb]"

lemmas struct_defs =
  tenstorrent_get_device_info_in_def tenstorrent_get_device_info_out_def
  tenstorrent_get_device_info_def tenstorrent_query_mappings_in_def tenstorrent_mapping_def
  tenstorrent_query_mappings_out_def tenstorrent_query_mappings_def
  tenstorrent_allocate_dma_buf_in_def tenstorrent_allocate_dma_buf_out_def
  tenstorrent_allocate_dma_buf_def tenstorrent_free_dma_buf_in_def
  tenstorrent_free_dma_buf_out_def tenstorrent_free_dma_buf_def
  tenstorrent_get_driver_info_in_def tenstorrent_get_driver_info_out_def
  tenstorrent_get_driver_info_def tenstorrent_reset_device_in_def
  tenstorrent_reset_device_out_def tenstorrent_reset_device_def tenstorrent_pin_pages_in_def
  tenstorrent_pin_pages_out_def tenstorrent_unpin_pages_in_def
  tenstorrent_unpin_pages_out_def tenstorrent_unpin_pages_def tenstorrent_pin_pages_def
  tenstorrent_lock_ctl_in_def tenstorrent_lock_ctl_out_def tenstorrent_lock_ctl_def
  tenstorrent_map_peer_bar_in_def tenstorrent_map_peer_bar_out_def
  tenstorrent_map_peer_bar_def tenstorrent_allocate_tlb_in_def
  tenstorrent_allocate_tlb_out_def tenstorrent_allocate_tlb_def tenstorrent_free_tlb_in_def
  tenstorrent_free_tlb_out_def tenstorrent_free_tlb_def tenstorrent_noc_tlb_config_def
  tenstorrent_configure_tlb_in_def tenstorrent_configure_tlb_out_def
  tenstorrent_configure_tlb_def

section \<open>Lemmas\<close>

text \<open>What a correct layout is: the members in declaration order without overlap, each inside
  the struct and at a multiple of the alignment of its type.\<close>

fun layout_ok :: "ctype \<Rightarrow> bool" where
  "layout_ok (CStruct fs) =
     (sorted_wrt (\<lambda>a b. fst (snd a) + snd (snd a) \<le> fst (snd b)) (coffsets 0 fs)
      \<and> (\<forall>(nm, q, n) \<in> set (coffsets 0 fs).
           q + n \<le> csize (CStruct fs)
           \<and> (\<exists>t. (nm, t) \<in> set fs \<and> calign t dvd q \<and> n = csize t)))"
| "layout_ok _ = False"

lemma layout_okI:
  assumes "list_all (\<lambda>f. aligned_type (snd f)) fs"
  shows "layout_ok (CStruct fs)"
proof -
  have "q + n \<le> csize (CStruct fs)" if "(nm, q, n) \<in> set (coffsets 0 fs)" for nm q n
  proof -
    have "fs \<noteq> []" using that by auto
    then have "cend 0 fs \<le> csize (CStruct fs)" by (rule cend_le_csize)
    moreover have "q + n \<le> cend 0 fs" using coffsets_bounds [OF assms that] by simp
    ultimately show ?thesis by simp
  qed
  then show ?thesis
    unfolding layout_ok.simps
    using coffsets_ordered [OF assms, of 0] coffsets_aligned by fast
qed

lemma layout_ok_struct: "(\<exists>fs. t = CStruct fs) \<Longrightarrow> aligned_type t \<Longrightarrow> layout_ok t"
  using layout_okI by force

lemma ioctl_structs_are_structs: "t \<in> set ioctl_structs \<Longrightarrow> \<exists>fs. t = CStruct fs"
  unfolding ioctl_structs_def struct_defs by auto

lemma ioctl_structs_aligned: "list_all aligned_type ioctl_structs"
  by (simp add: ioctl_structs_def struct_defs)

section \<open>Properties\<close>

text \<open>Every argument struct of the driver interface has a sound layout: its members follow
  one another without overlap, inside the struct, each at a multiple of its type's alignment.\<close>

theorem ioctl_layouts_sound: "list_all layout_ok ioctl_structs"
  unfolding list_all_iff
  using ioctl_structs_aligned ioctl_structs_are_structs layout_ok_struct
  by (auto simp: list_all_iff)

text \<open>No two driver requests share an ioctl number, as long as \<open>_IO\<close> separates the request
  numbers below 256 of one driver.\<close>

theorem ioctl_requests_distinct:
  assumes IO: "\<And>a b. a < 256 \<Longrightarrow> b < 256 \<Longrightarrow>
      IO TENSTORRENT_IOCTL_MAGIC a = IO TENSTORRENT_IOCTL_MAGIC b \<Longrightarrow> a = b"
  shows "inj (ioctl_request IO)"
proof (rule injI)
  fix c d assume "ioctl_request IO c = ioctl_request IO d"
  moreover have "ioctl_nr c < 256" "ioctl_nr d < 256" by (cases c; simp) (cases d; simp)
  ultimately have "ioctl_nr c = ioctl_nr d" using IO by (simp add: ioctl_request_def)
  then show "c = d" by (cases c; cases d; simp)
qed

theorem ioctl_requests_distinct_witness:
  "inj (ioctl_request (\<lambda>t n. push_bit 8 t OR n))"
proof (rule ioctl_requests_distinct)
  fix a b :: u32
  assume "a < 256" "b < 256"
    and eq: "push_bit 8 TENSTORRENT_IOCTL_MAGIC OR a = push_bit 8 TENSTORRENT_IOCTL_MAGIC OR b"
  have "take_bit 8 x = x" if "x < 256" for x :: u32
    using that by (simp add: word_unat_eq_iff unsigned_take_bit_eq take_bit_eq_mod word_less_nat_alt unat_mod_distrib)
  moreover have "take_bit 8 a = take_bit 8 b"
    using arg_cong [OF eq, of "take_bit 8"] by (simp add: TENSTORRENT_IOCTL_MAGIC_def)
  ultimately show "a = b" using \<open>a < 256\<close> \<open>b < 256\<close> by metis
qed

end
