(* ===== verification/Tlb.thy ===== *)
theory Tlb
  imports Byte_Memory Ioctl
begin

text \<open>
  NOC windows: \<^verbatim>\<open>console/tlb.h\<close> and \<^verbatim>\<open>console/tlb.cpp\<close>. A \<open>TlbHandle\<close> owns one inbound TLB of
  the kernel driver and its mapping; a \<open>TlbWindow\<close> of a power-of-two size places a NOC address
  in such a mapping. The kernel driver is outside the repository: its answers are the parameter
  \<open>kmd_reply\<close>, and what the tool asks of it is recorded as a trace of \<open>kevent\<close>s. The memory of
  the chip is a byte memory per NOC tile.
\<close>

section \<open>The kernel interface\<close>

record noc_tlb_config =
  cfg_addr :: u64
  x_end :: u16
  y_end :: u16
  x_start :: u16
  y_start :: u16
  noc_sel :: u8
  mcast :: u8
  ordering :: u8
  linked :: u8
  static_vc :: u8

definition unicast_config :: "u64 \<Rightarrow> u16 \<Rightarrow> u16 \<Rightarrow> noc_tlb_config" where
  "unicast_config a x y =
     \<lparr>cfg_addr = a, x_end = x, y_end = y, x_start = 0, y_start = 0, noc_sel = 0, mcast = 0,
      ordering = 0, linked = 0, static_vc = 0\<rparr>"

record allocate_tlb_out =
  out_id :: u32
  mmap_offset_uc :: u64
  mmap_offset_wc :: u64

text \<open>The header's reserved fields are zero in every configuration the tool builds (designated
  initialisers) and are left out of the record.\<close>

text \<open>What the kernel answers to the three calls of a \<open>TlbHandle\<close> constructor: \<open>None\<close> is a
  failing call.\<close>

record kmd_reply =
  rep_allocate :: "allocate_tlb_out option"
  rep_configure :: bool
  rep_mmap :: "u64 option"

datatype kevent =
    Ev_Allocate int u64 "u32 option"
  | Ev_Configure int u32 noc_tlb_config bool
  | Ev_Mmap int "u64 option" u64 bool u64 "u64 option"
  | Ev_Open int int
  | Ev_Reserve u64 u64
  | Ev_Free int u32
  | Ev_Munmap u64 u64
  | Ev_Close int

section \<open>TlbHandle\<close>

record tlb_handle =
  h_fd :: int
  tlb_id :: u32
  tlb_base :: u64
  tlb_size :: u64
  h_config :: noc_tlb_config

definition TlbHandle_new ::
  "int \<Rightarrow> u64 \<Rightarrow> noc_tlb_config \<Rightarrow> u64 option \<Rightarrow> bool \<Rightarrow> kmd_reply \<Rightarrow> kevent list \<times> tlb_handle res" where
  "TlbHandle_new fd sz config base use_wc k =
     (case rep_allocate k of
        None \<Rightarrow> ([Ev_Allocate fd sz None], Inl Exit_Failure)
      | Some out \<Rightarrow>
          let id = out_id out;
              alloc = Ev_Allocate fd sz (Some id);
              conf = Ev_Configure fd id config (rep_configure k)
          in if \<not> rep_configure k
             then ([alloc, conf, Ev_Free fd id], Inl Exit_Failure)
             else
               let moff = (if use_wc then mmap_offset_wc out else mmap_offset_uc out);
                   map = Ev_Mmap fd base sz (base \<noteq> None) moff (rep_mmap k)
               in (case rep_mmap k of
                     None \<Rightarrow> ([alloc, conf, map, Ev_Free fd id], Inl Exit_Failure)
                   | Some m \<Rightarrow>
                       ([alloc, conf, map],
                        Inr \<lparr>h_fd = fd, tlb_id = id, tlb_base = m, tlb_size = sz,
                             h_config = config\<rparr>)))"

definition TlbHandle_delete :: "tlb_handle \<Rightarrow> kevent list" where
  "TlbHandle_delete h = [Ev_Munmap (tlb_base h) (tlb_size h), Ev_Free (h_fd h) (tlb_id h)]"

section \<open>TlbWindow\<close>

text \<open>\<open>WINDOW_SIZE\<close> is a template parameter; the \<open>static_assert\<close> is \<open>window_size_ok\<close>.\<close>

definition TWO_MEG :: u64 where
  "TWO_MEG = push_bit 21 1"

definition FOUR_GIG :: u64 where
  "FOUR_GIG = push_bit 32 1"

definition WINDOW_MASK :: "u64 \<Rightarrow> u64" where
  "WINDOW_MASK sz = sz - 1"

definition window_size_ok :: "u64 \<Rightarrow> bool" where
  "window_size_ok sz \<longleftrightarrow> sz AND WINDOW_MASK sz = 0"

record tlb_window =
  w_size :: u64
  w_offset :: u64
  w_handle :: tlb_handle

definition TlbWindow_new ::
  "u64 \<Rightarrow> int \<Rightarrow> u16 \<Rightarrow> u16 \<Rightarrow> u64 \<Rightarrow> u64 option \<Rightarrow> bool \<Rightarrow> kmd_reply
     \<Rightarrow> kevent list \<times> tlb_window res" where
  "TlbWindow_new sz fd x y addr base use_wc k =
     (let config = unicast_config (addr AND NOT (WINDOW_MASK sz)) x y;
          (evs, r) = TlbHandle_new fd sz config base use_wc k
      in (evs, bindR r (\<lambda>h. Inr \<lparr>w_size = sz, w_offset = addr AND WINDOW_MASK sz, w_handle = h\<rparr>)))"

text \<open>The memory behind a mapped window: byte \<open>k\<close> of the mapping is the byte of the target tile at
  the configured address plus \<open>k\<close>.\<close>

type_synonym noc = "u16 \<Rightarrow> u16 \<Rightarrow> mem"

definition window_mem :: "noc \<Rightarrow> tlb_handle \<Rightarrow> mem" where
  "window_mem N h k = N (x_end (h_config h)) (y_end (h_config h)) (unat (cfg_addr (h_config h)) + k)"

definition noc_put :: "noc \<Rightarrow> u16 \<Rightarrow> u16 \<Rightarrow> nat \<Rightarrow> u8 list \<Rightarrow> noc" where
  "noc_put N x y a bs = N(x := (N x)(y := poke (N x y) a bs))"

definition window_put :: "noc \<Rightarrow> tlb_handle \<Rightarrow> nat \<Rightarrow> u8 list \<Rightarrow> noc" where
  "window_put N h k bs =
     noc_put N (x_end (h_config h)) (y_end (h_config h)) (unat (cfg_addr (h_config h)) + k) bs"

lemma noc_put_apply:
  "noc_put N x y a bs x' y' = (if x' = x \<and> y' = y then poke (N x y) a bs else N x' y')"
  by (simp add: noc_put_def)

lemma noc_put_same [simp]: "noc_put N x y a bs x y = poke (N x y) a bs"
  by (simp add: noc_put_apply)

text \<open>The two \<open>assert\<close>s, in 64-bit arithmetic.\<close>

definition access_ok :: "tlb_window \<Rightarrow> u64 \<Rightarrow> bool" where
  "access_ok w a \<longleftrightarrow> w_offset w + a + 4 \<le> w_size w \<and> (w_offset w + a) mod 4 = 0"

definition TlbWindow_read32 :: "noc \<Rightarrow> tlb_window \<Rightarrow> u64 \<Rightarrow> u32 res" where
  "TlbWindow_read32 N w a =
     bindR (require Assert_Failed (access_ok w a)) (\<lambda>_.
       ld32 (unat (w_size w)) (window_mem N (w_handle w)) (unat (w_offset w + a)))"

definition TlbWindow_write32 :: "noc \<Rightarrow> tlb_window \<Rightarrow> u64 \<Rightarrow> u32 \<Rightarrow> noc res" where
  "TlbWindow_write32 N w a v =
     bindR (require Assert_Failed (access_ok w a)) (\<lambda>_.
     bindR (require Wild_Access (unat (w_offset w + a) + 4 \<le> unat (w_size w))) (\<lambda>_.
       Inr (window_put N (w_handle w) (unat (w_offset w + a)) (bytes32 v))))"

text \<open>\<open>get_window\<close>: the pointer to the target address, as an offset into the mapping.\<close>

definition TlbWindow_get_window :: "tlb_window \<Rightarrow> u64" where
  "TlbWindow_get_window w = w_offset w"

section \<open>Resources: every allocation is released\<close>

text \<open>A kernel resource is a TLB of a file descriptor or a mapping at an address; the balance of
  a trace counts acquisitions minus releases of one resource, as asked for: whether the descriptor
  of a release is still open is not looked at here, but in the ledger \<open>tlbs_held\<close> of \<^theory_text>\<open>L2cpu\<close>.\<close>

datatype resource = Res_Tlb int u32 | Res_Map u64

fun acquires :: "kevent \<Rightarrow> resource \<Rightarrow> int" where
  "acquires (Ev_Allocate fd _ (Some j)) (Res_Tlb f i) = of_bool (f = fd \<and> i = j)"
| "acquires (Ev_Free fd j) (Res_Tlb f i) = - of_bool (f = fd \<and> i = j)"
| "acquires (Ev_Mmap _ _ _ _ _ (Some m)) (Res_Map b) = of_bool (b = m)"
| "acquires (Ev_Reserve m _) (Res_Map b) = of_bool (b = m)"
| "acquires (Ev_Munmap m _) (Res_Map b) = - of_bool (b = m)"
| "acquires _ _ = 0"

definition balance :: "kevent list \<Rightarrow> resource \<Rightarrow> int" where
  "balance evs r = sum_list (map (\<lambda>e. acquires e r) evs)"

lemma balance_simps [simp]:
  "balance [] r = 0"
  "balance (e # es) r = acquires e r + balance es r"
  "balance (es @ fs) r = balance es r + balance fs r"
  by (simp_all add: balance_def)

definition holds_only :: "tlb_handle \<Rightarrow> resource \<Rightarrow> int" where
  "holds_only h r =
     (case r of Res_Tlb f i \<Rightarrow> of_bool (f = h_fd h \<and> i = tlb_id h)
              | Res_Map b \<Rightarrow> of_bool (b = tlb_base h))"

lemma TlbHandle_new_balance:
  "TlbHandle_new fd sz c base wc k = (evs, res) \<Longrightarrow>
     balance evs r = (case res of Inl _ \<Rightarrow> 0 | Inr h \<Rightarrow> holds_only h r)"
  by (cases r)
    (auto simp: TlbHandle_new_def Let_def holds_only_def split: option.splits if_splits)

lemma TlbHandle_new_Inr:
  "TlbHandle_new fd sz c base wc k = (evs, Inr h) \<Longrightarrow>
     h_fd h = fd \<and> tlb_size h = sz \<and> h_config h = c \<and> rep_mmap k = Some (tlb_base h)"
  by (auto simp: TlbHandle_new_def Let_def split: option.splits if_splits)

lemma TlbHandle_delete_balance: "balance (TlbHandle_delete h) r = - holds_only h r"
  by (cases r) (simp_all add: TlbHandle_delete_def holds_only_def)

text \<open>C14: a \<open>TlbHandle\<close> never leaks. A constructor that fails, whichever of the three kernel
  calls it is, has given back all it acquired before the tool exits; one that succeeds holds
  exactly its own TLB and mapping, and its destructor releases both.\<close>

theorem TlbHandle_no_leak:
  assumes "TlbHandle_new fd sz c base wc k = (evs, res)"
  shows "case res of
           Inl e \<Rightarrow> e = Exit_Failure \<and> (\<forall>r. balance evs r = 0)
         | Inr h \<Rightarrow> balance evs (Res_Tlb fd (tlb_id h)) = 1 \<and> balance evs (Res_Map (tlb_base h)) = 1
                    \<and> (\<forall>r. balance (evs @ TlbHandle_delete h) r = 0)"
proof (cases res)
  case (Inl e)
  then have "e = Exit_Failure"
    using assms by (auto simp: TlbHandle_new_def Let_def split: option.splits if_splits)
  then show ?thesis using Inl TlbHandle_new_balance [OF assms] by simp
next
  case (Inr h)
  then show ?thesis
    using TlbHandle_new_balance [OF assms] TlbHandle_new_Inr [of fd sz c base wc k evs h] assms
    by (simp add: TlbHandle_delete_balance holds_only_def)
qed

definition sample_reply :: kmd_reply where
  "sample_reply =
     \<lparr>rep_allocate = Some \<lparr>out_id = 7, mmap_offset_uc = 0x1000, mmap_offset_wc = 0x2000\<rparr>,
      rep_configure = True, rep_mmap = Some 0x7f0000000000\<rparr>"

theorem TlbHandle_no_leak_witness:
  "\<exists>evs h. TlbHandle_new 3 TWO_MEG (unicast_config 0 8 3) None False sample_reply = (evs, Inr h)
     \<and> balance evs (Res_Tlb 3 7) = 1
     \<and> (\<forall>r. balance (evs @ TlbHandle_delete h) r = 0)"
proof -
  obtain evs h where new:
    "TlbHandle_new 3 TWO_MEG (unicast_config 0 8 3) None False sample_reply = (evs, Inr h)"
    and id: "tlb_id h = 7"
    by (simp add: TlbHandle_new_def sample_reply_def)
  then show ?thesis using TlbHandle_no_leak [OF new] by auto
qed

section \<open>A window reaches the address it was made for\<close>

lemma WINDOW_MASK_pow2: "WINDOW_MASK (2 ^ n) = mask n"
  by (simp add: WINDOW_MASK_def mask_eq_decr_exp)

lemma window_size_ok_pow2: "window_size_ok (2 ^ n)"
  unfolding window_size_ok_def WINDOW_MASK_pow2 by (rule bit_eqI) (auto simp: bit_simps)

lemma window_sizes: "TWO_MEG = 2 ^ 21" "FOUR_GIG = 2 ^ 32"
  by (simp_all add: TWO_MEG_def FOUR_GIG_def push_bit_eq_mult)

lemma mask_split:
  fixes a :: u64
  shows "unat (a AND NOT (mask n)) + unat (a AND mask n) = unat a"
proof -
  have "(a AND NOT (mask n)) AND (a AND mask n) = 0"
    by (simp add: bit_eq_iff bit_simps)
  then have "unat (a AND NOT (mask n)) AND unat (a AND mask n) = 0"
    by (simp flip: unsigned_and_eq)
  then have "unat (a AND NOT (mask n)) + unat (a AND mask n)
               = unat (a AND NOT (mask n)) OR unat (a AND mask n)"
    by (rule disjunctive_add_eq_or)
  also have "\<dots> = unat ((a AND NOT (mask n)) OR (a AND mask n))"
    by (simp add: unsigned_or_eq)
  also have "(a AND NOT (mask n)) OR (a AND mask n) = a"
    by (auto simp: bit_eq_iff bit_simps)
  finally show ?thesis .
qed

lemma mask_low: "unat ((a :: u64) AND mask n) = unat a mod 2 ^ n"
proof -
  have "unat (a AND mask n) = take_bit n (unat a)"
    by (simp flip: take_bit_eq_mask add: unsigned_take_bit_eq)
  then show ?thesis by (simp only: take_bit_eq_mod)
qed

lemma mask_high: "unat ((a :: u64) AND NOT (mask n)) = unat a div 2 ^ n * 2 ^ n"
proof -
  have "unat (a AND NOT (mask n)) + unat a mod 2 ^ n = unat a div 2 ^ n * 2 ^ n + unat a mod 2 ^ n"
    using mask_split [of a n] div_mult_mod_eq [of "unat a" "2 ^ n"] by (simp add: mask_low)
  then show ?thesis by simp
qed

lemma TlbWindow_new_Inr:
  assumes "TlbWindow_new sz fd x y a base wc k = (evs, Inr w)"
  shows "w_size w = sz" "w_offset w = a AND WINDOW_MASK sz"
    "h_config (w_handle w) = unicast_config (a AND NOT (WINDOW_MASK sz)) x y"
    "TlbHandle_new fd sz (unicast_config (a AND NOT (WINDOW_MASK sz)) x y) base wc k
       = (evs, Inr (w_handle w))"
  using assms TlbHandle_new_Inr
  by (fastforce simp: TlbWindow_new_def Let_def bindR_Inr_iff split: prod.splits)+

lemma window_val32:
  "val32 (window_mem N h) k =
     val32 (N (x_end (h_config h)) (y_end (h_config h))) (unat (cfg_addr (h_config h)) + k)"
  by (simp add: val32_def peek_def window_mem_def add.assoc)

lemma TlbWindow_splits_address_lemma:
  assumes "TlbWindow_new (2 ^ n) fd x y a base wc k = (evs, Inr w)" and "n < 64"
  shows "unat (cfg_addr (h_config (w_handle w))) + unat (w_offset w) = unat a"
    "2 ^ n dvd unat (cfg_addr (h_config (w_handle w)))"
    "unat (w_offset w) < unat (w_size w)"
    "x_end (h_config (w_handle w)) = x" "y_end (h_config (w_handle w)) = y"
  using TlbWindow_new_Inr [OF assms(1)] assms(2) mask_split [of a n]
  by (simp_all add: WINDOW_MASK_pow2 unicast_config_def mask_high unat_pow2 mask_low)

text \<open>A window splits the address it is made for without loss: the configured base is aligned
  to the window size, the offset lies inside the window, together they are the address, and the
  TLB is a unicast to the given tile.\<close>

theorem TlbWindow_splits_address:
  assumes "TlbWindow_new (2 ^ n) fd x y a base wc k = (evs, Inr w)" and "n < 64"
  shows "unat (cfg_addr (h_config (w_handle w))) + unat (w_offset w) = unat a
         \<and> 2 ^ n dvd unat (cfg_addr (h_config (w_handle w)))
         \<and> unat (w_offset w) < unat (w_size w)
         \<and> x_end (h_config (w_handle w)) = x \<and> y_end (h_config (w_handle w)) = y"
  using TlbWindow_splits_address_lemma [OF assms] by simp

theorem TlbWindow_splits_address_witness:
  "\<exists>w. snd (TlbWindow_new (2 ^ 21) 3 8 3 0x2FF10404 None False sample_reply) = Inr w
     \<and> unat (cfg_addr (h_config (w_handle w))) + unat (w_offset w) = 0x2FF10404"
proof -
  obtain evs w where
    new: "TlbWindow_new (2 ^ 21) 3 8 3 0x2FF10404 None False sample_reply = (evs, Inr w)"
    by (simp add: TlbWindow_new_def TlbHandle_new_def sample_reply_def Let_def)
  then show ?thesis using TlbWindow_splits_address [OF new] by auto
qed

section \<open>Reading and writing through a window\<close>

lemma unat_mod4: "(a :: u64) mod 4 = 0 \<longleftrightarrow> 4 dvd unat a"
  by (simp add: word_unat_eq_iff unat_mod_distrib dvd_eq_mod_eq_0)

lemma window_offset_mod4:
  assumes "2 \<le> n"
  shows "4 dvd unat ((a :: u64) AND mask n) \<longleftrightarrow> 4 dvd unat a"
proof -
  have "(4 :: nat) dvd 2 ^ n" using le_imp_power_dvd [OF assms, of "2 :: nat"] by simp
  then show ?thesis by (simp add: mask_low dvd_mod_iff)
qed

lemma aligned_room:
  fixes k :: nat
  assumes "4 dvd k" "k < 2 ^ n" "2 \<le> n"
  shows "k + 4 \<le> 2 ^ n"
proof -
  have "4 dvd (2 :: nat) ^ n" using le_imp_power_dvd [OF assms(3), of "2 :: nat"] by simp
  then obtain q :: nat where q: "2 ^ n = 4 * q" by (rule dvdE)
  obtain j where "k = 4 * j" using assms(1) by (rule dvdE)
  then show ?thesis using assms(2) q by simp
qed

lemma access_ok_at_target:
  assumes new: "TlbWindow_new (2 ^ n) fd x y a base wc k = (evs, Inr w)"
    and n: "2 \<le> n" "n < 64"
  shows "access_ok w 0 \<longleftrightarrow> 4 dvd unat a"
proof -
  let ?o = "unat (w_offset w)"
  have o: "w_offset w = a AND mask n" and sz: "w_size w = 2 ^ n"
    using TlbWindow_new_Inr [OF new] by (simp_all add: WINDOW_MASK_pow2)
  have lt: "?o < 2 ^ n" by (simp add: o mask_low)
  have dvd: "4 dvd ?o \<longleftrightarrow> 4 dvd unat a" unfolding o by (rule window_offset_mod4 [OF n(1)])
  have "w_offset w + 4 \<le> w_size w" if "4 dvd ?o"
  proof -
    have room: "?o + 4 \<le> 2 ^ n" using aligned_room [OF that lt n(1)] .
    moreover have "(2 :: nat) ^ n < 2 ^ 64" using n(2) by (rule pow2_less_64)
    ultimately have "unat (w_offset w + 4) = ?o + 4"
      using unat_add_less_64 [of "w_offset w" 4] by simp
    then show ?thesis using room n(2) by (simp add: word_le_nat_alt sz unat_pow2)
  qed
  then show ?thesis using dvd by (auto simp: access_ok_def unat_mod4)
qed

lemma target_in_window:
  assumes new: "TlbWindow_new (2 ^ n) fd x y a base wc k = (evs, Inr w)"
    and n: "2 \<le> n" "n < 64" and al: "4 dvd unat a"
  shows "unat (w_offset w) + 4 \<le> 2 ^ n"
proof (rule aligned_room [OF _ _ n(1)])
  show "unat (w_offset w) < 2 ^ n"
    using TlbWindow_splits_address_lemma(3) [OF new n(2)] TlbWindow_new_Inr(1) [OF new] n(2)
    by (simp add: unat_pow2)
  show "4 dvd unat (w_offset w)"
    using al window_offset_mod4 [OF n(1), of a] TlbWindow_new_Inr(2) [OF new]
    by (simp add: WINDOW_MASK_pow2)
qed

lemma read32_at_target:
  assumes new: "TlbWindow_new (2 ^ n) fd x y a base wc k = (evs, Inr w)"
    and n: "2 \<le> n" "n < 64"
  shows "TlbWindow_read32 N w 0 =
           (if 4 dvd unat a then Inr (val32 (N x y) (unat a)) else Inl Assert_Failed)"
proof -
  have sz: "unat (w_size w) = 2 ^ n"
    using TlbWindow_new_Inr(1) [OF new] n(2) by (simp add: unat_pow2)
  show ?thesis
    using access_ok_at_target [OF new n] target_in_window [OF new n]
      TlbWindow_splits_address_lemma [OF new n(2)]
    by (auto simp: TlbWindow_read32_def sz window_val32)
qed

text \<open>A 32-bit read through a window made for address \<open>a\<close> returns the little-endian word at
  \<open>a\<close> of the addressed tile exactly when \<open>a\<close> is four-byte aligned, wherever in the window it
  falls; an unaligned address stops the tool at an assertion.\<close>

theorem TlbWindow_read32_correct:
  assumes new: "TlbWindow_new (2 ^ n) fd x y a base wc k = (evs, Inr w)"
    and n: "2 \<le> n" "n < 64"
  shows "TlbWindow_read32 N w 0 =
           (if 4 dvd unat a then Inr (val32 (N x y) (unat a)) else Inl Assert_Failed)"
  using assms by (rule read32_at_target)

theorem TlbWindow_read32_correct_witness:
  "\<exists>w. snd (TlbWindow_new (2 ^ 21) 3 8 3 0x2FF10404 None False sample_reply) = Inr w
     \<and> TlbWindow_read32 (\<lambda>_ _ _. 1) w 0 = Inr 0x01010101"
proof -
  obtain evs w where
    new: "TlbWindow_new (2 ^ 21) 3 8 3 0x2FF10404 None False sample_reply = (evs, Inr w)"
    by (simp add: TlbWindow_new_def TlbHandle_new_def sample_reply_def Let_def)
  have "val32 (\<lambda>_. 1) p = 0x01010101" for p
    by (simp add: val32_def peek_def upt_rec)
  then show ?thesis
    using TlbWindow_read32_correct [OF new, of "\<lambda>_ _ _. 1"] new by auto
qed

lemma window_put_at_target:
  assumes new: "TlbWindow_new (2 ^ n) fd x y a base wc k = (evs, Inr w)" and n: "n < 64"
  shows "window_put N (w_handle w) (unat (w_offset w)) bs = noc_put N x y (unat a) bs"
  using TlbWindow_splits_address_lemma [OF new n] by (simp add: window_put_def)

lemma write32_at_target:
  assumes new: "TlbWindow_new (2 ^ n) fd x y a base wc k = (evs, Inr w)"
    and n: "2 \<le> n" "n < 64"
  shows "TlbWindow_write32 N w 0 v =
           (if 4 dvd unat a
            then Inr (noc_put N x y (unat a) (bytes32 v))
            else Inl Assert_Failed)"
proof -
  have sz: "unat (w_size w) = 2 ^ n"
    using TlbWindow_new_Inr(1) [OF new] n(2) by (simp add: unat_pow2)
  show ?thesis
    using access_ok_at_target [OF new n] target_in_window [OF new n]
    by (auto simp: TlbWindow_write32_def sz window_put_at_target [OF new n(2)])
qed

text \<open>A 32-bit write through a window made for an aligned address \<open>a\<close> changes the four bytes
  at \<open>a\<close> of the addressed tile and nothing else on the chip; an unaligned address writes
  nothing.\<close>

theorem TlbWindow_write32_correct:
  assumes new: "TlbWindow_new (2 ^ n) fd x y a base wc k = (evs, Inr w)"
    and n: "2 \<le> n" "n < 64"
  shows "TlbWindow_write32 N w 0 v =
           (if 4 dvd unat a
            then Inr (noc_put N x y (unat a) (bytes32 v))
            else Inl Assert_Failed)"
  using assms by (rule write32_at_target)

theorem TlbWindow_write32_correct_witness:
  "\<exists>w. snd (TlbWindow_new (2 ^ 21) 3 8 0 0x80020504 None False sample_reply) = Inr w
     \<and> ok (TlbWindow_write32 (\<lambda>_ _ _. 0) w 0 0x8C)"
proof -
  obtain evs w where
    new: "TlbWindow_new (2 ^ 21) 3 8 0 0x80020504 None False sample_reply = (evs, Inr w)"
    by (simp add: TlbWindow_new_def TlbHandle_new_def sample_reply_def Let_def)
  then show ?thesis using TlbWindow_write32_correct [OF new, of "\<lambda>_ _ _. 0" "0x8C"] by auto
qed

end
