(* ===== verification/Pll.thy ===== *)
theory Pll
  imports Prelude
begin

text \<open>
  The clock ramp of \<open>L2CPU::set_frequency\<close> (\<^verbatim>\<open>console/l2cpu.cpp\<close>). The two PLL registers are
  32-bit words seen through unions: \<open>CNTL_5\<close> holds the four 8-bit output dividers, \<open>CNTL_1\<close> the
  reference divider, a divider and the 16-bit feedback divider. A union is modelled by its
  fields with the conversions from and to \<open>raw\<close>; the ramp by the sequence of register values
  the code writes.
\<close>

section \<open>The register unions\<close>

type_synonym PLLCNTL5 = "u8 list"

definition cntl5_raw :: "PLLCNTL5 \<Rightarrow> u32" where
  "cntl5_raw postdiv = of_nat (of_le postdiv)"

definition cntl5_of_raw :: "u32 \<Rightarrow> PLLCNTL5" where
  "cntl5_of_raw raw = to_le 4 (unat raw)"

record PLLCNTL1 =
  refdiv :: u8
  postdiv :: u8
  fbdiv :: u16

definition cntl1_raw :: "PLLCNTL1 \<Rightarrow> u32" where
  "cntl1_raw r = of_nat (of_le [refdiv r, postdiv r] + 65536 * unat (fbdiv r))"

definition cntl1_of_raw :: "u32 \<Rightarrow> PLLCNTL1" where
  "cntl1_of_raw raw =
     \<lparr>refdiv = of_nat (unat raw), postdiv = of_nat (unat raw div 256),
      fbdiv = of_nat (unat raw div 65536)\<rparr>"

lemma length_cntl5_of_raw [simp]: "length (cntl5_of_raw raw) = 4"
  by (simp add: cntl5_of_raw_def)

lemma cntl5_of_raw_raw: "length p = 4 \<Longrightarrow> cntl5_of_raw (cntl5_raw p) = p"
proof -
  assume len: "length p = 4"
  have "of_le p < 2 ^ 32" using of_le_bound [of p] len by simp
  then have "unat (of_nat (of_le p) :: u32) = of_le p" by (simp add: unat_of_nat)
  then show ?thesis using to_le_of_le [of p] len by (simp add: cntl5_of_raw_def cntl5_raw_def)
qed

lemma cntl1_of_raw_raw: "cntl1_of_raw (cntl1_raw r) = r"
proof -
  define a b f where "a = unat (refdiv r)" "b = unat (postdiv r)" "f = unat (fbdiv r)"
  have lt: "a < 256" "b < 256" "f < 65536"
    using unsigned_less [of "refdiv r"] unsigned_less [of "postdiv r"] unsigned_less [of "fbdiv r"]
    by (simp_all add: a_b_f_def)
  have raw: "unat (cntl1_raw r) = a + 256 * b + 65536 * f"
  proof -
    have "cntl1_raw r = of_nat (a + 256 * b + 65536 * f)"
      by (simp add: cntl1_raw_def a_b_f_def)
    moreover have "a + 256 * b + 65536 * f < 2 ^ 32" using lt by simp
    ultimately show ?thesis by (metis unat_of_nat_32)
  qed
  have regroup: "a + 256 * b + 65536 * f = a + 256 * (b + 256 * f)" by simp
  have div: "(a + 256 * b + 65536 * f) div 256 = b + 256 * f"
    unfolding regroup using lt(1) by simp
  have div': "(a + 256 * b + 65536 * f) div 65536 = f"
  proof -
    have "a + 256 * b < 65536" using lt by simp
    then show ?thesis by simp
  qed
  have mod: "(a + 256 * b + 65536 * f) mod 256 = a"
    unfolding regroup by (simp only: mod_mult_self2 mod_less lt(1))
  have mod': "(b + 256 * f) mod 256 = b" using lt(2) by simp
  have "(of_nat (a + 256 * b + 65536 * f) :: u8) = of_nat a"
    by (rule word_unat_eq_iff [THEN iffD2]) (simp only: unat_of_nat_u8 mod, simp add: lt)
  moreover have "(of_nat (b + 256 * f) :: u8) = of_nat b"
    by (rule word_unat_eq_iff [THEN iffD2]) (simp only: unat_of_nat_u8 mod', simp add: lt)
  ultimately show ?thesis
    unfolding cntl1_of_raw_def raw div div' by (simp only:) (simp add: a_b_f_def)
qed

section \<open>Stepping loops\<close>

text \<open>\<open>one_step\<close> is \<open>+1\<close> (\<open>True\<close>) or \<open>-1\<close>; a loop returns the register values it writes. The
  index of the array of four dividers is inside the array in every call.\<close>

definition one_step :: "bool \<Rightarrow> 'a::len word" where
  "one_step up = (if up then 1 else -1)"

lemma step_up_decreases: "(p :: 'a::len word) \<noteq> t \<Longrightarrow> unat (t - (p + one_step True)) < unat (t - p)"
  and step_down_decreases: "(p :: 'a::len word) \<noteq> t \<Longrightarrow> unat (p + one_step False - t) < unat (p - t)"
proof -
  have dec: "unat (x - 1) < unat x" if "x \<noteq> 0" for x :: "'a word"
    using that by (simp add: unat_minus_one unat_gt_0)
  show "p \<noteq> t \<Longrightarrow> unat (t - (p + one_step True)) < unat (t - p)"
    using dec [of "t - p"] by (simp add: one_step_def algebra_simps)
  show "p \<noteq> t \<Longrightarrow> unat (p + one_step False - t) < unat (p - t)"
    using dec [of "p - t"] by (simp add: one_step_def algebra_simps)
qed

function postdiv_loop :: "bool \<Rightarrow> nat \<Rightarrow> u8 \<Rightarrow> PLLCNTL5 \<Rightarrow> PLLCNTL5 list" where
  "postdiv_loop up i t p =
     (if length p \<le> i \<or> p ! i = t then []
      else let p' = p[i := p ! i + one_step up] in p' # postdiv_loop up i t p')"
  by pat_completeness auto
termination
  by (relation "measure (\<lambda>(up, i, t, p). if up then unat (t - p ! i) else unat (p ! i - t))")
    (auto simp: step_up_decreases step_down_decreases)

function fbdiv_loop :: "bool \<Rightarrow> u16 \<Rightarrow> PLLCNTL1 \<Rightarrow> PLLCNTL1 list" where
  "fbdiv_loop up t r =
     (if fbdiv r = t then []
      else let r' = r\<lparr>fbdiv := fbdiv r + one_step up\<rparr> in r' # fbdiv_loop up t r')"
  by pat_completeness auto
termination
  by (relation "measure (\<lambda>(up, t, r). if up then unat (t - fbdiv r) else unat (fbdiv r - t))")
    (auto simp: step_up_decreases step_down_decreases)

declare postdiv_loop.simps [simp del] fbdiv_loop.simps [simp del]

section \<open>The ramp\<close>

text \<open>The three steps of \<open>set_frequency\<close>. \<open>raise_postdivs\<close> and \<open>lower_postdivs\<close> are the \<open>for\<close> loops
  over the four dividers; each works on the register value the writes before it left.\<close>

definition final :: "'a \<Rightarrow> 'a list \<Rightarrow> 'a" where
  "final a ws = (if ws = [] then a else last ws)"

fun raise_postdivs :: "nat list \<Rightarrow> u8 list \<Rightarrow> PLLCNTL5 \<Rightarrow> PLLCNTL5 list" where
  "raise_postdivs [] target p = []"
| "raise_postdivs (i # is) target p =
     (let ws = (if target ! i > p ! i then postdiv_loop True i (target ! i) p else [])
      in ws @ raise_postdivs is target (final p ws))"

fun lower_postdivs :: "nat list \<Rightarrow> u8 list \<Rightarrow> PLLCNTL5 \<Rightarrow> PLLCNTL5 list" where
  "lower_postdivs [] target p = []"
| "lower_postdivs (i # is) target p =
     (let ws = (if target ! i < p ! i then postdiv_loop False i (target ! i) p else [])
      in ws @ lower_postdivs is target (final p ws))"

definition adjust_fbdiv :: "u16 \<Rightarrow> PLLCNTL1 \<Rightarrow> PLLCNTL1 list" where
  "adjust_fbdiv target r =
     (if fbdiv r \<noteq> target then fbdiv_loop (target > fbdiv r) target r else [])"

datatype pll_write = Write_Cntl5 PLLCNTL5 | Write_Cntl1 PLLCNTL1

definition ramp :: "u16 \<Rightarrow> u8 list \<Rightarrow> PLLCNTL5 \<Rightarrow> PLLCNTL1 \<Rightarrow> pll_write list" where
  "ramp target_fbdiv target_postdiv p r =
     (let up = raise_postdivs [0..<4] target_postdiv p;
          fb = adjust_fbdiv target_fbdiv r;
          down = lower_postdivs [0..<4] target_postdiv (final p up)
      in map Write_Cntl5 up @ map Write_Cntl1 fb @ map Write_Cntl5 down)"

definition target_fbdiv :: u16 where
  "target_fbdiv = 140"

definition target_postdiv :: "u8 list" where
  "target_postdiv = [1, 1, 1, 1]"

section \<open>What the loops write\<close>

lemma final_simps [simp]:
  "final a [] = a"
  "final a (w # ws) = final w ws"
  "final a (us @ ws) = final (final a us) ws"
  by (auto simp: final_def last_append)

text \<open>The values one field runs through, whichever register it lives in.\<close>

function step_values :: "bool \<Rightarrow> 'a::len word \<Rightarrow> 'a word \<Rightarrow> 'a word list" where
  "step_values up t x = (if x = t then [] else (x + one_step up) # step_values up t (x + one_step up))"
  by pat_completeness auto
termination
  by (relation "measure (\<lambda>(up, t, x). if up then unat (t - x) else unat (x - t))")
    (auto simp: step_up_decreases step_down_decreases)

declare step_values.simps [simp del]

lemma step_values_done [simp]: "step_values up t t = []"
  by (simp add: step_values.simps)

lemma final_step_values: "final x (step_values up t x) = t"
  by (induction up t x rule: step_values.induct) (subst step_values.simps, simp)

lemma step_values_up: "x \<le> t \<Longrightarrow> v \<in> set (step_values True t x) \<Longrightarrow> x \<le> v \<and> v \<le> t"
proof (induction "True" t x rule: step_values.induct)
  case (1 t x)
  show ?case
  proof (cases "x = t")
    case True
    then show ?thesis using 1(3) by (simp add: step_values.simps)
  next
    case False
    then have le: "x \<le> x + 1" "x + 1 \<le> t" using word_step_up [OF 1(2)] by simp_all
    have "v = x + 1 \<or> v \<in> set (step_values True t (x + 1))"
      using 1(3) False by (subst (asm) step_values.simps) (simp add: one_step_def)
    then show ?thesis using 1(1) False le by (auto simp: one_step_def)
  qed
qed

lemma step_values_down: "t \<le> x \<Longrightarrow> v \<in> set (step_values False t x) \<Longrightarrow> v \<le> x \<and> t \<le> v"
proof (induction "False" t x rule: step_values.induct)
  case (1 t x)
  show ?case
  proof (cases "x = t")
    case True
    then show ?thesis using 1(3) by (simp add: step_values.simps)
  next
    case False
    then have le: "x - 1 \<le> x" "t \<le> x - 1" using word_step_down [OF 1(2)] by simp_all
    have "v = x - 1 \<or> v \<in> set (step_values False t (x - 1))"
      using 1(3) False by (subst (asm) step_values.simps) (simp add: one_step_def)
    then show ?thesis using 1(1) False le by (auto simp: one_step_def)
  qed
qed

text \<open>Adjacent values differ by one step.\<close>

lemma successively_step_values:
  "successively (\<lambda>a b. b = a + one_step up) (x # step_values up t x)"
proof (induction up t x rule: step_values.induct)
  case (1 up t x)
  then show ?case by (cases "x = t") (simp_all add: step_values.simps [of up t x])
qed

lemma final_map: "final (f x) (map f ws) = f (final x ws)"
  by (simp add: final_def last_map)

lemma postdiv_loop_eq:
  "i < length p \<Longrightarrow> postdiv_loop up i t p = map (\<lambda>v. p[i := v]) (step_values up t (p ! i))"
proof (induction up i t p rule: postdiv_loop.induct)
  case (1 up i t p)
  then show ?case
    by (subst postdiv_loop.simps, subst step_values.simps) (simp add: Let_def)
qed

lemma fbdiv_loop_eq:
  "fbdiv_loop up t r = map (\<lambda>v. r\<lparr>fbdiv := v\<rparr>) (step_values up t (fbdiv r))"
proof (induction up t r rule: fbdiv_loop.induct)
  case (1 up t r)
  then show ?case
    by (subst fbdiv_loop.simps, subst step_values.simps) (simp add: Let_def)
qed

lemma final_postdiv_loop: "i < length p \<Longrightarrow> final p (postdiv_loop up i t p) = p[i := t]"
  using final_map [of "\<lambda>v. p[i := v]" "p ! i"] by (simp add: postdiv_loop_eq final_step_values)

lemma final_fbdiv_loop: "final r (fbdiv_loop up t r) = r\<lparr>fbdiv := t\<rparr>"
  using final_map [of "\<lambda>v. r\<lparr>fbdiv := v\<rparr>" "fbdiv r"] by (simp add: fbdiv_loop_eq final_step_values)

section \<open>The three stages\<close>

text \<open>Both \<open>for\<close> loops move divider \<open>j\<close> monotonically and leave it at the larger (smaller) of its
  old value and its target.\<close>

lemma raise_postdivs_spec:
  "\<forall>i \<in> set is. i < length p \<Longrightarrow> j < length p \<Longrightarrow>
     final p (raise_postdivs is tg p) ! j = (if j \<in> set is then max (p ! j) (tg ! j) else p ! j)
     \<and> length (final p (raise_postdivs is tg p)) = length p
     \<and> (\<forall>q \<in> set (raise_postdivs is tg p).
          length q = length p \<and> p ! j \<le> q ! j \<and> q ! j \<le> max (p ! j) (tg ! j))"
proof (induction "is" arbitrary: p)
  case Nil
  then show ?case by simp
next
  case (Cons i "is")
  define ws where "ws = (if tg ! i > p ! i then postdiv_loop True i (tg ! i) p else [])"
  have i: "i < length p" using Cons.prems by simp
  have fin: "final p ws = p[i := max (p ! i) (tg ! i)]"
    using i by (cases "tg ! i > p ! i")
      (simp_all add: ws_def final_postdiv_loop max_absorb1 max_absorb2 less_imp_le leD)
  have mem: "length q = length p \<and> p ! j \<le> q ! j \<and> q ! j \<le> max (p ! j) (tg ! j)"
    if mem_ws: "q \<in> set ws" for q
  proof -
    obtain v where gt: "p ! i < tg ! i" and v: "v \<in> set (step_values True (tg ! i) (p ! i))"
      and q: "q = p[i := v]"
      using mem_ws i by (auto simp: ws_def postdiv_loop_eq split: if_splits)
    show ?thesis
      using step_values_up [OF less_imp_le [OF gt] v] i Cons.prems(2)
      by (auto simp: q nth_list_update le_max_iff_disj)
  qed
  define p1 where "p1 = p[i := max (p ! i) (tg ! i)]"
  have p1: "length p1 = length p" "p ! j \<le> p1 ! j" "max (p1 ! j) (tg ! j) = max (p ! j) (tg ! j)"
    "p1 ! j = (if i = j then max (p ! j) (tg ! j) else p ! j)"
    using i Cons.prems(2) by (auto simp: p1_def nth_list_update)
  have IH: "final p1 (raise_postdivs is tg p1) ! j = (if j \<in> set is then max (p ! j) (tg ! j) else p1 ! j)"
    "length (final p1 (raise_postdivs is tg p1)) = length p"
    "\<And>q. q \<in> set (raise_postdivs is tg p1) \<Longrightarrow> length q = length p \<and> p ! j \<le> q ! j \<and> q ! j \<le> max (p ! j) (tg ! j)"
    using Cons.IH [of p1] Cons.prems p1 by (auto intro: order_trans)
  have eq: "raise_postdivs (i # is) tg p = ws @ raise_postdivs is tg p1"
    using fin by (simp add: ws_def [symmetric] p1_def Let_def)
  have fin': "final p (raise_postdivs (i # is) tg p) = final p1 (raise_postdivs is tg p1)"
    by (simp only: eq final_simps fin p1_def)
  show ?case
    unfolding fin' unfolding eq set_append ball_Un using IH mem p1(4) by auto
qed

lemma lower_postdivs_spec:
  "\<forall>i \<in> set is. i < length p \<Longrightarrow> j < length p \<Longrightarrow>
     final p (lower_postdivs is tg p) ! j = (if j \<in> set is then min (p ! j) (tg ! j) else p ! j)
     \<and> length (final p (lower_postdivs is tg p)) = length p
     \<and> (\<forall>q \<in> set (lower_postdivs is tg p).
          length q = length p \<and> q ! j \<le> p ! j \<and> min (p ! j) (tg ! j) \<le> q ! j)"
proof (induction "is" arbitrary: p)
  case Nil
  then show ?case by simp
next
  case (Cons i "is")
  define ws where "ws = (if tg ! i < p ! i then postdiv_loop False i (tg ! i) p else [])"
  have i: "i < length p" using Cons.prems by simp
  have fin: "final p ws = p[i := min (p ! i) (tg ! i)]"
    using i by (cases "tg ! i < p ! i")
      (simp_all add: ws_def final_postdiv_loop min_absorb1 min_absorb2 less_imp_le leD)
  have mem: "length q = length p \<and> q ! j \<le> p ! j \<and> min (p ! j) (tg ! j) \<le> q ! j"
    if mem_ws: "q \<in> set ws" for q
  proof -
    obtain v where lt: "tg ! i < p ! i" and v: "v \<in> set (step_values False (tg ! i) (p ! i))"
      and q: "q = p[i := v]"
      using mem_ws i by (auto simp: ws_def postdiv_loop_eq split: if_splits)
    show ?thesis
      using step_values_down [OF less_imp_le [OF lt] v] i Cons.prems(2)
      by (auto simp: q nth_list_update min_le_iff_disj)
  qed
  define p1 where "p1 = p[i := min (p ! i) (tg ! i)]"
  have p1: "length p1 = length p" "p1 ! j \<le> p ! j" "min (p1 ! j) (tg ! j) = min (p ! j) (tg ! j)"
    "p1 ! j = (if i = j then min (p ! j) (tg ! j) else p ! j)"
    using i Cons.prems(2) by (auto simp: p1_def nth_list_update)
  have IH: "final p1 (lower_postdivs is tg p1) ! j = (if j \<in> set is then min (p ! j) (tg ! j) else p1 ! j)"
    "length (final p1 (lower_postdivs is tg p1)) = length p"
    "\<And>q. q \<in> set (lower_postdivs is tg p1) \<Longrightarrow> length q = length p \<and> q ! j \<le> p ! j \<and> min (p ! j) (tg ! j) \<le> q ! j"
    using Cons.IH [of p1] Cons.prems p1 by (auto intro: order_trans)
  have eq: "lower_postdivs (i # is) tg p = ws @ lower_postdivs is tg p1"
    using fin by (simp add: ws_def [symmetric] p1_def Let_def)
  have fin': "final p (lower_postdivs (i # is) tg p) = final p1 (lower_postdivs is tg p1)"
    by (simp only: eq final_simps fin p1_def)
  show ?case
    unfolding fin' unfolding eq set_append ball_Un using IH mem p1(4) by auto
qed

lemma final_adjust_fbdiv: "final r (adjust_fbdiv t r) = r\<lparr>fbdiv := t\<rparr>"
  by (simp add: adjust_fbdiv_def final_fbdiv_loop)

lemma adjust_fbdiv_between:
  assumes "q \<in> set (adjust_fbdiv t r)"
  shows "\<exists>v. q = r\<lparr>fbdiv := v\<rparr> \<and> min (fbdiv r) t \<le> v \<and> v \<le> max (fbdiv r) t"
proof -
  obtain v where q: "q = r\<lparr>fbdiv := v\<rparr>"
    and v: "v \<in> set (step_values (t > fbdiv r) t (fbdiv r))"
    using assms by (auto simp: adjust_fbdiv_def fbdiv_loop_eq split: if_splits)
  have "min (fbdiv r) t \<le> v \<and> v \<le> max (fbdiv r) t"
  proof (cases "t > fbdiv r")
    case True
    then have "fbdiv r \<le> v \<and> v \<le> t" using v step_values_up [of "fbdiv r" t v] by simp
    then show ?thesis by (simp add: min_le_iff_disj le_max_iff_disj)
  next
    case False
    then have "v \<le> fbdiv r \<and> t \<le> v" using v step_values_down [of t "fbdiv r" v] by simp
    then show ?thesis by (simp add: min_le_iff_disj le_max_iff_disj)
  qed
  then show ?thesis using q by blast
qed

section \<open>The registers during the ramp\<close>

text \<open>The state of the two registers, and the states a sequence of writes runs through.\<close>

type_synonym pll_state = "PLLCNTL5 \<times> PLLCNTL1"

fun apply_write :: "pll_state \<Rightarrow> pll_write \<Rightarrow> pll_state" where
  "apply_write (p, r) (Write_Cntl5 p') = (p', r)"
| "apply_write (p, r) (Write_Cntl1 r') = (p, r')"

fun pll_states :: "pll_state \<Rightarrow> pll_write list \<Rightarrow> pll_state list" where
  "pll_states s [] = [s]"
| "pll_states s (w # ws) = s # pll_states (apply_write s w) ws"

lemma pll_states_Cntl5:
  "pll_states (p, r) (map Write_Cntl5 qs @ ws)
     = map (\<lambda>q. (q, r)) (butlast (p # qs)) @ pll_states (final p qs, r) ws"
  by (induction qs arbitrary: p) auto

lemma pll_states_Cntl1:
  "pll_states (p, r) (map Write_Cntl1 qs @ ws)
     = map (\<lambda>q. (p, q)) (butlast (r # qs)) @ pll_states (p, final r qs) ws"
  by (induction qs arbitrary: r) auto

lemma last_pll_states: "last (pll_states s ws) = foldl apply_write s ws"
  by (induction ws arbitrary: s) (auto simp: neq_Nil_conv split: list.splits elim: pll_states.elims)

lemma foldl_Cntl5: "foldl apply_write (p, r) (map Write_Cntl5 qs) = (final p qs, r)"
  by (induction qs arbitrary: p) simp_all

lemma foldl_Cntl1: "foldl apply_write (p, r) (map Write_Cntl1 qs) = (p, final r qs)"
  by (induction qs arbitrary: r) simp_all

lemma max_then_min: "min (max (a :: 'a::linorder) b) b = b"
  by (simp add: min_def)

lemma ramp_final_lemma:
  assumes "length p = 4" "length tp = 4"
  shows "foldl apply_write (p, r) (ramp tf tp p r) = (tp, r\<lparr>fbdiv := tf\<rparr>)"
proof -
  define p1 where "p1 = final p (raise_postdivs [0..<4] tp p)"
  have p1: "length p1 = 4" "\<And>j. j < 4 \<Longrightarrow> p1 ! j = max (p ! j) (tp ! j)"
    using raise_postdivs_spec [of "[0..<4]" p _ tp] assms(1) by (force simp: p1_def)+
  have low: "final p1 (lower_postdivs [0..<4] tp p1) ! j = tp ! j"
    "length (final p1 (lower_postdivs [0..<4] tp p1)) = 4" if "j < 4" for j
    using lower_postdivs_spec [of "[0..<4]" p1 j tp] p1 that by (simp_all add: max_then_min)
  have "final p1 (lower_postdivs [0..<4] tp p1) = tp"
    by (rule nth_equalityI) (use low [of 0] low assms(2) in simp_all)
  then show ?thesis
    by (simp add: ramp_def Let_def foldl_Cntl5 foldl_Cntl1 p1_def [symmetric] final_adjust_fbdiv)
qed

text \<open>Whatever the registers hold, the ramp ends with the four output dividers and the feedback
  divider at their targets and leaves the reference divider and the other divider of
  \<open>CNTL_1\<close> as they were.\<close>

theorem ramp_reaches_target:
  assumes "length p = 4" "length tp = 4"
  shows "last (pll_states (p, r) (ramp tf tp p r)) = (tp, r\<lparr>fbdiv := tf\<rparr>)"
  using ramp_final_lemma [OF assms] by (simp add: last_pll_states)

theorem ramp_reaches_target_witness:
  "last (pll_states ([15, 15, 15, 15], \<lparr>refdiv = 2, postdiv = 0, fbdiv = 128\<rparr>)
      (ramp target_fbdiv target_postdiv [15, 15, 15, 15] \<lparr>refdiv = 2, postdiv = 0, fbdiv = 128\<rparr>))
    = ([1, 1, 1, 1], \<lparr>refdiv = 2, postdiv = 0, fbdiv = 140\<rparr>)"
  using ramp_reaches_target [of "[15, 15, 15, 15]" target_postdiv
      "\<lparr>refdiv = 2, postdiv = 0, fbdiv = 128\<rparr>" target_fbdiv]
  by (simp add: target_postdiv_def target_fbdiv_def)

text \<open>Where the ramp has been at any time: first only dividers have grown, then the feedback
  divider moves between its old and new value with every divider at the larger of its two
  values, then only dividers shrink towards their targets.\<close>

lemma ramp_states_cases:
  assumes "length p = 4" "length tp = 4" and s: "s \<in> set (pll_states (p, r) (ramp tf tp p r))"
  obtains (raising) q where "s = (q, r)" "\<And>j. j < 4 \<Longrightarrow> p ! j \<le> q ! j"
  | (adjusting) q v where "s = (q, r\<lparr>fbdiv := v\<rparr>)" "v \<le> max (fbdiv r) tf"
      "\<And>j. j < 4 \<Longrightarrow> q ! j = max (p ! j) (tp ! j)"
  | (lowering) q where "s = (q, r\<lparr>fbdiv := tf\<rparr>)" "\<And>j. j < 4 \<Longrightarrow> tp ! j \<le> q ! j"
proof -
  define up where "up = raise_postdivs [0..<4] tp p"
  define p1 where "p1 = final p up"
  define fb where "fb = adjust_fbdiv tf r"
  define down where "down = lower_postdivs [0..<4] tp p1"
  have up: "p ! j \<le> q ! j" if "j < 4" "q \<in> insert p (set up)" for q j
    using raise_postdivs_spec [of "[0..<4]" p j tp] that assms(1) by (auto simp: up_def)
  have p1: "length p1 = 4" "\<And>j. j < 4 \<Longrightarrow> p1 ! j = max (p ! j) (tp ! j)"
    using raise_postdivs_spec [of "[0..<4]" p _ tp] assms(1) by (force simp: p1_def up_def)+
  have fb: "\<exists>v. q = r\<lparr>fbdiv := v\<rparr> \<and> v \<le> max (fbdiv r) tf" if "q \<in> insert r (set fb)" for q
  proof (cases "q = r")
    case True
    then show ?thesis by (intro exI [of _ "fbdiv r"]) simp
  next
    case False
    then show ?thesis using that adjust_fbdiv_between [of q tf r] by (auto simp: fb_def)
  qed
  have down: "tp ! j \<le> q ! j" if "j < 4" "q \<in> insert p1 (set down)" for q j
    using lower_postdivs_spec [of "[0..<4]" p1 j tp] that p1 by (auto simp: down_def max_then_min)
  have "pll_states (p, r) (ramp tf tp p r) =
      map (\<lambda>q. (q, r)) (butlast (p # up)) @ map (\<lambda>q. (p1, q)) (butlast (r # fb))
      @ map (\<lambda>q. (q, r\<lparr>fbdiv := tf\<rparr>)) (butlast (p1 # down)) @ [(final p1 down, r\<lparr>fbdiv := tf\<rparr>)]"
    using pll_states_Cntl5 [of p1 "final r fb" down "[]"]
    by (simp add: ramp_def Let_def pll_states_Cntl5 pll_states_Cntl1 up_def [symmetric]
        p1_def [symmetric] fb_def [symmetric] down_def [symmetric])
      (simp add: fb_def final_adjust_fbdiv)
  moreover have "final p1 down \<in> insert p1 (set down)" by (simp add: final_def)
  ultimately consider q where "s = (q, r)" "q \<in> insert p (set up)"
    | q where "s = (p1, q)" "q \<in> insert r (set fb)"
    | q where "s = (q, r\<lparr>fbdiv := tf\<rparr>)" "q \<in> insert p1 (set down)"
    using s by (auto dest!: in_set_butlastD split: if_splits)
  then show thesis
    using up p1(2) fb down raising adjusting lowering by cases metis+
qed

text \<open>C12: the ramp never overclocks. In every register state it runs through, the output of each
  divider, proportional to \<open>fbdiv / (postdiv + 1)\<close>, is at most the frequency set before the ramp
  or at most the target frequency: dividers grow before the feedback divider moves and shrink
  only after.\<close>

theorem ramp_never_overclocks:
  assumes "length p = 4" "length tp = 4"
    and s: "(q, r') \<in> set (pll_states (p, r) (ramp tf tp p r))" and j: "j < 4"
  shows "unat (fbdiv r') * Suc (unat (p ! j)) \<le> unat (fbdiv r) * Suc (unat (q ! j))
         \<or> unat (fbdiv r') * Suc (unat (tp ! j)) \<le> unat tf * Suc (unat (q ! j))"
  using assms(1-3)
proof (cases rule: ramp_states_cases)
  case (raising q')
  then have "unat (p ! j) \<le> unat (q ! j)" using j by (simp add: word_le_nat_alt)
  then show ?thesis using raising by (simp add: mult_le_mono)
next
  case (adjusting q' v)
  then have q: "unat (p ! j) \<le> unat (q ! j)" "unat (tp ! j) \<le> unat (q ! j)"
    using j by (simp_all add: word_le_nat_alt [symmetric])
  have "unat v \<le> unat (fbdiv r) \<or> unat v \<le> unat tf"
    using adjusting(2) by (simp add: word_le_nat_alt [symmetric] le_max_iff_disj)
  moreover have "unat v \<le> unat (fbdiv r) \<Longrightarrow>
      unat v * Suc (unat (p ! j)) \<le> unat (fbdiv r) * Suc (unat (q ! j))"
    by (rule mult_le_mono) (use q in simp_all)
  moreover have "unat v \<le> unat tf \<Longrightarrow>
      unat v * Suc (unat (tp ! j)) \<le> unat tf * Suc (unat (q ! j))"
    by (rule mult_le_mono) (use q in simp_all)
  ultimately show ?thesis using adjusting(1) by auto
next
  case (lowering q')
  then have "unat (tp ! j) \<le> unat (q ! j)" using j by (simp add: word_le_nat_alt)
  then show ?thesis using lowering by (simp add: mult_le_mono)
qed

theorem ramp_never_overclocks_witness:
  "let r = \<lparr>refdiv = 2, postdiv = 0, fbdiv = 139\<rparr> in
   ([3, 1, 1, 1], r) \<in> set (pll_states ([3, 1, 1, 1], r) (ramp 140 [1, 1, 1, 1] [3, 1, 1, 1] r))
   \<and> unat (fbdiv r) * 4 \<le> unat (fbdiv r) * Suc (unat (3 :: u8))"
proof -
  define r where "r = \<lparr>refdiv = 2, postdiv = 0, fbdiv = (139 :: u16)\<rparr>"
  have mem: "([3, 1, 1, 1], r) \<in> set (pll_states ([3, 1, 1, 1], r) (ramp 140 [1, 1, 1, 1] [3, 1, 1, 1] r))"
    by (cases "ramp 140 [1, 1, 1, 1] [3, 1, 1, 1] r") simp_all
  show ?thesis
    using ramp_never_overclocks [OF _ _ mem, of 0] mem by (simp add: r_def Let_def)
qed

definition one_tick :: "pll_state \<Rightarrow> pll_state \<Rightarrow> bool" where
  "one_tick s t \<longleftrightarrow>
     (snd t = snd s \<and> (\<exists>i<4. fst t = (fst s)[i := fst s ! i + 1] \<or> fst t = (fst s)[i := fst s ! i - 1]))
     \<or> (fst t = fst s
         \<and> (snd t = (snd s)\<lparr>fbdiv := fbdiv (snd s) + 1\<rparr> \<or> snd t = (snd s)\<lparr>fbdiv := fbdiv (snd s) - 1\<rparr>))"

fun ticks :: "pll_state \<Rightarrow> pll_write list \<Rightarrow> bool" where
  "ticks s [] = True"
| "ticks s (w # ws) = (one_tick s (apply_write s w) \<and> ticks (apply_write s w) ws)"

lemma ticks_append [simp]: "ticks s (us @ ws) \<longleftrightarrow> ticks s us \<and> ticks (foldl apply_write s us) ws"
  by (induction us arbitrary: s) simp_all

lemma ticks_successively: "ticks s ws \<longleftrightarrow> successively one_tick (pll_states s ws)"
proof (induction ws arbitrary: s)
  case Nil
  then show ?case by simp
next
  case (Cons w ws)
  then show ?case by (cases ws) simp_all
qed

lemma one_tick_postdiv: "i < 4 \<Longrightarrow> one_tick (p, r) (p[i := p ! i + one_step up], r)"
  by (cases up) (auto simp: one_tick_def one_step_def intro: exI [of _ i])

lemma ticks_postdiv_loop:
  "length p = 4 \<Longrightarrow> ticks (p, r) (map Write_Cntl5 (postdiv_loop up i t p))"
proof (induction up i t p rule: postdiv_loop.induct)
  case (1 up i t p)
  show ?case
  proof (cases "length p \<le> i \<or> p ! i = t")
    case True
    then show ?thesis by (simp add: postdiv_loop.simps)
  next
    case False
    then show ?thesis
      using 1 by (subst postdiv_loop.simps) (simp add: Let_def one_tick_postdiv)
  qed
qed

lemma ticks_fbdiv_loop: "ticks (p, r) (map Write_Cntl1 (fbdiv_loop up t r))"
proof (induction up t r rule: fbdiv_loop.induct)
  case (1 up t r)
  then show ?case
    by (subst fbdiv_loop.simps) (auto simp: Let_def one_tick_def one_step_def)
qed

lemma length_final_loop: "length p = n \<Longrightarrow> length (final p (postdiv_loop up i t p)) = n"
  by (cases "i < length p") (simp add: final_postdiv_loop, subst postdiv_loop.simps, simp)

lemma ticks_raise: "length p = 4 \<Longrightarrow> ticks (p, r) (map Write_Cntl5 (raise_postdivs is tp p))"
  by (induction "is" arbitrary: p)
    (simp_all add: Let_def foldl_Cntl5 ticks_postdiv_loop length_final_loop)

lemma ticks_lower: "length p = 4 \<Longrightarrow> ticks (p, r) (map Write_Cntl5 (lower_postdivs is tp p))"
  by (induction "is" arbitrary: p)
    (simp_all add: Let_def foldl_Cntl5 ticks_postdiv_loop length_final_loop)

lemma length_final_raise: "length p = 4 \<Longrightarrow> length (final p (raise_postdivs [0..<4] tp p)) = 4"
  using raise_postdivs_spec [of "[0..<4]" p 0 tp] by simp

text \<open>The ramp is glitch-free: every register write changes exactly one divider, by exactly
  one.\<close>

theorem ramp_single_ticks:
  assumes "length p = 4"
  shows "successively one_tick (pll_states (p, r) (ramp tf tp p r))"
  using assms unfolding ticks_successively [symmetric]
  by (simp add: ramp_def Let_def foldl_Cntl5 foldl_Cntl1 ticks_raise ticks_lower ticks_fbdiv_loop
      adjust_fbdiv_def length_final_raise)

theorem ramp_single_ticks_witness:
  "successively one_tick (pll_states ([15, 15, 15, 15], \<lparr>refdiv = 2, postdiv = 0, fbdiv = 128\<rparr>)
      (ramp target_fbdiv target_postdiv [15, 15, 15, 15] \<lparr>refdiv = 2, postdiv = 0, fbdiv = 128\<rparr>))"
  by (rule ramp_single_ticks) simp

end
