(* ===== verification/L2cpu.thy ===== *)
theory L2cpu
  imports Tlb Pll
begin

text \<open>
  The L2CPU tile (\<^verbatim>\<open>console/l2cpu.h\<close>, \<^verbatim>\<open>console/l2cpu.cpp\<close>): the tables of the four tiles, the
  constructor that ramps the clock and maps the tile's memory as one 8 GiB view, single reads and
  writes through temporary windows, and the destructor. What the operating system answers is the
  parameter \<open>l2cpu_env\<close>.
\<close>

section \<open>The four tiles\<close>

definition l2cpu_tile_mapping :: "int \<Rightarrow> (u16 \<times> u16) option" where
  "l2cpu_tile_mapping =
     [0 \<mapsto> (8, 3), 1 \<mapsto> (8, 9), 2 \<mapsto> (8, 5), 3 \<mapsto> (8, 7)]"

definition l2cpu_starting_address_mapping :: "int \<Rightarrow> u64 option" where
  "l2cpu_starting_address_mapping =
     [0 \<mapsto> 0x400030000000, 1 \<mapsto> 0x400030000000, 2 \<mapsto> 0x400030000000, 3 \<mapsto> 0x4000b0000000]"

definition l2cpu_memory_size_mapping :: "int \<Rightarrow> u64 option" where
  "l2cpu_memory_size_mapping =
     [0 \<mapsto> 0x100000000, 1 \<mapsto> 0x100000000, 2 \<mapsto> 0x80000000, 3 \<mapsto> 0x80000000]"

text \<open>\<open>std::map::at\<close> throws on a missing key.\<close>

definition map_at :: "('k \<Rightarrow> 'v option) \<Rightarrow> 'k \<Rightarrow> 'v res" where
  "map_at m k = (case m k of None \<Rightarrow> Inl Std_Exception | Some v \<Rightarrow> Inr v)"

section \<open>Setting the clock through the NOC\<close>

definition PLL4_BASE :: u64 where "PLL4_BASE = 0x80020500"
definition PLL_CNTL_1 :: u64 where "PLL_CNTL_1 = 0x4"
definition PLL_CNTL_5 :: u64 where "PLL_CNTL_5 = 0x14"

fun apply_pll :: "noc \<Rightarrow> tlb_window \<Rightarrow> tlb_window \<Rightarrow> pll_write list \<Rightarrow> noc res" where
  "apply_pll N w5 w1 [] = Inr N"
| "apply_pll N w5 w1 (Write_Cntl5 p # ws) =
     bindR (TlbWindow_write32 N w5 0 (cntl5_raw p)) (\<lambda>N'. apply_pll N' w5 w1 ws)"
| "apply_pll N w5 w1 (Write_Cntl1 r # ws) =
     bindR (TlbWindow_write32 N w1 0 (cntl1_raw r)) (\<lambda>N'. apply_pll N' w5 w1 ws)"

definition set_frequency :: "int \<Rightarrow> kmd_reply \<Rightarrow> kmd_reply \<Rightarrow> noc \<Rightarrow> kevent list \<times> noc res" where
  "set_frequency fd k5 k1 N =
     (case TlbWindow_new TWO_MEG fd 8 0 (PLL4_BASE + PLL_CNTL_5) None False k5 of
        (e5, Inl f) \<Rightarrow> (e5, Inl f)
      | (e5, Inr w5) \<Rightarrow>
          (case TlbWindow_new TWO_MEG fd 8 0 (PLL4_BASE + PLL_CNTL_1) None False k1 of
             (e1, Inl f) \<Rightarrow> (e5 @ e1, Inl f)
           | (e1, Inr w1) \<Rightarrow>
               (case
                  bindR (TlbWindow_read32 N w5 0) (\<lambda>c5.
                  bindR (TlbWindow_read32 N w1 0) (\<lambda>c1.
                  apply_pll N w5 w1
                    (ramp target_fbdiv target_postdiv (cntl5_of_raw c5) (cntl1_of_raw c1)))) of
                  Inl f \<Rightarrow> (e5 @ e1, Inl f)
                | Inr N' \<Rightarrow>
                    (e5 @ e1 @ TlbHandle_delete (w_handle w1) @ TlbHandle_delete (w_handle w5),
                     Inr N'))))"

section \<open>The class\<close>

record L2CPU =
  l2_fd :: int
  l2_idx :: int
  card_idx :: int
  starting_address :: u64
  memory_size :: u64
  l2_first :: tlb_window
  l2_second :: tlb_window
  l2_memory :: u64
  coordinates :: "u16 \<times> u16"

text \<open>\<open>env_fd\<close> and \<open>env_reserve\<close> are what \<open>open\<close> and the anonymous \<open>mmap\<close> return; the code uses
  both unchecked.\<close>

record l2cpu_env =
  env_fd :: int
  env_reserve :: u64
  env_cntl5 :: kmd_reply
  env_cntl1 :: kmd_reply
  env_first :: kmd_reply
  env_second :: kmd_reply

definition L2CPU_new :: "l2cpu_env \<Rightarrow> noc \<Rightarrow> int \<Rightarrow> int \<Rightarrow> kevent list \<times> (L2CPU \<times> noc) res" where
  "L2CPU_new env N idx cardno =
     (if \<not> (0 \<le> idx \<and> idx < 4) then ([], Inl Assert_Failed) else
      let fd = env_fd env; mem = env_reserve env;
          (e0, r0) = set_frequency fd (env_cntl5 env) (env_cntl1 env) N;
          ev0 = Ev_Open cardno fd # e0
      in case
           bindR r0 (\<lambda>N'.
           bindR (map_at l2cpu_starting_address_mapping idx) (\<lambda>start.
           bindR (map_at l2cpu_tile_mapping idx) (\<lambda>xy.
           bindR (map_at l2cpu_memory_size_mapping idx) (\<lambda>sz. Inr (N', start, xy, sz))))) of
           Inl f \<Rightarrow> (ev0, Inl f)
         | Inr (N', start, (x, y), sz) \<Rightarrow>
             let ev1 = ev0 @ [Ev_Reserve mem (push_bit 32 2)];
                 (e2, r2) = TlbWindow_new FOUR_GIG fd x y 0x400000000000 (Some mem) True (env_first env)
             in case r2 of
                  Inl f \<Rightarrow> (ev1 @ e2, Inl f)
                | Inr w2 \<Rightarrow>
                    let (e3, r3) = TlbWindow_new FOUR_GIG fd x y 0x400100000000
                                     (Some (mem + push_bit 32 1)) True (env_second env)
                    in case r3 of
                         Inl f \<Rightarrow> (ev1 @ e2 @ e3, Inl f)
                       | Inr w3 \<Rightarrow>
                           (ev1 @ e2 @ e3,
                            Inr (\<lparr>l2_fd = fd, l2_idx = idx, card_idx = cardno,
                                  starting_address = start, memory_size = sz, l2_first = w2,
                                  l2_second = w3, l2_memory = mem, coordinates = (x, y)\<rparr>, N')))"

definition get_starting_address :: "L2CPU \<Rightarrow> u64" where
  "get_starting_address c = starting_address c"

definition get_memory_size :: "L2CPU \<Rightarrow> u64" where
  "get_memory_size c = memory_size c"

definition get_coordinates :: "L2CPU \<Rightarrow> u16 \<times> u16" where
  "get_coordinates c = coordinates c"

definition get_memory_ptr :: "L2CPU \<Rightarrow> u64" where
  "get_memory_ptr c = l2_memory c + (starting_address c - 0x400000000000)"

definition get_persistent_2M_tlb_window ::
  "L2CPU \<Rightarrow> u64 \<Rightarrow> kmd_reply \<Rightarrow> kevent list \<times> tlb_window res" where
  "get_persistent_2M_tlb_window c a k =
     TlbWindow_new TWO_MEG (l2_fd c) (fst (coordinates c)) (snd (coordinates c)) a None False k"

text \<open>A temporary window is released when the access returns; a failed assertion aborts with the
  window still open.\<close>

definition L2CPU_read32 :: "L2CPU \<Rightarrow> kmd_reply \<Rightarrow> noc \<Rightarrow> u64 \<Rightarrow> kevent list \<times> u32 res" where
  "L2CPU_read32 c k N a =
     (case get_persistent_2M_tlb_window c a k of
        (evs, Inl f) \<Rightarrow> (evs, Inl f)
      | (evs, Inr w) \<Rightarrow>
          (case TlbWindow_read32 N w 0 of
             Inl f \<Rightarrow> (evs, Inl f)
           | Inr v \<Rightarrow> (evs @ TlbHandle_delete (w_handle w), Inr v)))"

definition L2CPU_write32 :: "L2CPU \<Rightarrow> kmd_reply \<Rightarrow> noc \<Rightarrow> u64 \<Rightarrow> u32 \<Rightarrow> kevent list \<times> noc res" where
  "L2CPU_write32 c k N a v =
     (case get_persistent_2M_tlb_window c a k of
        (evs, Inl f) \<Rightarrow> (evs, Inl f)
      | (evs, Inr w) \<Rightarrow>
          (case TlbWindow_write32 N w 0 v of
             Inl f \<Rightarrow> (evs, Inl f)
           | Inr N' \<Rightarrow> (evs @ TlbHandle_delete (w_handle w), Inr N')))"

text \<open>The destructor's body runs first, then the members are destroyed in the reverse of their
  declaration order: \<open>second\<close> before \<open>first\<close>.\<close>

definition L2CPU_delete :: "L2CPU \<Rightarrow> kevent list" where
  "L2CPU_delete c =
     [Ev_Munmap (l2_memory c) (push_bit 32 2), Ev_Close (l2_fd c)]
     @ TlbHandle_delete (w_handle (l2_second c)) @ TlbHandle_delete (w_handle (l2_first c))"

text \<open>The memory behind the 8 GiB view: the first window below 4 GiB, the second above.\<close>

definition l2cpu_mem :: "noc \<Rightarrow> L2CPU \<Rightarrow> mem" where
  "l2cpu_mem N c k =
     (if k < 2 ^ 32 then window_mem N (w_handle (l2_first c)) k
      else window_mem N (w_handle (l2_second c)) (k - 2 ^ 32))"

text \<open>The host pointer to guest physical address \<open>a\<close>, \<open>memory + (a - starting_address)\<close> of the
  device code, as an offset into the view.\<close>

definition guest_offset :: "u64 \<Rightarrow> u64 \<Rightarrow> u64" where
  "guest_offset start a = (start - 0x400000000000) + (a - start)"

section \<open>The address tables\<close>

lemma tables_cases:
  assumes "0 \<le> i" "i < (4 :: int)"
  shows "i = 0 \<or> i = 1 \<or> i = 2 \<or> i = 3"
  using assms by presburger

lemma tables_at:
  "l2cpu_starting_address_mapping 0 = Some 0x400030000000"
  "l2cpu_starting_address_mapping 1 = Some 0x400030000000"
  "l2cpu_starting_address_mapping 2 = Some 0x400030000000"
  "l2cpu_starting_address_mapping 3 = Some 0x4000b0000000"
  "l2cpu_memory_size_mapping 0 = Some 0x100000000"
  "l2cpu_memory_size_mapping 1 = Some 0x100000000"
  "l2cpu_memory_size_mapping 2 = Some 0x80000000"
  "l2cpu_memory_size_mapping 3 = Some 0x80000000"
  "l2cpu_tile_mapping 0 = Some (8, 3)" "l2cpu_tile_mapping 1 = Some (8, 9)"
  "l2cpu_tile_mapping 2 = Some (8, 5)" "l2cpu_tile_mapping 3 = Some (8, 7)"
  by (simp_all add: l2cpu_starting_address_mapping_def l2cpu_memory_size_mapping_def
      l2cpu_tile_mapping_def)

lemma tables_range:
  assumes "l2cpu_starting_address_mapping i = Some s" "l2cpu_memory_size_mapping i = Some n"
  shows "unat s + unat n \<le> 0x400000000000 + 2 ^ 33" "0x400000000000 \<le> unat s"
    "(s, n) \<in> {(0x400030000000, 0x100000000), (0x400030000000, 0x80000000), (0x4000b0000000, 0x80000000)}"
  using assms
  by (auto simp: l2cpu_starting_address_mapping_def l2cpu_memory_size_mapping_def split: if_splits)

text \<open>The tables describe the four tiles consistently: the same four indices in each, no two
  tiles at one NOC coordinate, every tile's memory inside the 8 GiB view that the constructor
  maps, and the two tiles that share a DRAM controller with disjoint halves of it.\<close>

theorem tile_tables_consistent:
  "dom l2cpu_tile_mapping = {0, 1, 2, 3}
   \<and> dom l2cpu_starting_address_mapping = {0, 1, 2, 3}
   \<and> dom l2cpu_memory_size_mapping = {0, 1, 2, 3}
   \<and> inj_on l2cpu_tile_mapping {0, 1, 2, 3}
   \<and> (\<forall>i s n. l2cpu_starting_address_mapping i = Some s \<and> l2cpu_memory_size_mapping i = Some n \<longrightarrow>
        0x400000000000 \<le> unat s \<and> unat s + unat n \<le> 0x400000000000 + 2 ^ 33)
   \<and> span 0x400030000000 0x80000000 \<inter> span 0x4000b0000000 0x80000000 = {}"
proof -
  have "inj_on l2cpu_tile_mapping {0, 1, 2, 3}"
    by (simp add: inj_on_def tables_at)
  moreover have "span 0x400030000000 0x80000000 \<inter> span 0x4000b0000000 0x80000000 = {}"
    by (auto simp: span_def)
  moreover have "dom l2cpu_tile_mapping = {0, 1, 2, 3}"
    "dom l2cpu_starting_address_mapping = {0, 1, 2, 3}"
    "dom l2cpu_memory_size_mapping = {0, 1, 2, 3}"
    by (auto simp: l2cpu_tile_mapping_def l2cpu_starting_address_mapping_def
        l2cpu_memory_size_mapping_def)
  ultimately show ?thesis using tables_range by auto
qed

theorem tile_tables_consistent_witness:
  "0x400000000000 \<le> unat (0x4000b0000000 :: u64)
   \<and> unat (0x4000b0000000 :: u64) + unat (0x80000000 :: u64) \<le> 0x400000000000 + 2 ^ 33"
  using tile_tables_consistent tables_at(4,8) by blast

section \<open>The pointer arithmetic of the devices\<close>

lemma guest_offset_eq: "guest_offset start a = a - 0x400000000000"
  by (simp add: guest_offset_def)

lemma unat_guest_offset:
  "0x400000000000 \<le> unat a \<Longrightarrow> unat (guest_offset start a) = unat a - 0x400000000000"
  unfolding guest_offset_eq by (subst unat_sub) (simp_all add: word_le_nat_alt)

text \<open>The host pointer the devices compute for a guest physical address does not depend on the
  tile's starting address, and for every address of the tile's own memory it lies inside the
  8 GiB view, at the offset of that address from the bottom of the view.\<close>

theorem guest_pointer_in_view:
  assumes "l2cpu_starting_address_mapping i = Some s" "l2cpu_memory_size_mapping i = Some n"
    and "unat s \<le> unat a" "unat a < unat s + unat n"
  shows "guest_offset s a = a - 0x400000000000
         \<and> unat (guest_offset s a) = unat a - 0x400000000000
         \<and> unat (guest_offset s a) < 2 ^ 33"
  using tables_range [OF assms(1,2)] assms(3,4) guest_offset_eq unat_guest_offset [of a s]
  by simp

theorem guest_pointer_in_view_witness:
  "guest_offset 0x4000b0000000 0x4001210000ff = 0x4001210000ff - 0x400000000000
   \<and> unat (guest_offset 0x4000b0000000 0x4001210000ff) < 2 ^ 33"
  using guest_pointer_in_view [OF tables_at(4,8), of "0x4001210000ff"] by simp

section \<open>The clock ramp on the chip\<close>

text \<open>The two PLL registers of a chip state, and the addresses they occupy.\<close>

definition CNTL5_ADDR :: nat where "CNTL5_ADDR = 0x80020514"
definition CNTL1_ADDR :: nat where "CNTL1_ADDR = 0x80020504"

definition pll_regs :: "noc \<Rightarrow> pll_state" where
  "pll_regs N = (cntl5_of_raw (val32 (N 8 0) CNTL5_ADDR), cntl1_of_raw (val32 (N 8 0) CNTL1_ADDR))"

definition pll_region :: "nat set" where
  "pll_region = span CNTL5_ADDR 4 \<union> span CNTL1_ADDR 4"

text \<open>Two chip states that agree everywhere but in the PLL registers.\<close>

definition same_chip :: "noc \<Rightarrow> noc \<Rightarrow> bool" where
  "same_chip N N' \<longleftrightarrow> (\<forall>x y. \<forall>a. (x, y) \<noteq> (8, 0) \<or> a \<notin> pll_region \<longrightarrow> N' x y a = N x y a)"

lemma pll_regs_put5:
  "length p = 4 \<Longrightarrow>
     pll_regs (noc_put N 8 0 CNTL5_ADDR (bytes32 (cntl5_raw p)))
       = apply_write (pll_regs N) (Write_Cntl5 p)"
  by (simp add: pll_regs_def mem_simps CNTL5_ADDR_def CNTL1_ADDR_def cntl5_of_raw_raw)

lemma pll_regs_put1:
  "pll_regs (noc_put N 8 0 CNTL1_ADDR (bytes32 (cntl1_raw r)))
     = apply_write (pll_regs N) (Write_Cntl1 r)"
  by (simp add: pll_regs_def mem_simps CNTL5_ADDR_def CNTL1_ADDR_def cntl1_of_raw_raw)

lemma same_chip_put:
  "span p (length bs) \<subseteq> pll_region \<Longrightarrow> same_chip N (noc_put N 8 0 p bs)"
  by (auto simp: same_chip_def noc_put_apply poke_def span_def)

lemma same_chip_trans: "same_chip N N' \<Longrightarrow> same_chip N' N'' \<Longrightarrow> same_chip N N''"
  by (simp add: same_chip_def)

definition writes_ok :: "pll_write list \<Rightarrow> bool" where
  "writes_ok ws \<longleftrightarrow> (\<forall>p. Write_Cntl5 p \<in> set ws \<longrightarrow> length p = 4)"

lemma PLL_addresses:
  "unat (PLL4_BASE + PLL_CNTL_5) = CNTL5_ADDR" "unat (PLL4_BASE + PLL_CNTL_1) = CNTL1_ADDR"
  by (simp_all add: PLL4_BASE_def PLL_CNTL_5_def PLL_CNTL_1_def CNTL5_ADDR_def CNTL1_ADDR_def)

lemma two_meg_window:
  assumes "TlbWindow_new TWO_MEG fd x y a None False k = (evs, Inr w)" and "4 dvd unat a"
  shows "TlbWindow_read32 N w 0 = Inr (val32 (N x y) (unat a))"
    and "TlbWindow_write32 N w 0 v = Inr (noc_put N x y (unat a) (bytes32 v))"
  using read32_at_target [of 21 fd x y a None False k evs w N]
    write32_at_target [of 21 fd x y a None False k evs w N v] assms
  by (simp_all add: window_sizes)

lemma two_meg_window_mem:
  assumes "get_persistent_2M_tlb_window c a k = (e, Inr w)"
  shows "window_mem M (w_handle w) (unat (TlbWindow_get_window w) + j)
           = M (fst (coordinates c)) (snd (coordinates c)) (unat a + j)"
    and "unat (TlbWindow_get_window w) = unat a mod 2 ^ 21"
proof -
  note new = assms [unfolded get_persistent_2M_tlb_window_def window_sizes]
  show "window_mem M (w_handle w) (unat (TlbWindow_get_window w) + j)
           = M (fst (coordinates c)) (snd (coordinates c)) (unat a + j)"
    using TlbWindow_splits_address_lemma(1,4,5) [OF new]
    by (simp add: window_mem_def TlbWindow_get_window_def add.assoc [symmetric])
  show "unat (TlbWindow_get_window w) = unat a mod 2 ^ 21"
    using TlbWindow_new_Inr(2) [OF new]
    unfolding WINDOW_MASK_pow2 TlbWindow_get_window_def by (simp only: mask_low)
qed

text \<open>\<open>pll_windows w5 w1\<close>: the two windows of the ramp, as their constructors leave them.\<close>

definition pll_windows :: "tlb_window \<Rightarrow> tlb_window \<Rightarrow> bool" where
  "pll_windows w5 w1 \<longleftrightarrow>
     (\<exists>fd k evs. TlbWindow_new TWO_MEG fd 8 0 (PLL4_BASE + PLL_CNTL_5) None False k = (evs, Inr w5))
     \<and> (\<exists>fd k evs. TlbWindow_new TWO_MEG fd 8 0 (PLL4_BASE + PLL_CNTL_1) None False k = (evs, Inr w1))"

lemma pll_windows_access:
  assumes "pll_windows w5 w1"
  shows "TlbWindow_read32 N w5 0 = Inr (val32 (N 8 0) CNTL5_ADDR)"
    "TlbWindow_read32 N w1 0 = Inr (val32 (N 8 0) CNTL1_ADDR)"
    "TlbWindow_write32 N w5 0 v = Inr (noc_put N 8 0 CNTL5_ADDR (bytes32 v))"
    "TlbWindow_write32 N w1 0 v = Inr (noc_put N 8 0 CNTL1_ADDR (bytes32 v))"
  using assms two_meg_window [of _ 8 0 "PLL4_BASE + PLL_CNTL_5"]
    two_meg_window [of _ 8 0 "PLL4_BASE + PLL_CNTL_1"]
  by (auto simp: pll_windows_def PLL_addresses CNTL5_ADDR_def CNTL1_ADDR_def)

lemma apply_pll_spec:
  "pll_windows w5 w1 \<Longrightarrow> writes_ok ws \<Longrightarrow>
     \<exists>N'. apply_pll N w5 w1 ws = Inr N' \<and> pll_regs N' = foldl apply_write (pll_regs N) ws
          \<and> same_chip N N'"
proof (induction N w5 w1 ws rule: apply_pll.induct)
  case (1 N w5 w1)
  then show ?case by (simp add: same_chip_def)
next
  case (2 N w5 w1 p ws)
  let ?N = "noc_put N 8 0 CNTL5_ADDR (bytes32 (cntl5_raw p))"
  have len: "length p = 4" and ws: "writes_ok ws" using 2(3) by (auto simp: writes_ok_def)
  have "same_chip N ?N" by (rule same_chip_put) (auto simp: pll_region_def)
  then show ?case
    using 2(1) [OF 2(2) ws, of ?N] pll_regs_put5 [OF len, of N]
    by (auto simp: pll_windows_access [OF 2(2)] intro: same_chip_trans)
next
  case (3 N w5 w1 r ws)
  let ?N = "noc_put N 8 0 CNTL1_ADDR (bytes32 (cntl1_raw r))"
  have ws: "writes_ok ws" using 3(3) by (auto simp: writes_ok_def)
  have "same_chip N ?N" by (rule same_chip_put) (auto simp: pll_region_def)
  then show ?case
    using 3(1) [OF 3(2) ws, of ?N] pll_regs_put1 [of N r]
    by (auto simp: pll_windows_access [OF 3(2)] intro: same_chip_trans)
qed

lemma ramp_writes_ok: "length p = 4 \<Longrightarrow> writes_ok (ramp tf tp p r)"
proof -
  assume p: "length p = 4"
  let ?p1 = "final p (raise_postdivs [0..<4] tp p)"
  have "length q = 4" if "q \<in> set (raise_postdivs [0..<4] tp p)" for q
    using raise_postdivs_spec [of "[0..<4]" p 0 tp] p that by simp
  moreover have "length q = 4" if "q \<in> set (lower_postdivs [0..<4] tp ?p1)" for q
    using lower_postdivs_spec [of "[0..<4]" ?p1 0 tp] length_final_raise [OF p, of tp] that by simp
  ultimately show ?thesis by (auto simp: writes_ok_def ramp_def Let_def)
qed

lemma set_frequency_spec:
  assumes w5: "TlbWindow_new TWO_MEG fd 8 0 (PLL4_BASE + PLL_CNTL_5) None False k5 = (e5, Inr w5)"
    and w1: "TlbWindow_new TWO_MEG fd 8 0 (PLL4_BASE + PLL_CNTL_1) None False k1 = (e1, Inr w1)"
  shows "\<exists>evs N'. set_frequency fd k5 k1 N = (evs, Inr N')
           \<and> pll_regs N' = ([1, 1, 1, 1], (snd (pll_regs N))\<lparr>fbdiv := 140\<rparr>)
           \<and> same_chip N N' \<and> (\<forall>r. balance evs r = 0)"
proof -
  have win: "pll_windows w5 w1" using w5 w1 by (auto simp: pll_windows_def)
  let ?ws = "ramp target_fbdiv target_postdiv (fst (pll_regs N)) (snd (pll_regs N))"
  have len: "length (fst (pll_regs N)) = 4" by (simp add: pll_regs_def)
  obtain N' where N': "apply_pll N w5 w1 ?ws = Inr N'"
    "pll_regs N' = foldl apply_write (pll_regs N) ?ws" "same_chip N N'"
    using apply_pll_spec [OF win ramp_writes_ok [OF len]] by blast
  have regs: "pll_regs N' = ([1, 1, 1, 1], (snd (pll_regs N))\<lparr>fbdiv := 140\<rparr>)"
    using N'(2) ramp_final_lemma [OF len, of target_postdiv "snd (pll_regs N)" target_fbdiv]
    by (simp add: target_postdiv_def target_fbdiv_def)
  have "set_frequency fd k5 k1 N =
      (e5 @ e1 @ TlbHandle_delete (w_handle w1) @ TlbHandle_delete (w_handle w5), Inr N')"
    using N'(1) w5 w1 pll_windows_access(1,2) [OF win]
    by (simp add: set_frequency_def pll_regs_def)
  moreover have "balance e5 r = holds_only (w_handle w5) r" "balance e1 r = holds_only (w_handle w1) r" for r
    using TlbHandle_new_balance [OF TlbWindow_new_Inr(4) [OF w5], of r]
      TlbHandle_new_balance [OF TlbWindow_new_Inr(4) [OF w1], of r] by simp_all
  ultimately show ?thesis using regs N'(3) by (simp add: TlbHandle_delete_balance)
qed

text \<open>C21: when the kernel grants the two windows, \<open>set_frequency\<close> ends with all four output dividers
  at 1 and the feedback divider at 140, keeps the two other fields of \<open>CNTL_1\<close>, changes nothing
  else on the chip, and has released both windows.\<close>

theorem set_frequency_correct:
  assumes w5: "TlbWindow_new TWO_MEG fd 8 0 (PLL4_BASE + PLL_CNTL_5) None False k5 = (e5, Inr w5)"
    and w1: "TlbWindow_new TWO_MEG fd 8 0 (PLL4_BASE + PLL_CNTL_1) None False k1 = (e1, Inr w1)"
  shows "\<exists>evs N'. set_frequency fd k5 k1 N = (evs, Inr N')
           \<and> pll_regs N' = ([1, 1, 1, 1], (snd (pll_regs N))\<lparr>fbdiv := 140\<rparr>)
           \<and> same_chip N N' \<and> (\<forall>r. balance evs r = 0)"
  using assms by (rule set_frequency_spec)

theorem set_frequency_correct_witness:
  "\<exists>evs N'. set_frequency 3 sample_reply (sample_reply\<lparr>rep_mmap := Some 0x7f0000200000\<rparr>) (\<lambda>_ _ _. 0)
       = (evs, Inr N') \<and> fst (pll_regs N') = [1, 1, 1, 1] \<and> fbdiv (snd (pll_regs N')) = 140"
proof -
  let ?k1 = "sample_reply\<lparr>rep_mmap := Some 0x7f0000200000\<rparr>"
  obtain e5 w5 where w5:
    "TlbWindow_new TWO_MEG 3 8 0 (PLL4_BASE + PLL_CNTL_5) None False sample_reply = (e5, Inr w5)"
    by (simp add: TlbWindow_new_def TlbHandle_new_def sample_reply_def Let_def)
  obtain e1 w1 where w1:
    "TlbWindow_new TWO_MEG 3 8 0 (PLL4_BASE + PLL_CNTL_1) None False ?k1 = (e1, Inr w1)"
    by (simp add: TlbWindow_new_def TlbHandle_new_def sample_reply_def Let_def)
  show ?thesis using set_frequency_correct [OF w5 w1, of "\<lambda>_ _ _. 0"] by auto
qed

section \<open>The constructed object\<close>

lemma L2CPU_new_Inr:
  assumes "L2CPU_new env N idx cardno = (evs, Inr (c, N'))"
  obtains start x y sz e2 e3 where
    "0 \<le> idx" "idx < 4" "l2_memory c = env_reserve env" "l2_fd c = env_fd env"
    "l2cpu_starting_address_mapping idx = Some start" "starting_address c = start"
    "l2cpu_memory_size_mapping idx = Some sz" "memory_size c = sz"
    "l2cpu_tile_mapping idx = Some (x, y)" "coordinates c = (x, y)"
    "TlbWindow_new FOUR_GIG (env_fd env) x y 0x400000000000 (Some (env_reserve env)) True
       (env_first env) = (e2, Inr (l2_first c))"
    "TlbWindow_new FOUR_GIG (env_fd env) x y 0x400100000000
       (Some (env_reserve env + push_bit 32 1)) True (env_second env) = (e3, Inr (l2_second c))"
    "snd (set_frequency (env_fd env) (env_cntl5 env) (env_cntl1 env) N) = Inr N'"
  using assms
  by (auto simp: L2CPU_new_def Let_def map_at_def bindR_Inr_iff
      split: if_splits prod.splits sum.splits option.splits)

lemma four_gig_window_mem:
  assumes "TlbWindow_new FOUR_GIG fd x y a base wc k = (evs, Inr w)" and "2 ^ 32 dvd unat a"
  shows "window_mem N (w_handle w) j = N x y (unat a + j)"
proof -
  note new = assms(1) [unfolded window_sizes]
  have "h_config (w_handle w) = unicast_config (a AND NOT (mask 32)) x y"
    using TlbWindow_new_Inr(3) [OF new] unfolding WINDOW_MASK_pow2 .
  then have "unat (cfg_addr (h_config (w_handle w))) = unat a"
    using mask_high [of a 32] assms(2) by (simp add: unicast_config_def)
  then show ?thesis
    using TlbWindow_splits_address_lemma(4,5) [OF new] by (simp add: window_mem_def)
qed

lemma l2cpu_mem_eq:
  assumes "L2CPU_new env N idx cardno = (evs, Inr (c, N'))"
  shows "l2cpu_mem M c k = M (fst (coordinates c)) (snd (coordinates c)) (0x400000000000 + k)"
  using assms
proof (rule L2CPU_new_Inr)
  fix start x y sz e2 e3
  assume c: "coordinates c = (x, y)"
    and w1: "TlbWindow_new FOUR_GIG (env_fd env) x y 0x400000000000 (Some (env_reserve env)) True
       (env_first env) = (e2, Inr (l2_first c))"
    and w2: "TlbWindow_new FOUR_GIG (env_fd env) x y 0x400100000000
       (Some (env_reserve env + push_bit 32 1)) True (env_second env) = (e3, Inr (l2_second c))"
  have "window_mem M (w_handle (l2_first c)) j = M x y (0x400000000000 + j)"
    "window_mem M (w_handle (l2_second c)) j = M x y (0x400100000000 + j)" for j
    using four_gig_window_mem [OF w1, of M j] four_gig_window_mem [OF w2, of M j] by simp_all
  then show ?thesis by (simp add: l2cpu_mem_def c)
qed

text \<open>C17: the 8 GiB view is the tile's memory: byte \<open>k\<close> of the view is NOC address
  \<open>0x400000000000 + k\<close> of the tile, across the border of the two windows, so the bytes behind
  \<open>get_memory_ptr\<close> are those from the tile's starting address on.\<close>

theorem memory_ptr_is_tile_memory:
  assumes "L2CPU_new env N idx cardno = (evs, Inr (c, N'))"
  shows "l2cpu_mem M c (unat (get_memory_ptr c - l2_memory c) + off)
           = M (fst (coordinates c)) (snd (coordinates c)) (unat (starting_address c) + off)"
proof -
  obtain sz where s: "l2cpu_starting_address_mapping idx = Some (starting_address c)"
    "l2cpu_memory_size_mapping idx = Some sz"
    using assms by (rule L2CPU_new_Inr) auto
  have "unat (get_memory_ptr c - l2_memory c) = unat (starting_address c) - 0x400000000000"
    using tables_range(2) [OF s] by (simp add: get_memory_ptr_def unat_sub word_le_nat_alt)
  then show ?thesis
    unfolding l2cpu_mem_eq [OF assms] using tables_range(2) [OF s] by simp
qed

definition sample_env :: l2cpu_env where
  "sample_env =
     \<lparr>env_fd = 3, env_reserve = 0x7e0000000000, env_cntl5 = sample_reply, env_cntl1 = sample_reply,
      env_first = sample_reply\<lparr>rep_mmap := Some 0x7e0000000000\<rparr>,
      env_second = sample_reply\<lparr>rep_mmap := Some 0x7e0100000000\<rparr>\<rparr>"

lemma sample_window_new:
  assumes "rep_allocate k = Some out" "rep_configure k" "rep_mmap k = Some m"
  shows "\<exists>evs w. TlbWindow_new sz fd x y a base wc k = (evs, Inr w)"
  using assms by (simp add: TlbWindow_new_def TlbHandle_new_def Let_def)

lemma sample_set_frequency:
  "\<exists>evs N'. set_frequency 3 sample_reply sample_reply N = (evs, Inr N')"
proof -
  obtain e5 w5 e1 w1 where
    "TlbWindow_new TWO_MEG 3 8 0 (PLL4_BASE + PLL_CNTL_5) None False sample_reply = (e5, Inr w5)"
    "TlbWindow_new TWO_MEG 3 8 0 (PLL4_BASE + PLL_CNTL_1) None False sample_reply = (e1, Inr w1)"
    using sample_window_new [of sample_reply] by (metis sample_reply_def kmd_reply.select_convs)
  then show ?thesis using set_frequency_spec by blast
qed

lemma sample_l2cpu_tile:
  assumes "0 \<le> idx" "idx < 4"
  shows "\<exists>evs c N'. L2CPU_new sample_env N idx 0 = (evs, Inr (c, N'))"
proof -
  obtain e0 N' where f: "set_frequency 3 sample_reply sample_reply N = (e0, Inr N')"
    using sample_set_frequency by blast
  have w2: "\<exists>e w. TlbWindow_new FOUR_GIG 3 x y 0x400000000000 (Some 0x7e0000000000) True
      (sample_reply\<lparr>rep_mmap := Some 0x7e0000000000\<rparr>) = (e, Inr w)" for x y
    using sample_window_new [of "sample_reply\<lparr>rep_mmap := Some 0x7e0000000000\<rparr>"]
    by (fastforce simp: sample_reply_def)
  have w3: "\<exists>e w. TlbWindow_new FOUR_GIG 3 x y 0x400100000000 (Some 0x7e0100000000) True
      (sample_reply\<lparr>rep_mmap := Some 0x7e0100000000\<rparr>) = (e, Inr w)" for x y
    using sample_window_new [of "sample_reply\<lparr>rep_mmap := Some 0x7e0100000000\<rparr>"]
    by (fastforce simp: sample_reply_def)
  obtain x y where xy: "l2cpu_tile_mapping idx = Some (x, y)"
    and st: "l2cpu_starting_address_mapping idx \<noteq> None" "l2cpu_memory_size_mapping idx \<noteq> None"
    using assms tables_at by (cases "idx = 0 \<or> idx = 1 \<or> idx = 2 \<or> idx = 3") auto
  obtain e2 v2 where "TlbWindow_new FOUR_GIG 3 x y 0x400000000000 (Some 0x7e0000000000) True
      (sample_reply\<lparr>rep_mmap := Some 0x7e0000000000\<rparr>) = (e2, Inr v2)" using w2 by blast
  moreover obtain e3 v3 where "TlbWindow_new FOUR_GIG 3 x y 0x400100000000 (Some 0x7e0100000000) True
      (sample_reply\<lparr>rep_mmap := Some 0x7e0100000000\<rparr>) = (e3, Inr v3)" using w3 by blast
  ultimately show ?thesis
    using assms st by (auto simp: L2CPU_new_def sample_env_def f xy map_at_def Let_def)
qed

lemma sample_l2cpu: "\<exists>evs c N'. L2CPU_new sample_env N 3 0 = (evs, Inr (c, N'))"
  by (rule sample_l2cpu_tile) simp_all

theorem memory_ptr_is_tile_memory_witness:
  "\<exists>evs c N'. L2CPU_new sample_env (\<lambda>_ _ _. 0) 3 0 = (evs, Inr (c, N'))
     \<and> (\<forall>off. l2cpu_mem N' c (unat (get_memory_ptr c - l2_memory c) + off)
               = N' (fst (coordinates c)) (snd (coordinates c)) (unat (starting_address c) + off))"
proof -
  obtain evs c N' where new: "L2CPU_new sample_env (\<lambda>_ _ _. 0) 3 0 = (evs, Inr (c, N'))"
    using sample_l2cpu by blast
  show ?thesis using new memory_ptr_is_tile_memory [OF new, of N'] by blast
qed

lemma read32_view:
  assumes new: "L2CPU_new env N idx cardno = (evs, Inr (c, N'))"
    and read: "L2CPU_read32 c k M a = (evs', Inr v)"
    and range: "0x400000000000 \<le> unat a"
  shows "4 dvd unat a \<and> v = val32 (l2cpu_mem M c) (unat a - 0x400000000000)
         \<and> (\<forall>r. balance evs' r = 0)"
proof -
  obtain e w where w: "get_persistent_2M_tlb_window c a k = (e, Inr w)"
    and v: "TlbWindow_read32 M w 0 = Inr v" and e: "evs' = e @ TlbHandle_delete (w_handle w)"
    using read by (auto simp: L2CPU_read32_def split: prod.splits sum.splits)
  note tw = w [unfolded get_persistent_2M_tlb_window_def]
  note rd = read32_at_target [OF tw [unfolded window_sizes], of M]
  have al: "4 dvd unat a" using v rd by (auto split: if_splits)
  then have "v = val32 (M (fst (coordinates c)) (snd (coordinates c))) (unat a)"
    using v rd by simp
  also have "\<dots> = val32 (l2cpu_mem M c) (unat a - 0x400000000000)"
    using range by (simp add: val32_def peek_def l2cpu_mem_eq [OF new])
  finally have "v = val32 (l2cpu_mem M c) (unat a - 0x400000000000)" .
  moreover have "balance evs' r = 0" for r
    using TlbHandle_new_balance [OF TlbWindow_new_Inr(4) [OF tw], of r]
    by (simp add: e TlbHandle_delete_balance)
  ultimately show ?thesis using al by simp
qed

text \<open>C18: a single 32-bit read of an L2CPU agrees with the mapped view at every aligned address of
  the 8 GiB range, and has released its temporary window when it returns.\<close>

theorem L2CPU_read32_agrees_with_view:
  assumes new: "L2CPU_new env N idx cardno = (evs, Inr (c, N'))"
    and read: "L2CPU_read32 c k M a = (evs', Inr v)"
    and range: "0x400000000000 \<le> unat a"
  shows "4 dvd unat a \<and> v = val32 (l2cpu_mem M c) (unat a - 0x400000000000)
         \<and> (\<forall>r. balance evs' r = 0)"
  using assms by (rule read32_view)

theorem L2CPU_read32_agrees_with_view_witness:
  "\<exists>evs c N' evs' v. L2CPU_new sample_env (\<lambda>_ _ _. 0) 3 0 = (evs, Inr (c, N'))
     \<and> L2CPU_read32 c sample_reply N' 0x4000b0000080 = (evs', Inr v)
     \<and> v = val32 (l2cpu_mem N' c) 0xb0000080"
proof -
  obtain evs c N' where new: "L2CPU_new sample_env (\<lambda>_ _ _. 0) 3 0 = (evs, Inr (c, N'))"
    using sample_l2cpu by blast
  obtain e w where
    "TlbWindow_new TWO_MEG (l2_fd c) (fst (coordinates c)) (snd (coordinates c)) 0x4000b0000080 None
       False sample_reply = (e, Inr w)"
    using sample_window_new [of sample_reply] by (metis sample_reply_def kmd_reply.select_convs)
  then obtain evs' v where rd: "L2CPU_read32 c sample_reply N' 0x4000b0000080 = (evs', Inr v)"
    using two_meg_window(1) [of "l2_fd c" _ _ "0x4000b0000080" sample_reply e w N']
    by (simp add: L2CPU_read32_def get_persistent_2M_tlb_window_def)
  show ?thesis using new rd L2CPU_read32_agrees_with_view [OF new rd] by fastforce
qed

lemma TlbWindow_new_fault: "TlbWindow_new sz fd x y a b wc k = (e, Inl f) \<Longrightarrow> f = Exit_Failure"
  by (auto simp: TlbWindow_new_def TlbHandle_new_def Let_def split: option.splits if_splits)

lemma access_faults:
  "TlbWindow_read32 N w a \<noteq> Inl Std_Exception" "TlbWindow_write32 N w a v \<noteq> Inl Std_Exception"
  by (auto simp: TlbWindow_read32_def TlbWindow_write32_def bindR_Inl_iff require_def ld32_def)

lemma apply_pll_fault: "apply_pll N w5 w1 ws \<noteq> Inl Std_Exception"
  by (induction N w5 w1 ws rule: apply_pll.induct) (auto simp: bindR_Inl_iff access_faults)

lemma set_frequency_faults: "snd (set_frequency fd k5 k1 N) \<noteq> Inl Std_Exception"
  by (auto simp: set_frequency_def bindR_Inl_iff access_faults apply_pll_fault
      split: prod.splits sum.splits dest: TlbWindow_new_fault)

text \<open>With a valid index the only way to fail is the \<open>exit\<close> of \<open>TlbHandle\<close> when the kernel refuses.\<close>

lemma set_frequency_exit: "set_frequency fd k5 k1 N = (evs, Inl f) \<Longrightarrow> f = Exit_Failure"
proof -
  assume f: "set_frequency fd k5 k1 N = (evs, Inl f)"
  show ?thesis
  proof (cases "\<exists>e5 w5 e1 w1. TlbWindow_new TWO_MEG fd 8 0 (PLL4_BASE + PLL_CNTL_5) None False k5 = (e5, Inr w5)
      \<and> TlbWindow_new TWO_MEG fd 8 0 (PLL4_BASE + PLL_CNTL_1) None False k1 = (e1, Inr w1)")
    case True
    then show ?thesis using set_frequency_spec [of fd k5 _ _ k1 _ _ N] f by fastforce
  next
    case False
    then show ?thesis
      using f by (auto simp: set_frequency_def dest: TlbWindow_new_fault split: prod.splits sum.splits)
  qed
qed

lemma L2CPU_new_exit:
  assumes "0 \<le> idx" "idx < 4" and "L2CPU_new env N idx cardno = (evs, Inl f)"
  shows "f = Exit_Failure"
proof -
  obtain start xy sz where t: "l2cpu_starting_address_mapping idx = Some start"
    "l2cpu_tile_mapping idx = Some xy" "l2cpu_memory_size_mapping idx = Some sz"
    using assms(1,2) tables_cases [of idx] tables_at by auto
  obtain e0 r0 where "set_frequency (env_fd env) (env_cntl5 env) (env_cntl1 env) N = (e0, r0)" by fastforce
  then show ?thesis
    using assms set_frequency_exit [of "env_fd env" "env_cntl5 env" "env_cntl1 env" N e0]
    by (cases r0) (auto simp: L2CPU_new_def map_at_def t Let_def dest: TlbWindow_new_fault
        split: prod.splits sum.splits)
qed

text \<open>A tile index outside 0 to 3 stops the constructor before it touches the kernel or the
  chip; a valid index never raises the exception of a missing table entry.\<close>

theorem L2CPU_new_index_checked:
  "if 0 \<le> idx \<and> idx < 4
   then snd (L2CPU_new env N idx cardno) \<noteq> Inl Std_Exception
   else L2CPU_new env N idx cardno = ([], Inl Assert_Failed)"
proof (cases "0 \<le> idx \<and> idx < 4")
  case True
  then obtain start xy sz where t: "l2cpu_starting_address_mapping idx = Some start"
    "l2cpu_tile_mapping idx = Some xy" "l2cpu_memory_size_mapping idx = Some sz"
    using tables_cases [of idx] tables_at by auto
  show ?thesis
    using True set_frequency_faults [of "env_fd env" "env_cntl5 env" "env_cntl1 env" N]
    by (auto simp: L2CPU_new_def map_at_def t Let_def bindR_def
        split: prod.splits sum.splits dest: TlbWindow_new_fault)
next
  case False
  then show ?thesis by (auto simp: L2CPU_new_def)
qed

text \<open>A single 32-bit write of an L2CPU at an aligned address of the 8 GiB range changes exactly
  those four bytes of the mapped view, and has released its temporary window when it returns.\<close>

theorem L2CPU_write32_updates_view:
  assumes new: "L2CPU_new env N idx cardno = (evs, Inr (c, N'))"
    and wr: "L2CPU_write32 c k M a v = (evs', Inr M')"
    and range: "0x400000000000 \<le> unat a"
  shows "l2cpu_mem M' c = poke (l2cpu_mem M c) (unat a - 0x400000000000) (bytes32 v)
         \<and> (\<forall>r. balance evs' r = 0)"
proof -
  let ?x = "fst (coordinates c)" and ?y = "snd (coordinates c)"
  obtain e w where w: "get_persistent_2M_tlb_window c a k = (e, Inr w)"
    and v: "TlbWindow_write32 M w 0 v = Inr M'" and e: "evs' = e @ TlbHandle_delete (w_handle w)"
    using wr by (auto simp: L2CPU_write32_def split: prod.splits sum.splits)
  note tw = w [unfolded get_persistent_2M_tlb_window_def]
  have M': "M' = noc_put M ?x ?y (unat a) (bytes32 v)"
    using v write32_at_target [OF tw [unfolded window_sizes], of M v] by (auto split: if_splits)
  have "l2cpu_mem M' c j = poke (l2cpu_mem M c) (unat a - 0x400000000000) (bytes32 v) j" for j
    using range by (auto simp: l2cpu_mem_eq [OF new] M' poke_def add.commute [of j])
  moreover have "balance evs' r = 0" for r
    using TlbHandle_new_balance [OF TlbWindow_new_Inr(4) [OF tw], of r]
    by (simp add: e TlbHandle_delete_balance)
  ultimately show ?thesis by auto
qed

theorem L2CPU_write32_updates_view_witness:
  "\<exists>evs c N' evs' M'. L2CPU_new sample_env (\<lambda>_ _ _. 0) 3 0 = (evs, Inr (c, N'))
     \<and> L2CPU_write32 c sample_reply N' 0x4000b0000080 7 = (evs', Inr M')
     \<and> val32 (l2cpu_mem M' c) 0xb0000080 = 7"
proof -
  obtain evs c N' where new: "L2CPU_new sample_env (\<lambda>_ _ _. 0) 3 0 = (evs, Inr (c, N'))"
    using sample_l2cpu by blast
  obtain e w where
    "TlbWindow_new TWO_MEG (l2_fd c) (fst (coordinates c)) (snd (coordinates c)) 0x4000b0000080 None
       False sample_reply = (e, Inr w)"
    using sample_window_new [of sample_reply] by (metis sample_reply_def kmd_reply.select_convs)
  then obtain evs' M' where wr: "L2CPU_write32 c sample_reply N' 0x4000b0000080 7 = (evs', Inr M')"
    using two_meg_window(2) [of "l2_fd c" _ _ "0x4000b0000080" sample_reply e w N' 7]
    by (simp add: L2CPU_write32_def get_persistent_2M_tlb_window_def)
  have "l2cpu_mem M' c = poke (l2cpu_mem N' c) 0xb0000080 (bytes32 7)"
    using L2CPU_write32_updates_view [OF new wr] by simp
  then have "val32 (l2cpu_mem M' c) 0xb0000080 = 7" by (simp add: val_poke_same)
  then show ?thesis using new wr by blast
qed

section \<open>The order of destruction\<close>

text \<open>The releases of TLBs that a trace asks of a file descriptor it has closed before.\<close>

fun late_frees :: "int set \<Rightarrow> kevent list \<Rightarrow> (int \<times> u32) list" where
  "late_frees closed [] = []"
| "late_frees closed (Ev_Close f # es) = late_frees (insert f closed) es"
| "late_frees closed (Ev_Open _ f # es) = late_frees (closed - {f}) es"
| "late_frees closed (Ev_Free f i # es) = (if f \<in> closed then [(f, i)] else []) @ late_frees closed es"
| "late_frees closed (_ # es) = late_frees closed es"

text \<open>The unmappings of a trace that touch bytes an earlier unmapping has given back.\<close>

fun repeated_unmaps :: "(nat \<times> nat) list \<Rightarrow> kevent list \<Rightarrow> u64 list" where
  "repeated_unmaps gone [] = []"
| "repeated_unmaps gone (Ev_Munmap p n # es) =
     (if list_ex (\<lambda>(q, k). q \<le> unat p \<and> unat p < q + k) gone then [p] else [])
     @ repeated_unmaps ((unat p, unat n) # gone) es"
| "repeated_unmaps gone (_ # es) = repeated_unmaps gone es"

lemma L2CPU_new_views:
  assumes "L2CPU_new env N idx cardno = (evs, Inr (c, N'))"
  shows "h_fd (w_handle (l2_first c)) = l2_fd c" "h_fd (w_handle (l2_second c)) = l2_fd c"
    "tlb_size (w_handle (l2_first c)) = FOUR_GIG" "tlb_size (w_handle (l2_second c)) = FOUR_GIG"
    "rep_mmap (env_first env) = Some (tlb_base (w_handle (l2_first c)))"
    "rep_mmap (env_second env) = Some (tlb_base (w_handle (l2_second c)))"
    "l2_memory c = env_reserve env"
  using assms
  by (auto elim!: L2CPU_new_Inr dest!: TlbWindow_new_Inr(4) dest: TlbHandle_new_Inr)

lemma set_frequency_balance:
  assumes "set_frequency fd k5 k1 N = (evs, Inr N')"
  shows "balance evs r = 0"
proof -
  obtain e5 w5 e1 w1 where
    w5: "TlbWindow_new TWO_MEG fd 8 0 (PLL4_BASE + PLL_CNTL_5) None False k5 = (e5, Inr w5)" and
    w1: "TlbWindow_new TWO_MEG fd 8 0 (PLL4_BASE + PLL_CNTL_1) None False k1 = (e1, Inr w1)"
    using assms by (auto simp: set_frequency_def split: prod.splits sum.splits)
  show ?thesis using set_frequency_spec [OF w5 w1, of N] assms by auto
qed

lemma TlbWindow_new_balance:
  "TlbWindow_new sz fd x y a base wc k = (evs, Inr w) \<Longrightarrow> balance evs r = holds_only (w_handle w) r"
  using TlbHandle_new_balance [OF TlbWindow_new_Inr(4)] by fastforce

lemma L2CPU_new_tlbs:
  assumes "L2CPU_new env N idx cardno = (evs, Inr (c, N'))"
  shows "balance evs (Res_Tlb f i) =
           holds_only (w_handle (l2_first c)) (Res_Tlb f i) + holds_only (w_handle (l2_second c)) (Res_Tlb f i)"
  using assms
  by (auto simp: L2CPU_new_def Let_def map_at_def bindR_Inr_iff TlbWindow_new_balance
      set_frequency_balance split: if_splits prod.splits sum.splits option.splits)

lemma L2CPU_delete_tlbs:
  "balance (L2CPU_delete c) (Res_Tlb f i) =
     - holds_only (w_handle (l2_first c)) (Res_Tlb f i) - holds_only (w_handle (l2_second c)) (Res_Tlb f i)"
  by (simp add: L2CPU_delete_def TlbHandle_delete_balance)

text \<open>The ledger of a trace: the allocations of one TLB of a descriptor minus its releases in time, that is
  through the descriptor while it is open. A release after the close counts for nothing.\<close>

fun tlbs_held :: "int set \<Rightarrow> kevent list \<Rightarrow> int \<times> u32 \<Rightarrow> int" where
  "tlbs_held closed [] t = 0"
| "tlbs_held closed (Ev_Close f # es) t = tlbs_held (insert f closed) es t"
| "tlbs_held closed (Ev_Open _ f # es) t = tlbs_held (closed - {f}) es t"
| "tlbs_held closed (Ev_Allocate f _ (Some i) # es) t = of_bool (t = (f, i)) + tlbs_held closed es t"
| "tlbs_held closed (Ev_Free f i # es) t = (if f \<in> closed then 0 else - of_bool (t = (f, i))) + tlbs_held closed es t"
| "tlbs_held closed (_ # es) t = tlbs_held closed es t"

lemma tlbs_held_late:
  "tlbs_held closed es t = balance es (Res_Tlb (fst t) (snd t)) + int (count_list (late_frees closed es) t)"
  by (induction closed es t rule: tlbs_held.induct) auto

text \<open>The descriptors a trace has closed and not opened again, and the events that neither open nor close
  one and release TLBs of \<open>fd\<close> only.\<close>

fun closed_after :: "int set \<Rightarrow> kevent list \<Rightarrow> int set" where
  "closed_after closed [] = closed"
| "closed_after closed (Ev_Close f # es) = closed_after (insert f closed) es"
| "closed_after closed (Ev_Open _ f # es) = closed_after (closed - {f}) es"
| "closed_after closed (_ # es) = closed_after closed es"

fun on_descriptor :: "int \<Rightarrow> kevent \<Rightarrow> bool" where
  "on_descriptor fd (Ev_Open _ _) = False"
| "on_descriptor fd (Ev_Close _) = False"
| "on_descriptor fd (Ev_Free f _) = (f = fd)"
| "on_descriptor fd _ = True"

lemma late_frees_append:
  "late_frees closed (xs @ ys) = late_frees closed xs @ late_frees (closed_after closed xs) ys"
  by (induction closed xs rule: late_frees.induct) auto

lemma on_descriptor_late:
  "list_all (on_descriptor fd) es \<Longrightarrow> fd \<notin> closed \<Longrightarrow> late_frees closed es = [] \<and> closed_after closed es = closed"
  by (induction closed es rule: late_frees.induct) auto

lemma TlbHandle_on_descriptor:
  "TlbHandle_new fd sz c base wc k = (evs, res) \<Longrightarrow> list_all (on_descriptor fd) evs"
  "list_all (on_descriptor (h_fd h)) (TlbHandle_delete h)"
  by (auto simp: TlbHandle_new_def TlbHandle_delete_def Let_def split: option.splits if_splits)

lemma TlbWindow_on_descriptor:
  assumes "TlbWindow_new sz fd x y a base wc k = (evs, Inr w)"
  shows "list_all (on_descriptor fd) evs" "list_all (on_descriptor fd) (TlbHandle_delete (w_handle w))"
  using TlbHandle_on_descriptor(1) [OF TlbWindow_new_Inr(4) [OF assms]]
    TlbHandle_on_descriptor(2) [of "w_handle w"] TlbHandle_new_Inr [OF TlbWindow_new_Inr(4) [OF assms]] by simp_all

lemma set_frequency_on_descriptor:
  assumes "set_frequency fd k5 k1 N = (evs, Inr N')"
  shows "list_all (on_descriptor fd) evs"
  using assms by (auto simp: set_frequency_def dest: TlbWindow_on_descriptor split: prod.splits sum.splits)

lemma L2CPU_new_on_descriptor:
  assumes "L2CPU_new env N idx cardno = (evs, Inr (c, N'))"
  shows "evs = Ev_Open cardno (l2_fd c) # tl evs" "list_all (on_descriptor (l2_fd c)) (tl evs)"
proof -
  have "evs = Ev_Open cardno (l2_fd c) # tl evs \<and> list_all (on_descriptor (l2_fd c)) (tl evs)"
    using assms
    by (auto simp: L2CPU_new_def Let_def map_at_def bindR_Inr_iff split: if_splits prod.splits sum.splits option.splits
        dest: TlbWindow_on_descriptor(1) set_frequency_on_descriptor)
  then show "evs = Ev_Open cardno (l2_fd c) # tl evs" "list_all (on_descriptor (l2_fd c)) (tl evs)" by blast+
qed

text \<open>The two windows of the 8 GiB view, in the order in which they are released, for the object that a
  constructor has built.\<close>

definition view_tlbs :: "kevent list \<times> (L2CPU \<times> noc) res \<Rightarrow> (int \<times> u32) list" where
  "view_tlbs r =
     (case snd r of
        Inl _ \<Rightarrow> []
      | Inr (c, _) \<Rightarrow> [(l2_fd c, tlb_id (w_handle (l2_second c))), (l2_fd c, tlb_id (w_handle (l2_first c)))])"

text \<open>The life of an L2CPU with anything done through its descriptor in between: the releases that come too
  late are those of the view, whatever was closed before, and its descriptor is closed behind it.\<close>

lemma L2CPU_life_late:
  assumes new: "L2CPU_new env N idx cardno = (evs, Inr (c, N'))" and es: "list_all (on_descriptor (l2_fd c)) es"
  shows "late_frees closed (evs @ es @ L2CPU_delete c) = view_tlbs (L2CPU_new env N idx cardno)"
proof -
  obtain es0 where es0: "evs = Ev_Open cardno (l2_fd c) # es0" "list_all (on_descriptor (l2_fd c)) es0"
    using L2CPU_new_on_descriptor [OF new] by metis
  have "late_frees (closed - {l2_fd c}) (es0 @ es @ L2CPU_delete c) = late_frees (closed - {l2_fd c}) (L2CPU_delete c)"
    using on_descriptor_late [OF es0(2), of "closed - {l2_fd c}"] on_descriptor_late [OF es, of "closed - {l2_fd c}"]
    by (simp add: late_frees_append)
  then show ?thesis
    using es0(1) L2CPU_new_views(1,2) [OF new]
    by (simp add: new view_tlbs_def L2CPU_delete_def TlbHandle_delete_def)
qed

text \<open>Destroying an L2CPU whose windows were mapped where they were asked to be: the body of the
  destructor closes the descriptor and unmaps all 8 GiB, and only then are the members destroyed,
  so both TLBs are released through a descriptor that is closed already, and both windows are
  unmapped a second time.\<close>

theorem L2CPU_delete_releases_too_late:
  assumes new: "L2CPU_new env N idx cardno = (evs, Inr (c, N'))"
    and fixed: "rep_mmap (env_first env) = Some (env_reserve env)"
      "rep_mmap (env_second env) = Some (env_reserve env + push_bit 32 1)"
    and room: "unat (env_reserve env) + 2 ^ 33 \<le> 2 ^ 64"
  shows "late_frees {} (L2CPU_delete c)
           = [(l2_fd c, tlb_id (w_handle (l2_second c))), (l2_fd c, tlb_id (w_handle (l2_first c)))]
         \<and> repeated_unmaps [] (L2CPU_delete c) = [l2_memory c + push_bit 32 1, l2_memory c]"
proof -
  have bases: "tlb_base (w_handle (l2_first c)) = env_reserve env"
    "tlb_base (w_handle (l2_second c)) = env_reserve env + push_bit 32 1"
    using L2CPU_new_views(5,6) [OF new] fixed by simp_all
  have "unat (env_reserve env + 0x100000000) = unat (env_reserve env) + 0x100000000"
    using room unat_add_less_64 [of "env_reserve env" "0x100000000"] by simp
  then show ?thesis
    using L2CPU_new_views [OF new] bases
    by (simp add: L2CPU_delete_def TlbHandle_delete_def push_bit_eq_mult)
qed

theorem L2CPU_delete_releases_too_late_witness:
  "\<exists>evs c N'. L2CPU_new sample_env (\<lambda>_ _ _. 0) 3 0 = (evs, Inr (c, N'))
     \<and> length (late_frees {} (L2CPU_delete c)) = 2"
proof -
  obtain evs c N' where new: "L2CPU_new sample_env (\<lambda>_ _ _. 0) 3 0 = (evs, Inr (c, N'))"
    using sample_l2cpu by blast
  show ?thesis
    using new L2CPU_delete_releases_too_late [OF new]
    by (simp add: sample_env_def push_bit_eq_mult)
qed

end
