(* ===== verification/Virtqueue.thy ===== *)
theory Virtqueue
  imports L2cpu
begin

text \<open>
  The virtqueue engine of \<^verbatim>\<open>console/virtiodevice.hpp\<close>: one round of \<open>device_loop\<close>, with the
  chain walk, the used ring and the interrupt. The device classes enter as a record of their
  virtual functions (\<open>backend\<close>). The layout of the rings and the flag values come from Linux's
  headers, which are not part of the repository: they are the parameter \<open>vring_abi\<close>, and
  \<open>abi_ok\<close> states the documented values the proofs rely on.
\<close>

section \<open>Parameters: the ring layout and the device class\<close>

record vring_abi =
  desc_size :: nat
  desc_addr :: nat
  desc_len :: nat
  desc_flags :: nat
  desc_next :: nat
  avail_idx :: nat
  avail_ring :: nat
  used_idx :: nat
  used_ring :: nat
  elem_size :: nat
  elem_id :: nat
  elem_len :: nat
  DESC_F_NEXT :: u16
  INT_VRING :: u32

definition abi_ok :: "vring_abi \<Rightarrow> bool" where
  "abi_ok A \<longleftrightarrow>
     desc_size A = 16 \<and> desc_addr A = 0 \<and> desc_len A = 8 \<and> desc_flags A = 12 \<and> desc_next A = 14
     \<and> avail_idx A = 2 \<and> avail_ring A = 4 \<and> used_idx A = 2 \<and> used_ring A = 4
     \<and> elem_size A = 8 \<and> elem_id A = 0 \<and> elem_len A = 4 \<and> DESC_F_NEXT A = 1 \<and> INT_VRING A = 1"

definition linux_abi :: vring_abi where
  "linux_abi =
     \<lparr>desc_size = 16, desc_addr = 0, desc_len = 8, desc_flags = 12, desc_next = 14, avail_idx = 2,
      avail_ring = 4, used_idx = 2, used_ring = 4, elem_size = 8, elem_id = 0, elem_len = 4,
      DESC_F_NEXT = 1, INT_VRING = 1\<rparr>"

lemma abi_ok_linux: "abi_ok linux_abi"
  by (simp add: abi_ok_def linux_abi_def)

text \<open>The pure virtual functions and the two members that a device class sets. An operation gets
  the queue, the buffer as an offset into the mapped view, its length, and the state of the
  device class with the guest's memory.\<close>

record 'b backend =
  process_queue_start :: "nat \<Rightarrow> u64 \<Rightarrow> u64 \<Rightarrow> 'b \<times> mem \<Rightarrow> ('b \<times> mem) res"
  process_queue_data :: "nat \<Rightarrow> u64 \<Rightarrow> u64 \<Rightarrow> 'b \<times> mem \<Rightarrow> ('b \<times> mem) res"
  process_queue_complete :: "nat \<Rightarrow> u64 \<Rightarrow> u64 \<Rightarrow> 'b \<times> mem \<Rightarrow> ('b \<times> mem) res"
  queue_has_data :: "nat \<Rightarrow> 'b \<Rightarrow> bool"
  queue_header_size :: u64
  num_queues :: nat

text \<open>The view that \<open>memory\<close> points into, and the ring size the device announces.\<close>

definition VIEW :: nat where "VIEW = 2 ^ 33"
definition queue_size :: nat where "queue_size = 16384"

section \<open>Walking a descriptor chain\<close>

definition desc_at :: "vring_abi \<Rightarrow> u64 \<Rightarrow> u16 \<Rightarrow> nat" where
  "desc_at A D i = unat D + desc_size A * (unat i mod queue_size)"

text \<open>The \<open>while (true)\<close> loop. The fuel bounds the number of descriptors visited; \<open>n\<close> is
  \<open>num_bytes_written\<close>. The \<open>next\<close> field is read after the device class has seen the buffer.\<close>

fun walk_chain ::
  "nat \<Rightarrow> vring_abi \<Rightarrow> 'b backend \<Rightarrow> u64 \<Rightarrow> u64 \<Rightarrow> nat \<Rightarrow> u16 \<Rightarrow> u64 \<Rightarrow> 'b \<times> mem
     \<Rightarrow> (u64 \<times> 'b \<times> mem) res" where
  "walk_chain 0 A bk start D q i n s = Inl Out_Of_Fuel"
| "walk_chain (Suc f) A bk start D q i n s =
     bindR (ld32 VIEW (snd s) (desc_at A D i + desc_len A)) (\<lambda>l.
     bindR (ld64 VIEW (snd s) (desc_at A D i + desc_addr A)) (\<lambda>a.
     bindR (ld16 VIEW (snd s) (desc_at A D i + desc_flags A)) (\<lambda>fl.
       if fl AND DESC_F_NEXT A \<noteq> 0 then
         bindR ((if n < queue_header_size bk then process_queue_start bk else process_queue_data bk)
                  q (guest_offset start a) (ucast l) s) (\<lambda>s'.
         bindR (ld16 VIEW (snd s') (desc_at A D i + desc_next A)) (\<lambda>i'.
           walk_chain f A bk start D q i' (n + ucast l) s'))
       else
         bindR (process_queue_complete bk q (guest_offset start a) (ucast l) s) (\<lambda>s'.
           Inr (n + ucast l, s')))))"

section \<open>One queue of one round\<close>

text \<open>What the loop keeps: the guest's memory, the device class, the positions \<open>processed\<close>, the
  interrupt status register, and the values written to the interrupt line so far.\<close>

record 'b dev =
  memory :: mem
  dclass :: 'b
  processed :: "u16 list"
  interrupt_status :: u32
  interrupt_register :: "u32 list"

text \<open>What setup has left behind: the tile's starting address, the interrupt number, and the
  queue pointers as offsets into the view.\<close>

record devcfg =
  starting_address_of :: u64
  interrupt_number :: nat
  desc :: "u64 list"
  avail :: "u64 list"
  used :: "u64 list"

text \<open>\<open>1 << (interrupt_number - 5)\<close>, then 0.\<close>

definition set_interrupt :: "vring_abi \<Rightarrow> devcfg \<Rightarrow> 'b dev \<Rightarrow> 'b dev" where
  "set_interrupt A cfg d =
     d\<lparr>interrupt_status := INT_VRING A OR interrupt_status d,
       interrupt_register := interrupt_register d @ [push_bit (interrupt_number cfg - 5) 1, 0]\<rparr>"

definition ack_interrupt :: "'b dev \<Rightarrow> 'b dev" where
  "ack_interrupt d = d"

text \<open>The used element and then, after the barrier, the index.\<close>

definition put_used :: "vring_abi \<Rightarrow> u64 \<Rightarrow> u16 \<Rightarrow> u64 \<Rightarrow> mem \<Rightarrow> mem res" where
  "put_used A U i n m =
     bindR (ld16 VIEW m (unat U + used_idx A)) (\<lambda>u.
     let e = unat U + used_ring A + elem_size A * (unat u mod queue_size) in
     bindR (store VIEW m (e + elem_id A) (bytes32 (ucast i))) (\<lambda>m1.
     bindR (store VIEW m1 (e + elem_len A) (bytes32 (ucast n))) (\<lambda>m2.
       store VIEW m2 (unat U + used_idx A) (bytes16 (u + 1)))))"

definition service_queue ::
  "nat \<Rightarrow> vring_abi \<Rightarrow> 'b backend \<Rightarrow> devcfg \<Rightarrow> nat \<Rightarrow> 'b dev \<Rightarrow> 'b dev res" where
  "service_queue fuel A bk cfg q d =
     bindR (require Index_Out_Of_Bounds
              (q < length (desc cfg) \<and> q < length (avail cfg) \<and> q < length (used cfg)
               \<and> q < length (processed d))) (\<lambda>_.
     let av = unat (avail cfg ! q); p = processed d ! q in
     bindR (ld16 VIEW (memory d) (av + avail_idx A)) (\<lambda>idx.
       if p \<noteq> idx \<and> queue_has_data bk q (dclass d) then
         bindR (ld16 VIEW (memory d) (av + avail_ring A + 2 * (unat p mod queue_size))) (\<lambda>i.
         bindR (walk_chain fuel A bk (starting_address_of cfg) (desc cfg ! q) q i 0 (dclass d, memory d)) (\<lambda>r.
         bindR (put_used A (used cfg ! q) i (fst r) (snd (snd r))) (\<lambda>m'.
           Inr (set_interrupt A cfg
                  (d\<lparr>memory := m', dclass := fst (snd r), processed := (processed d)[q := p + 1]\<rparr>)))))
       else Inr d))"

fun service_all ::
  "nat \<Rightarrow> vring_abi \<Rightarrow> 'b backend \<Rightarrow> devcfg \<Rightarrow> nat list \<Rightarrow> 'b dev \<Rightarrow> 'b dev res" where
  "service_all fuel A bk cfg [] d = Inr d"
| "service_all fuel A bk cfg (q # qs) d =
     bindR (service_queue fuel A bk cfg q d) (service_all fuel A bk cfg qs)"

text \<open>\<open>device_loop\<close> over what each round meets: the exit flag, the value of the magic register, and
  what driver and network do to memory and device class before the round. \<open>Inl\<close> in the result
  pair: the loop has returned; \<open>Inr\<close>: it is still running.\<close>

record 'b round =
  r_exit :: bool
  r_magic :: u32
  r_env :: "'b \<times> mem \<Rightarrow> 'b \<times> mem"

text \<open>\<open>'v' | 'i' << 8 | 'r' << 16 | 't' << 24\<close>\<close>

definition VIRT_MAGIC :: u32 where
  "VIRT_MAGIC = 0x76 OR push_bit 8 0x69 OR push_bit 16 0x72 OR push_bit 24 0x74"

definition disturb :: "'b round \<Rightarrow> 'b dev \<Rightarrow> 'b dev" where
  "disturb r d = (let (b, m) = r_env r (dclass d, memory d) in d\<lparr>dclass := b, memory := m\<rparr>)"

fun device_rounds ::
  "nat \<Rightarrow> vring_abi \<Rightarrow> 'b backend \<Rightarrow> devcfg \<Rightarrow> 'b round list \<Rightarrow> 'b dev \<Rightarrow> ('b dev + 'b dev) res" where
  "device_rounds fuel A bk cfg [] d = Inr (Inr d)"
| "device_rounds fuel A bk cfg (r # rs) d =
     (if r_exit r then Inr (Inl d)
      else if r_magic r \<noteq> VIRT_MAGIC then Inr (Inl d)
      else bindR (service_all fuel A bk cfg [0..<num_queues bk] (ack_interrupt (disturb r d)))
             (device_rounds fuel A bk cfg rs))"

definition device_loop ::
  "nat \<Rightarrow> vring_abi \<Rightarrow> 'b backend \<Rightarrow> devcfg \<Rightarrow> 'b round list \<Rightarrow> 'b dev \<Rightarrow> ('b dev + 'b dev) res" where
  "device_loop fuel A bk cfg rs d =
     device_rounds fuel A bk cfg rs (d\<lparr>processed := replicate (num_queues bk) 0\<rparr>)"

section \<open>Chains as lists\<close>

text \<open>The chain that starts at descriptor \<open>i\<close> as it stands in memory: buffers and lengths, in
  order. \<open>None\<close>: it does not end within \<open>f\<close> descriptors.\<close>

fun chain_at :: "nat \<Rightarrow> vring_abi \<Rightarrow> mem \<Rightarrow> u64 \<Rightarrow> u64 \<Rightarrow> u16 \<Rightarrow> (u64 \<times> u32) list option" where
  "chain_at 0 A m start D i = None"
| "chain_at (Suc f) A m start D i =
     (let e = desc_at A D i;
          buf = (guest_offset start (val64 m (e + desc_addr A)), val32 m (e + desc_len A))
      in if val16 m (e + desc_flags A) AND DESC_F_NEXT A \<noteq> 0
         then map_option ((#) buf) (chain_at f A m start D (val16 m (e + desc_next A)))
         else Some [buf])"

datatype chain_op = O_Start | O_Data | O_Complete

definition run_op :: "'b backend \<Rightarrow> chain_op \<Rightarrow> nat \<Rightarrow> u64 \<Rightarrow> u64 \<Rightarrow> 'b \<times> mem \<Rightarrow> ('b \<times> mem) res" where
  "run_op bk c =
     (case c of O_Start \<Rightarrow> process_queue_start bk | O_Data \<Rightarrow> process_queue_data bk
              | O_Complete \<Rightarrow> process_queue_complete bk)"

text \<open>Which operation sees which buffer: all but the last buffer are header (while fewer bytes than
  the header have passed) or data, the last one completes.\<close>

fun chain_ops :: "u64 \<Rightarrow> u64 \<Rightarrow> (u64 \<times> u32) list \<Rightarrow> (chain_op \<times> u64 \<times> u32) list" where
  "chain_ops h n [] = []"
| "chain_ops h n [(p, l)] = [(O_Complete, p, l)]"
| "chain_ops h n ((p, l) # b # bs) =
     ((if n < h then O_Start else O_Data), p, l) # chain_ops h (n + ucast l) (b # bs)"

fun run_ops :: "'b backend \<Rightarrow> nat \<Rightarrow> (chain_op \<times> u64 \<times> u32) list \<Rightarrow> 'b \<times> mem \<Rightarrow> ('b \<times> mem) res" where
  "run_ops bk q [] s = Inr s"
| "run_ops bk q ((c, p, l) # ops) s = bindR (run_op bk c q p (ucast l) s) (run_ops bk q ops)"

definition chain_len :: "(u64 \<times> u32) list \<Rightarrow> u64" where
  "chain_len ds = sum_list (map (\<lambda>(p, l). ucast l) ds)"

lemma chain_len_simps [simp]: "chain_len [] = 0" "chain_len ((p, l) # ds) = ucast l + chain_len ds"
  by (simp_all add: chain_len_def)

definition table_region :: "u64 \<Rightarrow> nat set" where
  "table_region D = span (unat D) (16 * 16384)"

definition table_mapped :: "u64 \<Rightarrow> bool" where
  "table_mapped D \<longleftrightarrow> unat D + 16 * 16384 \<le> VIEW"

lemma desc_at_bounds:
  assumes "abi_ok A"
  shows "unat D \<le> desc_at A D i" "desc_at A D i + 16 \<le> unat D + 16 * 16384"
proof -
  have "unat i mod 16384 < 16384" by simp
  then show "unat D \<le> desc_at A D i" "desc_at A D i + 16 \<le> unat D + 16 * 16384"
    using assms by (simp_all add: desc_at_def abi_ok_def queue_size_def)
qed

lemma desc_region:
  assumes "abi_ok A" and "k + n \<le> 16"
  shows "span (desc_at A D i + k) n \<subseteq> table_region D"
  unfolding table_region_def
  using desc_at_bounds [OF assms(1), of D i] assms(2) by (intro span_mono) auto

lemma desc_loads:
  assumes "abi_ok A" "table_mapped D" "same_on (table_region D) m m'"
  shows "ld32 VIEW m' (desc_at A D i + desc_len A) = Inr (val32 m (desc_at A D i + desc_len A))"
    "ld64 VIEW m' (desc_at A D i + desc_addr A) = Inr (val64 m (desc_at A D i + desc_addr A))"
    "ld16 VIEW m' (desc_at A D i + desc_flags A) = Inr (val16 m (desc_at A D i + desc_flags A))"
    "ld16 VIEW m' (desc_at A D i + desc_next A) = Inr (val16 m (desc_at A D i + desc_next A))"
proof -
  note b = desc_at_bounds [OF assms(1), of D i]
  note v = same_on_vals [OF assms(3)]
  show "ld32 VIEW m' (desc_at A D i + desc_len A) = Inr (val32 m (desc_at A D i + desc_len A))"
    using b assms(1,2) v(2) [OF desc_region [OF assms(1), of 8 4 D i]]
    by (simp add: table_mapped_def abi_ok_def)
  show "ld64 VIEW m' (desc_at A D i + desc_addr A) = Inr (val64 m (desc_at A D i + desc_addr A))"
    using b assms(1,2) v(3) [OF desc_region [OF assms(1), of 0 8 D i]]
    by (simp add: table_mapped_def abi_ok_def)
  show "ld16 VIEW m' (desc_at A D i + desc_flags A) = Inr (val16 m (desc_at A D i + desc_flags A))"
    using b assms(1,2) v(1) [OF desc_region [OF assms(1), of 12 2 D i]]
    by (simp add: table_mapped_def abi_ok_def)
  show "ld16 VIEW m' (desc_at A D i + desc_next A) = Inr (val16 m (desc_at A D i + desc_next A))"
    using b assms(1,2) v(1) [OF desc_region [OF assms(1), of 14 2 D i]]
    by (simp add: table_mapped_def abi_ok_def)
qed

section \<open>The contract of a device class\<close>

text \<open>\<open>reach c q p l\<close>: the bytes of guest memory that operation \<open>c\<close> may change when it is given
  the buffer at \<open>p\<close> of length \<open>l\<close>.\<close>

locale virtio_backend =
  fixes bk :: "'b backend"
    and reach :: "chain_op \<Rightarrow> nat \<Rightarrow> u64 \<Rightarrow> u64 \<Rightarrow> nat set"
  assumes op_frame: "run_op bk c q p l (b, m) = Inr (b', m') \<Longrightarrow> same_on (- reach c q p l) m m'"
begin

lemma op_same_on:
  "run_op bk c q p l (b, m) = Inr (b', m') \<Longrightarrow> reach c q p l \<inter> R = {} \<Longrightarrow> same_on R m m'"
  using same_on_subset [OF op_frame] by blast

lemma ops_same_on:
  "run_ops bk q ops (b, m) = Inr (b', m') \<Longrightarrow>
     \<forall>(c, p, l) \<in> set ops. reach c q p (ucast l) \<inter> R = {} \<Longrightarrow> same_on R m m'"
proof (induction ops arbitrary: b m)
  case Nil
  then show ?case by simp
next
  case (Cons x ops)
  obtain c p l where x: "x = (c, p, l)" by (cases x) blast
  then obtain b1 m1 where
    "run_op bk c q p (ucast l) (b, m) = Inr (b1, m1)" "run_ops bk q ops (b1, m1) = Inr (b', m')"
    using Cons.prems by (auto simp: bindR_Inr_iff)
  then show ?case
    using Cons x op_same_on [of c q p "ucast l" b m b1 m1 R] same_on_trans [of R m m1 m'] by auto
qed

text \<open>The walk over a live table is the walk over the chain as it stood, when no buffer of the chain
  reaches the table.\<close>

lemma walk_is_run:
  assumes "abi_ok A" "table_mapped D"
  shows "chain_at f A m start D i = Some ds \<Longrightarrow> same_on (table_region D) m (snd s) \<Longrightarrow>
     \<forall>(c, p, l) \<in> set (chain_ops (queue_header_size bk) n ds). reach c q p (ucast l) \<inter> table_region D = {} \<Longrightarrow>
     walk_chain f A bk start D q i n s =
       bindR (run_ops bk q (chain_ops (queue_header_size bk) n ds) s) (\<lambda>s'. Inr (n + chain_len ds, s'))"
proof (induction f arbitrary: i n s ds)
  case 0
  then show ?case by simp
next
  case (Suc f)
  note ld = desc_loads [OF assms Suc.prems(2), of i]
  let ?e = "desc_at A D i"
  let ?p = "guest_offset start (val64 m (?e + desc_addr A))" and ?l = "val32 m (?e + desc_len A)"
  show ?case
  proof (cases "val16 m (?e + desc_flags A) AND DESC_F_NEXT A \<noteq> 0")
    case False
    then have ds: "ds = [(?p, ?l)]" using Suc.prems(1) by (simp add: Let_def)
    show ?thesis using False by (simp add: ds ld run_op_def bindR_def split: sum.splits)
  next
    case True
    then obtain ds' where ds': "chain_at f A m start D (val16 m (?e + desc_next A)) = Some ds'"
      "ds = (?p, ?l) # ds'"
      using Suc.prems(1) by (auto simp: Let_def)
    then obtain b bs where bs: "ds' = b # bs"
      by (cases f) (auto simp: Let_def split: if_splits)
    let ?c = "if n < queue_header_size bk then O_Start else O_Data"
    have op: "(if n < queue_header_size bk then process_queue_start bk else process_queue_data bk)
        = run_op bk ?c" by (simp add: run_op_def)
    have ops: "chain_ops (queue_header_size bk) n ds
        = (?c, ?p, ?l) # chain_ops (queue_header_size bk) (n + ucast ?l) ds'"
      by (simp add: ds'(2) bs)
    show ?thesis
    proof (cases "run_op bk ?c q ?p (ucast ?l) s")
      case (Inl e)
      then show ?thesis using True unfolding ops by (simp add: ld op)
    next
      case (Inr s')
      obtain b0 m0 b1 m1 where s: "s = (b0, m0)" "s' = (b1, m1)" by fastforce
      have "same_on (table_region D) m0 m1"
        using op_same_on [of ?c q ?p "ucast ?l" b0 m0 b1 m1] Inr Suc.prems(3) s unfolding ops by auto
      then have m1: "same_on (table_region D) m (snd s')"
        using same_on_trans Suc.prems(2) s by simp
      have "walk_chain f A bk start D q (val16 m (?e + desc_next A)) (n + ucast ?l) s' =
          bindR (run_ops bk q (chain_ops (queue_header_size bk) (n + ucast ?l) ds') s')
            (\<lambda>s'. Inr (n + ucast ?l + chain_len ds', s'))"
        using Suc.prems(3) unfolding ops by (intro Suc.IH [OF ds'(1) m1]) simp
      then show ?thesis
        using True Inr desc_loads(4) [OF assms m1] unfolding ops
        by (simp add: ld op ds'(2) add.assoc)
    qed
  qed
qed

end

section \<open>Rings as lists\<close>

text \<open>\<open>todo\<close>: the heads the driver has made available and the device has not taken, oldest first.
  \<open>used_count\<close> and \<open>used_elem\<close> read the used ring the way the driver does.\<close>

definition avail_at :: "vring_abi \<Rightarrow> mem \<Rightarrow> u64 \<Rightarrow> u16 \<Rightarrow> u16" where
  "avail_at A m V k = val16 m (unat V + avail_ring A + 2 * (unat k mod queue_size))"

definition todo :: "vring_abi \<Rightarrow> mem \<Rightarrow> u64 \<Rightarrow> u16 \<Rightarrow> u16 list" where
  "todo A m V p =
     map (\<lambda>k. avail_at A m V (p + of_nat k)) [0..<unat (val16 m (unat V + avail_idx A) - p)]"

definition used_count :: "vring_abi \<Rightarrow> mem \<Rightarrow> u64 \<Rightarrow> u16" where
  "used_count A m U = val16 m (unat U + used_idx A)"

definition used_elem :: "vring_abi \<Rightarrow> mem \<Rightarrow> u64 \<Rightarrow> u16 \<Rightarrow> u32 \<times> u32" where
  "used_elem A m U k =
     (let e = unat U + used_ring A + elem_size A * (unat k mod queue_size)
      in (val32 m (e + elem_id A), val32 m (e + elem_len A)))"

definition avail_region :: "u64 \<Rightarrow> nat set" where
  "avail_region V = span (unat V) (4 + 2 * 16384)"

definition used_region :: "u64 \<Rightarrow> nat set" where
  "used_region U = span (unat U) (4 + 8 * 16384)"

definition rings_ok :: "devcfg \<Rightarrow> nat \<Rightarrow> bool" where
  "rings_ok cfg q \<longleftrightarrow>
     q < length (desc cfg) \<and> q < length (avail cfg) \<and> q < length (used cfg)
     \<and> unat (desc cfg ! q) + 16 * 16384 \<le> VIEW \<and> unat (avail cfg ! q) + (4 + 2 * 16384) \<le> VIEW
     \<and> unat (used cfg ! q) + (4 + 8 * 16384) \<le> VIEW
     \<and> used_region (used cfg ! q) \<inter> avail_region (avail cfg ! q) = {}"

definition ring_region :: "devcfg \<Rightarrow> nat \<Rightarrow> nat set" where
  "ring_region cfg q =
     table_region (desc cfg ! q) \<union> avail_region (avail cfg ! q) \<union> used_region (used cfg ! q)"

lemma u16_mod_mod: "unat (x :: u16) mod queue_size < queue_size"
  by (simp add: queue_size_def)

lemma avail_region_slot:
  assumes "abi_ok A"
  shows "span (unat V + avail_ring A + 2 * (unat (k :: u16) mod queue_size)) 2 \<subseteq> avail_region V"
    "span (unat V + avail_idx A) 2 \<subseteq> avail_region V"
  unfolding avail_region_def
  using assms u16_mod_mod [of k] by (intro span_mono; simp add: abi_ok_def queue_size_def)+

lemma todo_same:
  assumes "abi_ok A" "same_on (avail_region V) m m'"
  shows "todo A m' V p = todo A m V p"
  using same_on_vals(1) [OF assms(2) avail_region_slot(1) [OF assms(1)]]
    same_on_vals(1) [OF assms(2) avail_region_slot(2) [OF assms(1)]]
  by (simp add: todo_def avail_at_def)

lemma todo_Nil_iff: "todo A m V p = [] \<longleftrightarrow> p = val16 m (unat V + avail_idx A)"
proof -
  have "unat (val16 m (unat V + avail_idx A) - p) = 0 \<longleftrightarrow> p = val16 m (unat V + avail_idx A)"
    by (auto simp: unat_eq_0)
  then show ?thesis by (simp add: todo_def)
qed

lemma todo_Cons:
  assumes "p \<noteq> val16 m (unat V + avail_idx A)"
  shows "todo A m V p = avail_at A m V p # todo A m V (p + 1)"
proof -
  let ?n = "val16 m (unat V + avail_idx A) - p"
  have "?n \<noteq> 0" using assms by auto
  then have n: "unat ?n = Suc (unat (val16 m (unat V + avail_idx A) - (p + 1)))"
    using unat_minus_one [of ?n] by (simp add: diff_diff_add [symmetric] unat_gt_0)
  show ?thesis
    unfolding todo_def n upt_conv_Cons [OF zero_less_Suc]
    by (simp add: map_Suc_upt [symmetric] add.assoc add.commute [of 1] del: upt_Suc)
qed

section \<open>Publishing a used element\<close>

text \<open>The three stores of \<open>put_used\<close> in their order.\<close>

definition used_stores :: "vring_abi \<Rightarrow> u64 \<Rightarrow> u16 \<Rightarrow> u64 \<Rightarrow> mem \<Rightarrow> (nat \<times> u8 list) list" where
  "used_stores A U i n m =
     (let u = used_count A m U; e = unat U + used_ring A + elem_size A * (unat u mod queue_size)
      in [(e + elem_id A, bytes32 (ucast i)), (e + elem_len A, bytes32 (ucast n)),
          (unat U + used_idx A, bytes16 (u + 1))])"

definition apply_stores :: "(nat \<times> u8 list) list \<Rightarrow> mem \<Rightarrow> mem" where
  "apply_stores ws m = fold (\<lambda>(p, bs) m. poke m p bs) ws m"

lemma put_used_stores:
  assumes "abi_ok A" "unat U + (4 + 8 * 16384) \<le> VIEW"
  shows "put_used A U i n m = Inr (apply_stores (used_stores A U i n m) m)"
proof -
  have "unat (val16 m (unat U + 2)) mod 16384 < 16384" by simp
  then show ?thesis
    using assms
    by (simp add: put_used_def used_stores_def apply_stores_def used_count_def abi_ok_def
        queue_size_def Let_def)
qed

lemma slot_apart:
  assumes "unat (j :: u16) mod 16384 \<noteq> unat k mod 16384"
  shows "U + 4 + 8 * (unat j mod 16384) + 8 \<le> U + 4 + 8 * (unat k mod 16384)
    \<or> U + 4 + 8 * (unat k mod 16384) + 8 \<le> U + 4 + 8 * (unat j mod 16384)"
  using assms by linarith

lemma stores_read:
  fixes U :: u64 and i j :: u16 and n :: u64 and m :: mem
  assumes "abi_ok A" "k \<le> 3"
  defines "m' \<equiv> apply_stores (take k (used_stores A U i n m)) m"
  shows "used_count A m' U = (if k = 3 then used_count A m U + 1 else used_count A m U)"
    "unat j mod 16384 \<noteq> unat (used_count A m U) mod 16384 \<Longrightarrow> used_elem A m' U j = used_elem A m U j"
    "k = 3 \<Longrightarrow> used_elem A m' U (used_count A m U) = (ucast i, ucast n)"
    "same_on (- used_region U) m m'"
proof -
  let ?u = "used_count A m U"
  have lt: "unat ?u mod 16384 < 16384" by simp
  have k: "k = 0 \<or> k = 1 \<or> k = 2 \<or> k = 3" using assms(2) by presburger
  show "used_count A m' U = (if k = 3 then ?u + 1 else ?u)"
    using k assms(1)
    by (auto simp: m'_def apply_stores_def used_stores_def used_count_def abi_ok_def
        queue_size_def Let_def mem_simps numeral_2_eq_2 numeral_3_eq_3)
  show "used_elem A m' U j = used_elem A m U j" if ne: "unat j mod 16384 \<noteq> unat ?u mod 16384"
    using k assms(1) slot_apart [OF ne, of "unat U"]
    by (auto simp: m'_def apply_stores_def used_stores_def used_elem_def abi_ok_def
        queue_size_def Let_def mem_simps numeral_2_eq_2 numeral_3_eq_3)
  show "used_elem A m' U ?u = (ucast i, ucast n)" if "k = 3"
    using that assms(1)
    by (auto simp: m'_def apply_stores_def used_stores_def used_elem_def used_count_def abi_ok_def
        queue_size_def Let_def mem_simps)
  show "same_on (- used_region U) m m'"
    using k assms(1) lt
    by (auto simp: m'_def apply_stores_def used_stores_def abi_ok_def used_region_def poke_def
        same_on_def queue_size_def Let_def numeral_2_eq_2 numeral_3_eq_3)
qed

section \<open>Serving one chain\<close>

definition ops_apart ::
  "(chain_op \<Rightarrow> nat \<Rightarrow> u64 \<Rightarrow> u64 \<Rightarrow> nat set) \<Rightarrow> nat \<Rightarrow> nat set \<Rightarrow> (chain_op \<times> u64 \<times> u32) list \<Rightarrow> bool" where
  "ops_apart reach q R ops \<longleftrightarrow> (\<forall>(c, p, l) \<in> set ops. reach c q p (ucast l) \<inter> R = {})"

lemma ops_apart_subset: "ops_apart reach q R ops \<Longrightarrow> S \<subseteq> R \<Longrightarrow> ops_apart reach q S ops"
  unfolding ops_apart_def by blast

text \<open>The memory after a service whose operations have left \<open>m\<close>.\<close>

definition publish :: "vring_abi \<Rightarrow> u64 \<Rightarrow> u16 \<Rightarrow> u64 \<Rightarrow> mem \<Rightarrow> mem" where
  "publish A U i n m = apply_stores (used_stores A U i n m) m"

lemma publish_reads:
  assumes "abi_ok A"
  shows "used_count A (publish A U i n m) U = used_count A m U + 1"
    "unat j mod 16384 \<noteq> unat (used_count A m U) mod 16384 \<Longrightarrow>
       used_elem A (publish A U i n m) U j = used_elem A m U j"
    "used_elem A (publish A U i n m) U (used_count A m U) = (ucast i, ucast n)"
    "same_on (- used_region U) m (publish A U i n m)"
proof -
  have "publish A U i n m = apply_stores (take 3 (used_stores A U i n m)) m"
    by (simp add: publish_def used_stores_def Let_def)
  then show "used_count A (publish A U i n m) U = used_count A m U + 1"
    "unat j mod 16384 \<noteq> unat (used_count A m U) mod 16384 \<Longrightarrow>
       used_elem A (publish A U i n m) U j = used_elem A m U j"
    "used_elem A (publish A U i n m) U (used_count A m U) = (ucast i, ucast n)"
    "same_on (- used_region U) m (publish A U i n m)"
    using stores_read [OF assms, of 3] by simp_all
qed

lemma used_same:
  assumes "abi_ok A" "same_on (used_region U) m m'"
  shows "used_count A m' U = used_count A m U" "used_elem A m' U j = used_elem A m U j"
proof -
  have "span (unat U + 2) 2 \<subseteq> used_region U"
    unfolding used_region_def by (intro span_mono) simp_all
  then show "used_count A m' U = used_count A m U"
    using assms same_on_vals(1) [OF assms(2)] by (simp add: used_count_def abi_ok_def)
  have lt: "unat j mod 16384 < 16384" by simp
  have "span (unat U + 4 + 8 * (unat j mod 16384)) 4 \<subseteq> used_region U"
    "span (unat U + 4 + 8 * (unat j mod 16384) + 4) 4 \<subseteq> used_region U"
    unfolding used_region_def using lt by (intro span_mono; linarith)+
  then show "used_elem A m' U j = used_elem A m U j"
    using assms(1) same_on_vals(2) [OF assms(2)]
    by (simp add: used_elem_def abi_ok_def queue_size_def Let_def)
qed

definition skip_round :: "vring_abi \<Rightarrow> 'b backend \<Rightarrow> devcfg \<Rightarrow> nat \<Rightarrow> 'b dev \<Rightarrow> bool" where
  "skip_round A bk cfg q d \<longleftrightarrow>
     todo A (memory d) (avail cfg ! q) (processed d ! q) = [] \<or> \<not> queue_has_data bk q (dclass d)"

text \<open>The state after a complete service of the chain \<open>ds\<close> with head \<open>i\<close>.\<close>

definition served ::
  "vring_abi \<Rightarrow> devcfg \<Rightarrow> nat \<Rightarrow> u16 \<Rightarrow> (u64 \<times> u32) list \<Rightarrow> 'b \<times> mem \<Rightarrow> 'b dev \<Rightarrow> 'b dev" where
  "served A cfg q i ds s d =
     set_interrupt A cfg
       (d\<lparr>memory := publish A (used cfg ! q) i (chain_len ds) (snd s), dclass := fst s,
         processed := (processed d)[q := processed d ! q + 1]\<rparr>)"

lemma service_queue_skips:
  assumes "abi_ok A" "rings_ok cfg q" "q < length (processed d)" "skip_round A bk cfg q d"
  shows "service_queue fuel A bk cfg q d = Inr d"
  using assms by (auto simp: service_queue_def rings_ok_def skip_round_def todo_Nil_iff abi_ok_def Let_def)

lemma ring_regions:
  "table_region (desc cfg ! q) \<subseteq> ring_region cfg q" "avail_region (avail cfg ! q) \<subseteq> ring_region cfg q"
  "used_region (used cfg ! q) \<subseteq> ring_region cfg q"
  by (auto simp: ring_region_def)

context virtio_backend
begin

lemma run_ops_same:
  assumes "run_ops bk q ops s = Inr s'" "ops_apart reach q R ops"
  shows "same_on R (snd s) (snd s')"
  using ops_same_on [of q ops "fst s" "snd s" "fst s'" "snd s'" R] assms by (simp add: ops_apart_def)

lemma service_queue_serves:
  assumes A: "abi_ok A" and ok: "rings_ok cfg q" "q < length (processed d)"
    and i: "todo A (memory d) (avail cfg ! q) (processed d ! q) = i # is"
    and data: "queue_has_data bk q (dclass d)"
    and ds: "chain_at fuel A (memory d) (starting_address_of cfg) (desc cfg ! q) i = Some ds"
    and apart: "ops_apart reach q (ring_region cfg q) (chain_ops (queue_header_size bk) 0 ds)"
  shows "service_queue fuel A bk cfg q d =
           bindR (run_ops bk q (chain_ops (queue_header_size bk) 0 ds) (dclass d, memory d))
             (\<lambda>s. Inr (served A cfg q i ds s d))"
proof -
  let ?p = "processed d ! q" and ?V = "avail cfg ! q" and ?m = "memory d"
  let ?ops = "chain_ops (queue_header_size bk) 0 ds"
  have ne: "?p \<noteq> val16 ?m (unat ?V + avail_idx A)" using i todo_Nil_iff by (metis list.discI)
  have head: "avail_at A ?m ?V ?p = i" using i todo_Cons [OF ne] by simp
  have "unat ?p mod 16384 < 16384" by simp
  then have slot: "unat ?V + 4 + 2 * (unat ?p mod 16384) + 2 \<le> VIEW"
    using ok(1) unfolding rings_ok_def by linarith
  have ring: "ld16 VIEW ?m (unat ?V + avail_idx A) = Inr (val16 ?m (unat ?V + avail_idx A))"
    "ld16 VIEW ?m (unat ?V + avail_ring A + 2 * (unat ?p mod queue_size)) = Inr i"
    using A ok(1) head slot by (simp_all add: rings_ok_def abi_ok_def avail_at_def queue_size_def)
  have walk: "walk_chain fuel A bk (starting_address_of cfg) (desc cfg ! q) q i 0 (dclass d, ?m)
      = bindR (run_ops bk q ?ops (dclass d, ?m)) (\<lambda>s'. Inr (0 + chain_len ds, s'))"
    using ok(1) ops_apart_subset [OF apart ring_regions(1)]
    by (intro walk_is_run [OF A _ ds]) (simp_all add: table_mapped_def rings_ok_def ops_apart_def)
  have U: "unat (used cfg ! q) + (4 + 8 * 16384) \<le> VIEW" using ok(1) by (simp add: rings_ok_def)
  show ?thesis
    using ok(2) ok(1) [unfolded rings_ok_def] ne data
    by (simp add: service_queue_def Let_def ring walk bindR_assoc put_used_stores [OF A U]
        served_def publish_def)
qed

text \<open>What a service does to the rings, seen from the driver.\<close>

lemma served_rings:
  assumes A: "abi_ok A" and ok: "rings_ok cfg q" "q < length (processed d)"
    and i: "todo A (memory d) (avail cfg ! q) (processed d ! q) = i # is"
    and apart: "ops_apart reach q (ring_region cfg q) (chain_ops (queue_header_size bk) 0 ds)"
    and run: "run_ops bk q (chain_ops (queue_header_size bk) 0 ds) (dclass d, memory d) = Inr s"
  defines "d' \<equiv> served A cfg q i ds s d"
  shows "todo A (memory d') (avail cfg ! q) (processed d' ! q) = is"
    "used_count A (memory d') (used cfg ! q) = used_count A (memory d) (used cfg ! q) + 1"
    "used_elem A (memory d') (used cfg ! q) (used_count A (memory d) (used cfg ! q))
       = (ucast i, ucast (chain_len ds))"
    "unat j mod 16384 \<noteq> unat (used_count A (memory d) (used cfg ! q)) mod 16384 \<Longrightarrow>
       used_elem A (memory d') (used cfg ! q) j = used_elem A (memory d) (used cfg ! q) j"
    "interrupt_register d' = interrupt_register d @ [push_bit (interrupt_number cfg - 5) 1, 0]"
proof -
  let ?V = "avail cfg ! q" and ?U = "used cfg ! q"
  have same: "same_on (ring_region cfg q) (memory d) (snd s)"
    using run_ops_same [OF run apart] by simp
  note usame = used_same [OF A same_on_subset [OF same ring_regions(3)]]
  note pub = publish_reads [OF A, where U = ?U and i = i and n = "chain_len ds" and m = "snd s"]
  have mem: "memory d' = publish A ?U i (chain_len ds) (snd s)" "processed d' ! q = processed d ! q + 1"
    using ok(2) by (simp_all add: d'_def served_def set_interrupt_def)
  have "avail_region ?V \<subseteq> - used_region ?U" using ok(1) by (auto simp: rings_ok_def)
  then have av: "same_on (avail_region ?V) (memory d) (memory d')"
    using same_on_trans [OF same_on_subset [OF same ring_regions(2)]] same_on_subset [OF pub(4)]
    unfolding mem by blast
  have ne: "processed d ! q \<noteq> val16 (memory d) (unat ?V + avail_idx A)"
    using i todo_Nil_iff by (metis list.discI)
  show "todo A (memory d') ?V (processed d' ! q) = is"
    using todo_same [OF A av] todo_Cons [OF ne] i by (simp add: mem(2))
  show "used_count A (memory d') ?U = used_count A (memory d) ?U + 1"
    "used_elem A (memory d') ?U (used_count A (memory d) ?U) = (ucast i, ucast (chain_len ds))"
    using pub(1,3) usame by (simp_all add: mem(1))
  show "used_elem A (memory d') ?U j = used_elem A (memory d) ?U j"
    if "unat j mod 16384 \<noteq> unat (used_count A (memory d) ?U) mod 16384"
    using that pub(2) [of j] usame by (simp add: mem(1))
  show "interrupt_register d' = interrupt_register d @ [push_bit (interrupt_number cfg - 5) 1, 0]"
    by (simp add: d'_def served_def set_interrupt_def)
qed

end

section \<open>Driver and device interleaved\<close>

text \<open>\<open>published A m U base hs\<close>: the used ring, which stood at \<open>base\<close>, has since received \<open>hs\<close>; the
  last 16384 of them can be read back.\<close>

definition published :: "vring_abi \<Rightarrow> mem \<Rightarrow> u64 \<Rightarrow> u16 \<Rightarrow> (u32 \<times> u32) list \<Rightarrow> bool" where
  "published A m U base hs \<longleftrightarrow>
     used_count A m U = base + of_nat (length hs)
     \<and> (\<forall>k < length hs. length hs - k \<le> 16384 \<longrightarrow> used_elem A m U (base + of_nat k) = hs ! k)"

text \<open>Heads with byte counts, as the used ring shows them.\<close>

abbreviation used_entries :: "(u16 \<times> u32) list \<Rightarrow> (u32 \<times> u32) list" where
  "used_entries cs \<equiv> map (\<lambda>(i, l). (ucast i, l)) cs"

lemma slot_index: "unat (base + of_nat k :: u16) mod 16384 = (unat base + k) mod 16384"
proof -
  have "unat (base + of_nat k :: u16) = (unat base + k) mod 2 ^ 16"
    by (simp add: unat_word_ariths unat_of_nat mod_add_right_eq)
  then have "unat (base + of_nat k :: u16) mod 16384 = (unat base + k) mod 2 ^ 16 mod 16384" by simp
  also have "\<dots> = (unat base + k) mod 16384" by (rule mod_mod_cancel) simp
  finally show ?thesis .
qed

lemma slots_differ:
  assumes "k < n" "n - k < (16384 :: nat)"
  shows "unat (base + of_nat k :: u16) mod 16384 \<noteq> unat (base + of_nat n :: u16) mod 16384"
proof
  assume "unat (base + of_nat k :: u16) mod 16384 = unat (base + of_nat n :: u16) mod 16384"
  then have "(unat base + n) mod 16384 = (unat base + k) mod 16384" by (simp only: slot_index)
  then have "16384 dvd (unat base + n) - (unat base + k)"
    using assms(1) by (subst mod_eq_dvd_iff_nat [symmetric]) simp_all
  then have "16384 dvd n - k" by simp
  then show False using assms by (auto dest: dvd_imp_le)
qed

lemma published_same:
  "abi_ok A \<Longrightarrow> same_on (used_region U) m m' \<Longrightarrow> published A m U base hs \<Longrightarrow> published A m' U base hs"
  by (simp add: published_def used_same)

lemma published_snoc:
  assumes "published A m U base hs"
    and "used_count A m' U = used_count A m U + 1"
    and "used_elem A m' U (used_count A m U) = h"
    and "\<And>j. unat j mod 16384 \<noteq> unat (used_count A m U) mod 16384 \<Longrightarrow>
               used_elem A m' U j = used_elem A m U j"
  shows "published A m' U base (hs @ [h])"
proof -
  have count: "used_count A m U = base + of_nat (length hs)"
    using assms(1) by (simp add: published_def)
  have "used_elem A m' U (base + of_nat k) = (hs @ [h]) ! k"
    if k: "k < Suc (length hs)" "Suc (length hs) - k \<le> 16384" for k
  proof (cases "k = length hs")
    case True
    then show ?thesis using assms(3) by (simp add: count)
  next
    case False
    then have lt: "k < length hs" "length hs - k < 16384" using k by simp_all
    then have "used_elem A m U (base + of_nat k) = hs ! k"
      using assms(1) by (simp add: published_def)
    then show ?thesis
      using assms(4) [of "base + of_nat k"] slots_differ [OF lt, of base] lt
      by (simp add: count nth_append)
  qed
  then show ?thesis using assms(2) count by (simp add: published_def add.assoc)
qed

text \<open>\<open>posted\<close> is what the driver has made available so far, \<open>completed\<close> what the device has put into
  the used ring. A driver step may do anything to guest memory but write the used ring or take
  back what it has made available; anything may happen to the device class (packets arrive).\<close>

record 'b qrun =
  q_dev :: "'b dev"
  posted :: "u16 list"
  completed :: "(u16 \<times> u32) list"

inductive queue_step ::
  "nat \<Rightarrow> vring_abi \<Rightarrow> 'b backend \<Rightarrow> (chain_op \<Rightarrow> nat \<Rightarrow> u64 \<Rightarrow> u64 \<Rightarrow> nat set) \<Rightarrow> devcfg \<Rightarrow> nat
     \<Rightarrow> 'b qrun \<Rightarrow> 'b qrun \<Rightarrow> bool"
  for fuel A bk reach cfg q where
  driver: "todo A m' (avail cfg ! q) (processed (q_dev s) ! q)
             = todo A (memory (q_dev s)) (avail cfg ! q) (processed (q_dev s) ! q) @ hs \<Longrightarrow>
     same_on (used_region (used cfg ! q)) (memory (q_dev s)) m' \<Longrightarrow>
     queue_step fuel A bk reach cfg q s
       (s\<lparr>q_dev := (q_dev s)\<lparr>memory := m', dclass := b'\<rparr>, posted := posted s @ hs\<rparr>)"
| skip: "skip_round A bk cfg q (q_dev s) \<Longrightarrow> service_queue fuel A bk cfg q (q_dev s) = Inr d' \<Longrightarrow>
     queue_step fuel A bk reach cfg q s (s\<lparr>q_dev := d'\<rparr>)"
| serve: "\<not> skip_round A bk cfg q (q_dev s) \<Longrightarrow>
     i = hd (todo A (memory (q_dev s)) (avail cfg ! q) (processed (q_dev s) ! q)) \<Longrightarrow>
     chain_at fuel A (memory (q_dev s)) (starting_address_of cfg) (desc cfg ! q) i = Some ds \<Longrightarrow>
     ops_apart reach q (ring_region cfg q) (chain_ops (queue_header_size bk) 0 ds) \<Longrightarrow>
     service_queue fuel A bk cfg q (q_dev s) = Inr d' \<Longrightarrow>
     queue_step fuel A bk reach cfg q s
       (s\<lparr>q_dev := d', completed := completed s @ [(i, ucast (chain_len ds))]\<rparr>)"

definition queue_inv :: "vring_abi \<Rightarrow> devcfg \<Rightarrow> nat \<Rightarrow> u16 \<Rightarrow> 'b qrun \<Rightarrow> bool" where
  "queue_inv A cfg q base s \<longleftrightarrow>
     q < length (processed (q_dev s))
     \<and> posted s = map fst (completed s) @ todo A (memory (q_dev s)) (avail cfg ! q) (processed (q_dev s) ! q)
     \<and> published A (memory (q_dev s)) (used cfg ! q) base (used_entries (completed s))"

definition queue_start :: "vring_abi \<Rightarrow> devcfg \<Rightarrow> nat \<Rightarrow> 'b dev \<Rightarrow> 'b qrun" where
  "queue_start A cfg q d =
     \<lparr>q_dev = d, posted = todo A (memory d) (avail cfg ! q) (processed d ! q), completed = []\<rparr>"

lemma queue_start_inv:
  "q < length (processed d) \<Longrightarrow>
     queue_inv A cfg q (used_count A (memory d) (used cfg ! q)) (queue_start A cfg q d)"
  by (simp add: queue_inv_def queue_start_def published_def)

context virtio_backend
begin

lemma queue_step_inv:
  assumes A: "abi_ok A" and ok: "rings_ok cfg q"
  shows "queue_step fuel A bk reach cfg q s s' \<Longrightarrow> queue_inv A cfg q base s \<Longrightarrow> queue_inv A cfg q base s'"
proof (induction rule: queue_step.induct)
  case (driver m' s hs b')
  then show ?case using published_same [OF A] by (simp add: queue_inv_def)
next
  case (skip s d')
  then have "d' = q_dev s"
    using service_queue_skips [OF A ok _ skip(1), of fuel] by (simp add: queue_inv_def)
  then show ?case using skip by (simp add: queue_inv_def)
next
  case (serve s i ds d')
  let ?d = "q_dev s" and ?ops = "chain_ops (queue_header_size bk) 0 ds"
  have len: "q < length (processed ?d)" using serve.prems by (simp add: queue_inv_def)
  obtain "is" where i: "todo A (memory ?d) (avail cfg ! q) (processed ?d ! q) = i # is"
    and data: "queue_has_data bk q (dclass ?d)"
    using serve(1,2) by (cases "todo A (memory ?d) (avail cfg ! q) (processed ?d ! q)")
      (auto simp: skip_round_def)
  obtain t where t: "run_ops bk q ?ops (dclass ?d, memory ?d) = Inr t" "d' = served A cfg q i ds t ?d"
    using serve(5) service_queue_serves [OF A ok len i data serve(3,4)]
    by (auto simp: bindR_Inr_iff)
  note r = served_rings [OF A ok len i serve(4) t(1)]
  have "length (processed d') = length (processed ?d)"
    by (simp add: t(2) served_def set_interrupt_def)
  moreover have "published A (memory d') (used cfg ! q) base
      (used_entries (completed s) @ [(ucast i, ucast (chain_len ds))])"
    using serve.prems published_snoc [OF _ r(2-4)] unfolding t(2) queue_inv_def by blast
  ultimately show ?case
    using serve.prems i r(1) by (simp add: queue_inv_def t(2))
qed

lemma queue_steps_inv:
  assumes "abi_ok A" "rings_ok cfg q"
  shows "(queue_step fuel A bk reach cfg q)\<^sup>*\<^sup>* s s' \<Longrightarrow> queue_inv A cfg q base s \<Longrightarrow> queue_inv A cfg q base s'"
  by (induction rule: rtranclp_induct) (auto intro: queue_step_inv [OF assms])

lemma exactly_once:
  assumes "abi_ok A" "rings_ok cfg q" "q < length (processed d)"
    and "(queue_step fuel A bk reach cfg q)\<^sup>*\<^sup>* (queue_start A cfg q d) s"
  shows "posted s = map fst (completed s) @ todo A (memory (q_dev s)) (avail cfg ! q) (processed (q_dev s) ! q)
         \<and> published A (memory (q_dev s)) (used cfg ! q) (used_count A (memory d) (used cfg ! q))
             (used_entries (completed s))"
  using queue_steps_inv [OF assms(1,2,4) queue_start_inv [OF assms(3)]] by (simp add: queue_inv_def)

end

lemma service_queue_others:
  assumes "service_queue fuel A bk cfg q d = Inr d'"
  shows "length (processed d') = length (processed d)" "r \<noteq> q \<Longrightarrow> processed d' ! r = processed d ! r"
  using assms by (auto simp: service_queue_def set_interrupt_def Let_def bindR_Inr_iff split: if_splits)

section \<open>The order of the used ring's stores\<close>

text \<open>A used element becomes visible only when it is complete. The stores of the used ring are
  the element's id, its length, and last the index: after any proper prefix of them the driver
  still reads the old index and every element but the one slot being written, and after all of
  them it reads the new element under the old index.\<close>

theorem used_ring_published_last:
  assumes "abi_ok A" and "k \<le> 3" and "unat U + (4 + 8 * 16384) \<le> VIEW"
  shows "let m' = apply_stores (take k (used_stores A U i n m)) m in
         used_count A m' U = used_count A m U + (if k = 3 then 1 else 0)
         \<and> (\<forall>j. unat j mod 16384 = unat (used_count A m U) mod 16384
                \<or> used_elem A m' U j = used_elem A m U j)
         \<and> (k < 3 \<or> used_elem A m' U (used_count A m U) = (ucast i, ucast n)
                   \<and> put_used A U i n m = Inr m')"
proof -
  have "put_used A U i n m = Inr (apply_stores (take 3 (used_stores A U i n m)) m)"
    using put_used_stores [OF assms(1,3)] by (simp add: used_stores_def Let_def)
  then show ?thesis
    using assms(2) stores_read(1-3) [OF assms(1,2), where U = U and i = i and n = n and m = m] by (auto simp: Let_def)
qed

theorem used_ring_published_last_witness:
  "used_count linux_abi (apply_stores (take 2 (used_stores linux_abi 0x100000 5 513 (\<lambda>_. 0))) (\<lambda>_. 0)) 0x100000
     = used_count linux_abi (\<lambda>_. 0) 0x100000
   \<and> put_used linux_abi 0x100000 5 513 (\<lambda>_. 0)
     = Inr (apply_stores (take 3 (used_stores linux_abi 0x100000 5 513 (\<lambda>_. 0))) (\<lambda>_. 0))"
  using used_ring_published_last [OF abi_ok_linux, of 2 "0x100000" 5 513 "\<lambda>_. 0"]
    used_ring_published_last [OF abi_ok_linux, of 3 "0x100000" 5 513 "\<lambda>_. 0"]
  by (simp add: VIEW_def Let_def)

section \<open>How long a chain can be\<close>

text \<open>The table as an automaton: the successor of a descriptor, and whether there is one.\<close>

definition chain_next :: "vring_abi \<Rightarrow> mem \<Rightarrow> u64 \<Rightarrow> u16 \<Rightarrow> u16" where
  "chain_next A m D i = val16 m (desc_at A D i + desc_next A)"

definition chain_more :: "vring_abi \<Rightarrow> mem \<Rightarrow> u64 \<Rightarrow> u16 \<Rightarrow> bool" where
  "chain_more A m D i \<longleftrightarrow> val16 m (desc_at A D i + desc_flags A) AND DESC_F_NEXT A \<noteq> 0"

lemma chain_at_Suc:
  "chain_at (Suc f) A m start D i =
     (let buf = (guest_offset start (val64 m (desc_at A D i + desc_addr A)), val32 m (desc_at A D i + desc_len A))
      in if chain_more A m D i then map_option ((#) buf) (chain_at f A m start D (chain_next A m D i))
         else Some [buf])"
  by (simp add: chain_more_def chain_next_def Let_def)

declare chain_at.simps(2) [simp del]

lemma chain_at_cases:
  assumes "chain_at (Suc f) A m start D i = Some ds"
  obtains b where "\<not> chain_more A m D i" "ds = [b]"
  | b ds' where "chain_more A m D i" "ds = b # ds'"
      "chain_at f A m start D (chain_next A m D i) = Some ds'"
  using assms by (auto simp: chain_at_Suc Let_def simp del: chain_at.simps split: if_splits)

lemma chain_at_length: "chain_at f A m start D i = Some ds \<Longrightarrow> 0 < length ds \<and> length ds \<le> f"
proof (induction f arbitrary: i ds)
  case 0
  then show ?case by simp
next
  case (Suc f)
  from Suc.prems show ?case by (rule chain_at_cases) (auto dest: Suc.IH)
qed

lemma chain_at_fuel:
  "chain_at f A m start D i = Some ds \<Longrightarrow> length ds \<le> f' \<Longrightarrow> chain_at f' A m start D i = Some ds"
proof (induction f arbitrary: i ds f')
  case 0
  then show ?case by simp
next
  case (Suc f)
  have "0 < f'" using chain_at_length [OF Suc.prems(1)] Suc.prems(2) by linarith
  then obtain g where f': "f' = Suc g" by (cases f') simp_all
  show ?case
  proof (cases "chain_more A m D i")
    case False
    then show ?thesis using Suc.prems(1) unfolding f' chain_at_Suc by simp
  next
    case True
    then obtain b ds' where ds': "chain_at f A m start D (chain_next A m D i) = Some ds'" "ds = b # ds'"
      using chain_at_cases [OF Suc.prems(1)] by metis
    then have "chain_at g A m start D (chain_next A m D i) = Some ds'"
      using Suc.IH [of "chain_next A m D i" ds' g] Suc.prems(2) f' by simp
    then show ?thesis using Suc.prems(1) ds' True unfolding f' chain_at_Suc by simp
  qed
qed

lemma chain_at_visits:
  "chain_at f A m start D i = Some ds \<Longrightarrow>
     (\<forall>k. Suc k < length ds \<longrightarrow> chain_more A m D ((chain_next A m D ^^ k) i))
     \<and> \<not> chain_more A m D ((chain_next A m D ^^ (length ds - 1)) i)"
proof (induction f arbitrary: i ds)
  case 0
  then show ?case by simp
next
  case (Suc f)
  from Suc.prems show ?case
  proof (rule chain_at_cases)
    fix b
    assume "\<not> chain_more A m D i" "ds = [b]"
    then show ?thesis by simp
  next
    fix b ds'
    assume more: "chain_more A m D i" and ds: "ds = b # ds'"
      and ds': "chain_at f A m start D (chain_next A m D i) = Some ds'"
    note IH = Suc.IH [OF ds']
    have pos: "0 < length ds'" using chain_at_length [OF ds'] by simp
    have "chain_more A m D ((chain_next A m D ^^ k) i)" if "Suc k < length ds" for k
      using that more IH ds by (cases k) (simp_all add: funpow_swap1)
    moreover have "length ds - 1 = Suc (length ds' - 1)" using ds pos by simp
    ultimately show ?thesis using IH by (simp add: funpow_swap1)
  qed
qed

lemma chain_same_slot:
  assumes "unat i mod queue_size = unat j mod queue_size"
  shows "(chain_next A m D ^^ Suc t) i = (chain_next A m D ^^ Suc t) j"
    "chain_more A m D i = chain_more A m D j"
proof -
  have "desc_at A D i = desc_at A D j" using assms by (simp add: desc_at_def)
  then show "(chain_next A m D ^^ Suc t) i = (chain_next A m D ^^ Suc t) j"
    "chain_more A m D i = chain_more A m D j"
    by (simp_all add: funpow_Suc_right chain_next_def chain_more_def del: funpow.simps)
qed

lemma chain_distinct_slots:
  assumes ds: "chain_at f A m start D i = Some ds" and ab: "a < b" "b < length ds"
  shows "unat ((chain_next A m D ^^ a) i) mod queue_size \<noteq> unat ((chain_next A m D ^^ b) i) mod queue_size"
proof
  let ?it = "\<lambda>k. (chain_next A m D ^^ k) i"
  let ?t = "length ds - 1 - b"
  assume same: "unat (?it a) mod queue_size = unat (?it b) mod queue_size"
  have it: "(chain_next A m D ^^ t) (?it k) = ?it (t + k)" for t k by (simp add: funpow_add)
  have "chain_more A m D (?it (?t + a)) = chain_more A m D (?it (?t + b))"
    using chain_same_slot [OF same, where A = A and m = m and D = D] it by (cases ?t) (auto simp: it [symmetric] simp del: funpow.simps)
  moreover have "?t + b = length ds - 1" using ab by simp
  moreover have "Suc (?t + a) < length ds" using ab by simp
  ultimately show False using chain_at_visits [OF ds] by auto
qed

lemma chain_at_bound: "chain_at f A m start D i = Some ds \<Longrightarrow> length ds \<le> 16384"
proof -
  assume ds: "chain_at f A m start D i = Some ds"
  let ?slot = "\<lambda>k. unat ((chain_next A m D ^^ k) i) mod queue_size"
  have "?slot a \<noteq> ?slot b" if "a < length ds" "b < length ds" "a \<noteq> b" for a b
    using chain_distinct_slots [OF ds] that by (metis linorder_neqE_nat)
  then have "inj_on ?slot {..<length ds}" by (auto simp: inj_on_def)
  then have "card {..<length ds} \<le> card {..<queue_size}"
    by (rule card_inj_on_le) (auto simp: queue_size_def)
  then show ?thesis by (simp add: queue_size_def)
qed

context virtio_backend
begin

text \<open>A descriptor that names itself as its successor keeps the walk going for ever.\<close>

lemma self_loop_never_returns:
  assumes A: "abi_ok A" "table_mapped D"
    and loop: "chain_more A m D i" "unat (chain_next A m D i) mod queue_size = unat i mod queue_size"
    and apart: "\<And>c. reach c q (guest_offset start (val64 m (desc_at A D i + desc_addr A)))
                  (ucast (val32 m (desc_at A D i + desc_len A))) \<inter> table_region D = {}"
  shows "unat j mod queue_size = unat i mod queue_size \<Longrightarrow> same_on (table_region D) m (snd s) \<Longrightarrow>
     walk_chain f A bk start D q j n s \<noteq> Inr r"
proof (induction f arbitrary: j n s)
  case 0
  then show ?case by simp
next
  case (Suc f)
  have j: "desc_at A D j = desc_at A D i" using Suc.prems(1) by (simp add: desc_at_def)
  note ld = desc_loads [OF A Suc.prems(2), of i]
  let ?c = "if n < queue_header_size bk then O_Start else O_Data"
  have op: "(if n < queue_header_size bk then process_queue_start bk else process_queue_data bk)
      = run_op bk ?c" by (simp add: run_op_def)
  let ?p = "guest_offset start (val64 m (desc_at A D i + desc_addr A))"
  let ?l = "val32 m (desc_at A D i + desc_len A)"
  have more: "val16 m (desc_at A D i + desc_flags A) AND DESC_F_NEXT A \<noteq> 0"
    using loop(1) by (simp add: chain_more_def)
  show ?case
  proof (cases "run_op bk ?c q ?p (ucast ?l) s")
    case (Inl e)
    then show ?thesis using more by (simp add: j ld op)
  next
    case (Inr s')
    have "same_on (table_region D) (snd s) (snd s')"
      using op_same_on [of ?c q ?p "ucast ?l" "fst s" "snd s" "fst s'" "snd s'"] Inr apart by simp
    then have m': "same_on (table_region D) m (snd s')" using same_on_trans Suc.prems(2) by blast
    have nx: "ld16 VIEW (snd s') (desc_at A D i + desc_next A) = Inr (chain_next A m D i)"
      using desc_loads(4) [OF A m'] by (simp add: chain_next_def)
    show ?thesis
      using more Inr Suc.IH [OF loop(2) m'] by (simp add: j ld op nx)
  qed
qed

end

text \<open>What the driver finds in its rings after a service.\<close>

definition ring_advanced :: "vring_abi \<Rightarrow> devcfg \<Rightarrow> nat \<Rightarrow> 'b dev \<Rightarrow> u16 \<Rightarrow> u32 \<Rightarrow> 'b dev \<Rightarrow> bool" where
  "ring_advanced A cfg q d i n d' \<longleftrightarrow>
     todo A (memory d') (avail cfg ! q) (processed d' ! q)
       = tl (todo A (memory d) (avail cfg ! q) (processed d ! q))
     \<and> used_count A (memory d') (used cfg ! q) = used_count A (memory d) (used cfg ! q) + 1
     \<and> used_elem A (memory d') (used cfg ! q) (used_count A (memory d) (used cfg ! q)) = (ucast i, n)
     \<and> interrupt_register d' = interrupt_register d @ [push_bit (interrupt_number cfg - 5) 1, 0]"

lemma unat_ucast_32_64 [simp]: "unat (ucast (l :: u32) :: u64) = unat l"
proof -
  have "unat l < 2 ^ 32" using unsigned_less [of l] by simp
  then show ?thesis by (simp add: unsigned_ucast_eq take_bit_nat_eq_self)
qed

section \<open>Sample rings\<close>

definition sample_cfg :: devcfg where
  "sample_cfg =
     \<lparr>starting_address_of = 0x400030000000, interrupt_number = 33, desc = [0x31000000, 0x32000000],
      avail = [0x31100000, 0x32100000], used = [0x31200000, 0x32200000]\<rparr>"

lemma sample_rings: "rings_ok sample_cfg 0" "rings_ok sample_cfg 1"
  by (auto simp: rings_ok_def sample_cfg_def VIEW_def used_region_def avail_region_def)

lemma zero_vals [simp]: "val16 (\<lambda>_. 0) p = 0" "val32 (\<lambda>_. 0) p = 0" "val64 (\<lambda>_. 0) p = 0"
  by (simp_all add: val16_def val32_def val64_def peek_def upt_rec)

end
