(* ===== verification/Virtio_Setup.thy ===== *)
theory Virtio_Setup
  imports Virtqueue
begin

text \<open>
  Bringing a virtio-mmio device up (\<^verbatim>\<open>console/virtiodevice.hpp\<close>): the constructor of \<open>VirtioDevice\<close>,
  which places the registers in the last megabytes of the tile's memory, and \<open>device_setup\<close>, which
  polls them through four phases. The driver sits in the guest; it appears as what it does to the
  registers between two iterations. Linux's status bits are the parameter \<open>mmio_abi\<close>.
\<close>

section \<open>Registers\<close>

record mmio_abi =
  S_DRIVER :: u32
  S_DRIVER_OK :: u32
  S_FEATURES_OK :: u32

definition mmio_abi_ok :: "mmio_abi \<Rightarrow> bool" where
  "mmio_abi_ok M \<longleftrightarrow> S_DRIVER M = 2 \<and> S_DRIVER_OK M = 4 \<and> S_FEATURES_OK M = 8"

definition linux_mmio_abi :: mmio_abi where
  "linux_mmio_abi = \<lparr>S_DRIVER = 2, S_DRIVER_OK = 4, S_FEATURES_OK = 8\<rparr>"

record mmio =
  magic_value :: u32
  version :: u32
  dev_id :: u32
  device_features :: u32
  device_features_sel :: u32
  driver_features :: u32
  driver_features_sel :: u32
  queue_num_max :: u32
  queue_ready :: u32
  queue_notify :: u32
  int_status :: u32
  interrupt_ack :: u32
  status :: u32
  queue_desc_low :: u32
  queue_desc_high :: u32
  queue_avail_low :: u32
  queue_avail_high :: u32
  queue_used_low :: u32
  queue_used_high :: u32
  queue_select :: u32
  sw_impl :: u32
  sel_generation :: u32

text \<open>The registers after the constructor: cleared, then four of them set.\<close>

definition mmio_reset :: mmio where
  "mmio_reset =
     \<lparr>magic_value = VIRT_MAGIC, version = 2, dev_id = 0, device_features = 0, device_features_sel = 0,
      driver_features = 0, driver_features_sel = 0, queue_num_max = of_nat queue_size, queue_ready = 0,
      queue_notify = 0, int_status = 0, interrupt_ack = 0, status = 0, queue_desc_low = 0,
      queue_desc_high = 0, queue_avail_low = 0, queue_avail_high = 0, queue_used_low = 0,
      queue_used_high = 0, queue_select = 0, sw_impl = 1, sel_generation = 0\<rparr>"

section \<open>The constructor\<close>

record vdev =
  v_l2cpu :: L2CPU
  v_window :: tlb_window
  v_irq_window :: tlb_window
  v_regs :: mmio

definition mmio_address :: "L2CPU \<Rightarrow> u64 \<Rightarrow> u64" where
  "mmio_address c mmio_region_offset = get_starting_address c + get_memory_size c - mmio_region_offset"

definition interrupt_address :: u64 where
  "interrupt_address = 0x2FF10000 + 0x404"

text \<open>The \<open>memset\<close> of 0x200 bytes and the register pointers must lie in the 2 MiB window.\<close>

definition VirtioDevice_new ::
  "l2cpu_env \<Rightarrow> kmd_reply \<Rightarrow> kmd_reply \<Rightarrow> noc \<Rightarrow> int \<Rightarrow> int \<Rightarrow> u64 \<Rightarrow> kevent list \<times> (vdev \<times> noc) res" where
  "VirtioDevice_new env kw ki N ttdevice l2cpu_idx mmio_region_offset =
     (case L2CPU_new env N l2cpu_idx ttdevice of
        (e0, Inl f) \<Rightarrow> (e0, Inl f)
      | (e0, Inr (c, N')) \<Rightarrow>
          (case get_persistent_2M_tlb_window c (mmio_address c mmio_region_offset) kw of
             (e1, Inl f) \<Rightarrow> (e0 @ e1, Inl f)
           | (e1, Inr w) \<Rightarrow>
               (case get_persistent_2M_tlb_window c interrupt_address ki of
                  (e2, Inl f) \<Rightarrow> (e0 @ e1 @ e2, Inl f)
                | (e2, Inr wi) \<Rightarrow>
                    if unat (TlbWindow_get_window w) + 0x200 \<le> unat TWO_MEG
                    then (e0 @ e1 @ e2,
                          Inr (\<lparr>v_l2cpu = c, v_window = w, v_irq_window = wi, v_regs = mmio_reset\<rparr>, N'))
                    else (e0 @ e1 @ e2, Inl Wild_Access))))"

section \<open>Setup as a state machine\<close>

text \<open>One phase per polling loop of \<open>device_setup\<close>; \<open>Ready\<close> is its return.\<close>

datatype phase = Wait_Driver | Negotiate | Queues | Wait_Ok | Ready

fun phases_left :: "phase \<Rightarrow> nat" where
  "phases_left Wait_Driver = 4"
| "phases_left Negotiate = 3"
| "phases_left Queues = 2"
| "phases_left Wait_Ok = 1"
| "phases_left Ready = 0"

lemma phases_left_inject: "phases_left p = phases_left q \<longleftrightarrow> p = q"
  by (cases p; cases q) simp_all

text \<open>The phases are ordered by their place in the code.\<close>

instantiation phase :: linorder
begin

definition less_eq_phase :: "phase \<Rightarrow> phase \<Rightarrow> bool" where
  "less_eq_phase p q \<longleftrightarrow> phases_left q \<le> phases_left p"

definition less_phase :: "phase \<Rightarrow> phase \<Rightarrow> bool" where
  "less_phase p q \<longleftrightarrow> phases_left q < phases_left p"

instance
  by standard (auto simp: less_eq_phase_def less_phase_def phases_left_inject [symmetric])

end

record dsetup =
  regs :: mmio
  phase :: phase
  prev_sel_generation :: u32
  descriptor_table_address :: "u64 list"
  available_ring_address :: "u64 list"
  used_ring_address :: "u64 list"

definition setup_start :: "mmio \<Rightarrow> dsetup" where
  "setup_start r =
     \<lparr>regs = r, phase = Wait_Driver, prev_sel_generation = 0, descriptor_table_address = [],
      available_ring_address = [], used_ring_address = []\<rparr>"

text \<open>The two device lists of the class: the features the device class offers, and
  \<open>driver_features_list\<close>, which nothing sets.\<close>

definition driver_features_list :: "u32 list" where
  "driver_features_list = [0, 0]"

definition list_at :: "'a list \<Rightarrow> u32 \<Rightarrow> 'a res" where
  "list_at xs i = (if unat i < length xs then Inr (xs ! unat i) else Inl Index_Out_Of_Bounds)"

definition answer_features :: "u32 list \<Rightarrow> dsetup \<Rightarrow> dsetup res" where
  "answer_features feats s =
     (let r = regs s; g = sel_generation r in
      if g \<noteq> prev_sel_generation s then
        bindR (list_at feats (device_features_sel r)) (\<lambda>df.
        bindR (list_at driver_features_list (driver_features_sel r)) (\<lambda>vf.
          Inr (s\<lparr>regs := r\<lparr>device_features := df, driver_features := vf, sel_generation := g + 1\<rparr>,
                 prev_sel_generation := g + 1\<rparr>)))
      else Inr s)"

definition join64 :: "u32 \<Rightarrow> u32 \<Rightarrow> u64" where
  "join64 high low = push_bit 32 (ucast high) OR ucast low"

text \<open>One iteration of the queue loop; the flag says that it breaks.\<close>

definition answer_queue :: "nat \<Rightarrow> dsetup \<Rightarrow> (bool \<times> dsetup) res" where
  "answer_queue nq s =
     (let r = (regs s)\<lparr>queue_ready := 0\<rparr>; g = sel_generation r; q = unat (queue_select r) in
      if g \<noteq> prev_sel_generation s then
        bindR (require Index_Out_Of_Bounds
                 (q < length (descriptor_table_address s) \<and> q < length (available_ring_address s)
                  \<and> q < length (used_ring_address s))) (\<lambda>_.
          Inr (queue_select r = of_nat nq - 1,
               s\<lparr>regs := r\<lparr>sel_generation := g + 1\<rparr>, prev_sel_generation := g + 1,
                 descriptor_table_address := (descriptor_table_address s)[q := join64 (queue_desc_high r) (queue_desc_low r)],
                 available_ring_address := (available_ring_address s)[q := join64 (queue_avail_high r) (queue_avail_low r)],
                 used_ring_address := (used_ring_address s)[q := join64 (queue_used_high r) (queue_used_low r)]\<rparr>))
      else Inr (False, s\<lparr>regs := r\<rparr>))"

definition resize :: "nat \<Rightarrow> u64 list \<Rightarrow> u64 list" where
  "resize n xs = take n (xs @ replicate (n - length xs) 0)"

definition enter_queues :: "nat \<Rightarrow> dsetup \<Rightarrow> dsetup" where
  "enter_queues nq s =
     s\<lparr>phase := Queues,
       descriptor_table_address := resize nq (descriptor_table_address s),
       available_ring_address := resize nq (available_ring_address s),
       used_ring_address := resize nq (used_ring_address s)\<rparr>"

text \<open>One iteration of the loop the setup is in. With the exit flag set the loop condition fails and
  the setup goes on to the next one.\<close>

definition setup_step :: "mmio_abi \<Rightarrow> nat \<Rightarrow> u32 list \<Rightarrow> bool \<Rightarrow> dsetup \<Rightarrow> dsetup res" where
  "setup_step M nq feats exit_flag s =
     (case phase s of
        Wait_Driver \<Rightarrow>
          Inr (if exit_flag \<or> status (regs s) AND S_DRIVER M \<noteq> 0 then s\<lparr>phase := Negotiate\<rparr> else s)
      | Negotiate \<Rightarrow>
          if exit_flag then Inr (enter_queues nq s)
          else bindR (answer_features feats s) (\<lambda>s'.
            Inr (if status (regs s') AND S_FEATURES_OK M \<noteq> 0 then enter_queues nq s' else s'))
      | Queues \<Rightarrow>
          if exit_flag then Inr (s\<lparr>phase := Wait_Ok\<rparr>)
          else bindR (answer_queue nq s) (\<lambda>(last_one, s').
            Inr (if last_one then s'\<lparr>phase := Wait_Ok\<rparr> else s'))
      | Wait_Ok \<Rightarrow>
          Inr (if exit_flag \<or> status (regs s) AND S_DRIVER_OK M \<noteq> 0 then s\<lparr>phase := Ready\<rparr> else s)
      | Ready \<Rightarrow> Inr s)"

text \<open>\<open>device_setup\<close> over the inputs of its iterations: the exit flag and what the driver does to the
  registers before.\<close>

fun device_setup :: "mmio_abi \<Rightarrow> nat \<Rightarrow> u32 list \<Rightarrow> (bool \<times> (mmio \<Rightarrow> mmio)) list \<Rightarrow> dsetup \<Rightarrow> dsetup res" where
  "device_setup M nq feats [] s = Inr s"
| "device_setup M nq feats ((x, drv) # ins) s =
     bindR (setup_step M nq feats x (s\<lparr>regs := drv (regs s)\<rparr>)) (device_setup M nq feats ins)"

text \<open>The queue pointers, as offsets into the view, that the device loop runs on.\<close>

definition setup_cfg :: "u64 \<Rightarrow> nat \<Rightarrow> dsetup \<Rightarrow> devcfg" where
  "setup_cfg start irq s =
     \<lparr>starting_address_of = start, interrupt_number = irq,
      desc = map (guest_offset start) (descriptor_table_address s),
      avail = map (guest_offset start) (available_ring_address s),
      used = map (guest_offset start) (used_ring_address s)\<rparr>"

section \<open>What every iteration keeps\<close>

text \<open>From the queue phase on there is a place for each queue's addresses.\<close>

definition setup_typed :: "nat \<Rightarrow> dsetup \<Rightarrow> bool" where
  "setup_typed nq s \<longleftrightarrow>
     (Queues \<le> phase s \<longrightarrow>
        length (descriptor_table_address s) = nq \<and> length (available_ring_address s) = nq
        \<and> length (used_ring_address s) = nq)"

lemmas phase_order = less_eq_phase_def less_phase_def

lemma length_resize [simp]: "length (resize n xs) = n"
  by (simp add: resize_def)

lemma answer_features_same:
  "answer_features feats s = Inr s' \<Longrightarrow> phase s' = phase s \<and> (setup_typed nq s' \<longleftrightarrow> setup_typed nq s)"
  by (auto simp: answer_features_def setup_typed_def Let_def bindR_Inr_iff split: if_splits)

lemma answer_queue_same:
  "answer_queue nq s = Inr (e, s') \<Longrightarrow> phase s' = phase s \<and> (setup_typed n s' \<longleftrightarrow> setup_typed n s)"
  by (auto simp: answer_queue_def setup_typed_def Let_def bindR_Inr_iff split: if_splits)

lemma setup_step_typed:
  assumes "setup_step M nq feats x s = Inr s'" "setup_typed nq s"
  shows "setup_typed nq s' \<and> phase s \<le> phase s'"
proof (cases "phase s")
  case Negotiate
  then show ?thesis
    using assms answer_features_same [of feats s _ nq]
    by (auto simp: setup_step_def bindR_Inr_iff setup_typed_def enter_queues_def phase_order split: if_splits)
next
  case Queues
  then show ?thesis
    using assms answer_queue_same [of nq s _ _ nq]
    by (auto simp: setup_step_def bindR_Inr_iff setup_typed_def phase_order split: if_splits prod.splits)
qed (use assms in \<open>auto simp: setup_step_def setup_typed_def phase_order split: if_splits\<close>)

lemma device_setup_typed:
  "device_setup M nq feats ins s = Inr s' \<Longrightarrow> setup_typed nq s \<Longrightarrow> setup_typed nq s' \<and> phase s \<le> phase s'"
proof (induction ins arbitrary: s)
  case (Cons i ins)
  obtain x drv where i: "i = (x, drv)" by (cases i)
  let ?s = "s\<lparr>regs := drv (regs s)\<rparr>"
  obtain s1 where s1: "setup_step M nq feats x ?s = Inr s1" "device_setup M nq feats ins s1 = Inr s'"
    using Cons.prems(1) i by (auto simp: bindR_Inr_iff)
  have "setup_typed nq ?s" using Cons.prems(2) by (simp add: setup_typed_def)
  then show ?case
    using setup_step_typed [OF s1(1)] Cons.IH [OF s1(2)] by (auto intro: order_trans)
qed simp

text \<open>C33: setup only moves forward, and when it is over every queue has a pointer: whatever the driver
  does to the registers, a run of \<open>device_setup\<close> never goes back to an earlier phase, and when it has
  returned, the descriptor table, available ring and used ring lists have one entry per queue, so
  the loop's accesses to them are inside the vectors.\<close>

theorem setup_gives_every_queue:
  assumes "device_setup M nq feats ins (setup_start r) = Inr s" and "device_setup M nq feats ins' s = Inr s'"
  shows "phase s \<le> phase s'
     \<and> (phase s' = Ready \<longrightarrow>
          length (desc (setup_cfg start irq s')) = nq \<and> length (avail (setup_cfg start irq s')) = nq
          \<and> length (used (setup_cfg start irq s')) = nq)"
proof -
  have "setup_typed nq (setup_start r)" by (simp add: setup_typed_def setup_start_def phase_order)
  then have "setup_typed nq s" using device_setup_typed [OF assms(1)] by blast
  then show ?thesis
    using device_setup_typed [OF assms(2)] by (auto simp: setup_typed_def setup_cfg_def phase_order)
qed

theorem setup_gives_every_queue_witness:
  "\<exists>s. device_setup linux_mmio_abi 2 [0, 1] (replicate 4 (True, id)) (setup_start mmio_reset) = Inr s
     \<and> length (used (setup_cfg 0 33 s)) = 2"
proof -
  obtain s where s: "device_setup linux_mmio_abi 2 [0, 1] (replicate 4 (True, id)) (setup_start mmio_reset) = Inr s"
    "phase s = Ready"
    by (auto simp: numeral_eq_Suc setup_step_def enter_queues_def setup_start_def)
  then show ?thesis using setup_gives_every_queue [OF s(1), of "[]" s 0 33] by auto
qed

section \<open>The selector handshake\<close>

text \<open>Every request of the feature phase is answered once. A new generation number with both
  selectors in range gets the selected feature word and the number raised by one, and looking
  again without a new request changes nothing; a selector outside the two-element lists is an
  access past the array.\<close>

theorem features_answered_once:
  assumes "length feats = 2" "sel_generation (regs s) \<noteq> prev_sel_generation s"
  shows "if unat (device_features_sel (regs s)) < 2 \<and> unat (driver_features_sel (regs s)) < 2
         then \<exists>s'. answer_features feats s = Inr s'
                \<and> device_features (regs s') = feats ! unat (device_features_sel (regs s))
                \<and> sel_generation (regs s') = sel_generation (regs s) + 1
                \<and> status (regs s') = status (regs s) \<and> phase s' = phase s
                \<and> answer_features feats s' = Inr s'
         else answer_features feats s = Inl Index_Out_Of_Bounds"
  using assms
  by (auto simp: answer_features_def list_at_def driver_features_list_def Let_def)

theorem features_answered_once_witness:
  "\<exists>s'. answer_features [0, 1] (setup_start (mmio_reset\<lparr>sel_generation := 1, device_features_sel := 1\<rparr>)) = Inr s'
     \<and> device_features (regs s') = 1 \<and> sel_generation (regs s') = 2"
  using features_answered_once [of "[0, 1]" "setup_start (mmio_reset\<lparr>sel_generation := 1, device_features_sel := 1\<rparr>)"]
  by (auto simp: setup_start_def mmio_reset_def)

section \<open>Recording the queues\<close>

lemma join64_split: "join64 (ucast (drop_bit 32 a)) (ucast a) = a"
proof (rule bit_word_eqI)
  fix n
  assume "n < LENGTH(64)"
  then show "bit (join64 (ucast (drop_bit 32 a)) (ucast a)) n = bit a n"
    by (auto simp: join64_def bit_simps)
qed

text \<open>What a driver does for one queue: select it, write the three addresses in halves, raise the
  generation number.\<close>

definition post_queue :: "nat \<Rightarrow> u64 \<times> u64 \<times> u64 \<Rightarrow> mmio \<Rightarrow> mmio" where
  "post_queue k a r =
     (case a of (d, av, us) \<Rightarrow>
        r\<lparr>queue_select := of_nat k,
          queue_desc_low := ucast d, queue_desc_high := ucast (drop_bit 32 d),
          queue_avail_low := ucast av, queue_avail_high := ucast (drop_bit 32 av),
          queue_used_low := ucast us, queue_used_high := ucast (drop_bit 32 us),
          sel_generation := sel_generation r + 1\<rparr>)"

lemma device_setup_append:
  "device_setup M nq feats (xs @ ys) s = bindR (device_setup M nq feats xs s) (device_setup M nq feats ys)"
  by (induction xs arbitrary: s) (auto simp: bindR_def split: sum.splits)

text \<open>The state after \<open>k\<close> of the queues have been recorded.\<close>

definition recorded :: "nat \<Rightarrow> (u64 \<times> u64 \<times> u64) list \<Rightarrow> nat \<Rightarrow> dsetup \<Rightarrow> bool" where
  "recorded nq as k s \<longleftrightarrow>
     sel_generation (regs s) = prev_sel_generation s
     \<and> phase s = (if k < nq then Queues else Wait_Ok)
     \<and> descriptor_table_address s = take k (map fst as) @ replicate (nq - k) 0
     \<and> available_ring_address s = take k (map (fst \<circ> snd) as) @ replicate (nq - k) 0
     \<and> used_ring_address s = take k (map (snd \<circ> snd) as) @ replicate (nq - k) 0"

lemma record_update:
  "k < length xs \<Longrightarrow> k < n \<Longrightarrow> (take k (xs :: u64 list) @ replicate (n - k) 0)[k := xs ! k] = take (Suc k) xs @ replicate (n - Suc k) 0"
proof -
  assume k: "k < length xs" "k < n"
  have "replicate (n - k) (0 :: u64) = 0 # replicate (n - Suc k) 0"
    using k(2) by (metis Suc_diff_Suc replicate_Suc)
  then have "(replicate (n - k) 0)[0 := xs ! k] = xs ! k # replicate (n - Suc k) 0" by simp
  then show ?thesis using k(1) by (simp add: list_update_append take_Suc_conv_app_nth)
qed

lemma last_queue:
  assumes "k < nq" "nq < 2 ^ 32"
  shows "(of_nat k :: u32) = of_nat nq - 1 \<longleftrightarrow> Suc k = nq" "unat (of_nat k :: u32) = k"
proof -
  show k: "unat (of_nat k :: u32) = k" using assms by (intro unat_of_nat_32) simp
  have n: "(of_nat nq :: u32) - 1 = of_nat (nq - 1)" using assms by simp
  have "unat (of_nat (nq - 1) :: u32) = nq - 1" using assms by (intro unat_of_nat_32) simp
  then show "(of_nat k :: u32) = of_nat nq - 1 \<longleftrightarrow> Suc k = nq"
    unfolding n word_unat_eq_iff k using assms by auto
qed

lemma record_one:
  assumes "recorded nq as k s" "k < nq" "nq < 2 ^ 32" "length as = nq"
  shows "\<exists>s'. setup_step M nq feats False (s\<lparr>regs := post_queue k (as ! k) (regs s)\<rparr>) = Inr s'
              \<and> recorded nq as (Suc k) s'"
proof -
  obtain d av us where a: "as ! k = (d, av, us)" by (cases "as ! k") auto
  note q = last_queue [OF assms(2,3)]
  have "(take k (map fst as) @ replicate (nq - k) 0)[k := d] = take (Suc k) (map fst as) @ replicate (nq - Suc k) 0"
    "(take k (map (fst \<circ> snd) as) @ replicate (nq - k) 0)[k := av]
       = take (Suc k) (map (fst \<circ> snd) as) @ replicate (nq - Suc k) 0"
    "(take k (map (snd \<circ> snd) as) @ replicate (nq - k) 0)[k := us]
       = take (Suc k) (map (snd \<circ> snd) as) @ replicate (nq - Suc k) 0"
    using record_update [of k "map fst as" nq] record_update [of k "map (fst \<circ> snd) as" nq]
      record_update [of k "map (snd \<circ> snd) as" nq] assms(2,4) a by simp_all
  then show ?thesis
    using assms q
    by (auto simp: setup_step_def answer_queue_def Let_def recorded_def post_queue_def a join64_split)
qed

lemma record_all:
  assumes "recorded nq as 0 s" "nq < 2 ^ 32" "length as = nq"
  shows "k \<le> nq \<Longrightarrow>
     \<exists>s'. device_setup M nq feats (map (\<lambda>j. (False, post_queue j (as ! j))) [0..<k]) s = Inr s'
          \<and> recorded nq as k s'"
proof (induction k)
  case 0
  then show ?case using assms(1) by simp
next
  case (Suc k)
  then obtain s1 where s1: "device_setup M nq feats (map (\<lambda>j. (False, post_queue j (as ! j))) [0..<k]) s = Inr s1"
    "recorded nq as k s1" by auto
  then show ?case
    using record_one [OF s1(2) _ assms(2,3), of M feats] Suc.prems by (auto simp: device_setup_append)
qed

lemma recorded_start:
  assumes "sel_generation (regs s) = prev_sel_generation s" "0 < nq"
    and "descriptor_table_address s = []" "available_ring_address s = []" "used_ring_address s = []"
  shows "recorded nq as 0 (enter_queues nq s)"
  using assms by (simp add: recorded_def enter_queues_def resize_def)

text \<open>C15: a driver that announces its queues in order has exactly their addresses recorded: after
  one iteration per queue the setup is past the queue phase and the three lists are the announced
  descriptor, available and used addresses, each joined from its two halves.\<close>

theorem queues_recorded:
  assumes "sel_generation (regs s) = prev_sel_generation s" "0 < length as" "length as < 2 ^ 32"
    and "descriptor_table_address s = []" "available_ring_address s = []" "used_ring_address s = []"
  shows "\<exists>s'. device_setup M (length as) feats
                (map (\<lambda>j. (False, post_queue j (as ! j))) [0..<length as]) (enter_queues (length as) s) = Inr s'
     \<and> phase s' = Wait_Ok \<and> descriptor_table_address s' = map fst as
     \<and> available_ring_address s' = map (fst \<circ> snd) as \<and> used_ring_address s' = map (snd \<circ> snd) as"
  using record_all [OF recorded_start [OF assms(1,2,4-6)] assms(3) refl, of "length as" M feats]
  by (auto simp: recorded_def)

definition sample_queue_addresses :: "(u64 \<times> u64 \<times> u64) list" where
  "sample_queue_addresses =
     [(0x400031000000, 0x400031100000, 0x400031200000), (0x400032000000, 0x400032100000, 0x400032200000)]"

theorem queues_recorded_witness:
  "\<exists>s'. device_setup linux_mmio_abi 2 [0, 1]
          (map (\<lambda>j. (False, post_queue j (sample_queue_addresses ! j))) [0..<2])
          (enter_queues 2 (setup_start mmio_reset)) = Inr s'
     \<and> descriptor_table_address s' = [0x400031000000, 0x400032000000]"
proof -
  have len: "length sample_queue_addresses = 2"
    and fst: "map fst sample_queue_addresses = [0x400031000000, 0x400032000000]"
    by (simp_all add: sample_queue_addresses_def)
  show ?thesis
    using queues_recorded [of "setup_start mmio_reset" sample_queue_addresses linux_mmio_abi "[0, 1]"]
    unfolding len fst by (auto simp: setup_start_def mmio_reset_def)
qed

section \<open>A whole bring-up\<close>

text \<open>What a driver does from first to last: announce itself, ask for both feature words, accept, post
  its queues, go.\<close>

definition request_features :: "u32 \<Rightarrow> mmio \<Rightarrow> mmio" where
  "request_features w r =
     r\<lparr>device_features_sel := w, driver_features_sel := w, sel_generation := sel_generation r + 1\<rparr>"

definition add_status :: "u32 \<Rightarrow> mmio \<Rightarrow> mmio" where
  "add_status b r = r\<lparr>status := status r OR b\<rparr>"

definition bring_up :: "mmio_abi \<Rightarrow> (u64 \<times> u64 \<times> u64) list \<Rightarrow> (bool \<times> (mmio \<Rightarrow> mmio)) list" where
  "bring_up M as =
     [(False, add_status (S_DRIVER M)), (False, request_features 0), (False, request_features 1),
      (False, add_status (S_FEATURES_OK M))]
     @ map (\<lambda>j. (False, post_queue j (as ! j))) [0..<length as] @ [(False, add_status (S_DRIVER_OK M))]"

lemma status_bits:
  "mmio_abi_ok M \<Longrightarrow> S_DRIVER M AND S_FEATURES_OK M = 0"
  "mmio_abi_ok M \<Longrightarrow> (x OR S_DRIVER M) AND S_DRIVER M \<noteq> 0"
  "mmio_abi_ok M \<Longrightarrow> (x OR S_FEATURES_OK M) AND S_FEATURES_OK M \<noteq> 0"
  "mmio_abi_ok M \<Longrightarrow> (x OR S_DRIVER_OK M) AND S_DRIVER_OK M \<noteq> 0"
proof -
  have absorb: "(x OR b) AND b = b" for b :: u32 by (rule bit_word_eqI) (auto simp: bit_simps)
  show "mmio_abi_ok M \<Longrightarrow> S_DRIVER M AND S_FEATURES_OK M = 0" by (simp add: mmio_abi_ok_def)
  show "mmio_abi_ok M \<Longrightarrow> (x OR S_DRIVER M) AND S_DRIVER M \<noteq> 0"
    "mmio_abi_ok M \<Longrightarrow> (x OR S_FEATURES_OK M) AND S_FEATURES_OK M \<noteq> 0"
    "mmio_abi_ok M \<Longrightarrow> (x OR S_DRIVER_OK M) AND S_DRIVER_OK M \<noteq> 0"
    unfolding absorb by (simp_all add: mmio_abi_ok_def)
qed

lemma device_setup_Cons:
  "device_setup M nq feats ((x, drv) # ins) s =
     bindR (setup_step M nq feats x (s\<lparr>regs := drv (regs s)\<rparr>)) (device_setup M nq feats ins)"
  by simp

text \<open>The first four iterations: the setup has entered the queue phase with nothing recorded.\<close>

lemma bring_up_features:
  assumes M: "mmio_abi_ok M" and r: "status r = 0" "sel_generation r = 0" and feats: "length feats = 2"
  shows "\<exists>s. device_setup M nq feats [(False, add_status (S_DRIVER M)), (False, request_features 0),
            (False, request_features 1), (False, add_status (S_FEATURES_OK M))] (setup_start r)
          = Inr (enter_queues nq s)
       \<and> sel_generation (regs s) = prev_sel_generation s \<and> descriptor_table_address s = []
       \<and> available_ring_address s = [] \<and> used_ring_address s = []"
proof -
  have d0: "0 OR S_DRIVER M AND S_DRIVER M \<noteq> 0" and f: "S_DRIVER M AND S_FEATURES_OK M = 0"
    and fo: "(S_DRIVER M OR S_FEATURES_OK M) AND S_FEATURES_OK M \<noteq> 0"
    using status_bits(2) [OF M, of 0] status_bits(1,3) [OF M] by simp_all
  then show ?thesis
    using r feats
    by (simp add: setup_step_def setup_start_def add_status_def request_features_def answer_features_def
        list_at_def driver_features_list_def Let_def)
      (rule exI, rule conjI, rule refl, simp)
qed

text \<open>After the bring-up the setup has returned with the announced addresses.\<close>

lemma bring_up_ready:
  assumes M: "mmio_abi_ok M" and r: "status r = 0" "sel_generation r = 0" and feats: "length feats = 2"
    and len: "0 < length as" "length as < 2 ^ 32"
  shows "\<exists>s. device_setup M (length as) feats (bring_up M as) (setup_start r) = Inr s \<and> phase s = Ready
       \<and> descriptor_table_address s = map fst as \<and> available_ring_address s = map (fst \<circ> snd) as
       \<and> used_ring_address s = map (snd \<circ> snd) as"
proof -
  let ?nq = "length as"
  obtain s where s: "device_setup M ?nq feats [(False, add_status (S_DRIVER M)), (False, request_features 0),
            (False, request_features 1), (False, add_status (S_FEATURES_OK M))] (setup_start r)
          = Inr (enter_queues ?nq s)"
    "sel_generation (regs s) = prev_sel_generation s" "descriptor_table_address s = []"
    "available_ring_address s = []" "used_ring_address s = []"
    using bring_up_features [OF M r feats] by blast
  obtain s1 where s1: "device_setup M ?nq feats (map (\<lambda>j. (False, post_queue j (as ! j))) [0..<?nq])
        (enter_queues ?nq s) = Inr s1" "recorded ?nq as ?nq s1"
    using record_all [OF recorded_start [OF s(2) len(1) s(3-5)] len(2) refl, of ?nq] by blast
  let ?s2 = "s1\<lparr>regs := add_status (S_DRIVER_OK M) (regs s1), phase := Ready\<rparr>"
  have "setup_step M ?nq feats False (s1\<lparr>regs := add_status (S_DRIVER_OK M) (regs s1)\<rparr>) = Inr ?s2"
    using s1(2) status_bits(4) [OF M] by (simp add: setup_step_def recorded_def add_status_def)
  then have "device_setup M ?nq feats (bring_up M as) (setup_start r) = Inr ?s2"
    unfolding bring_up_def device_setup_append s(1) bindR_simps s1(1) by simp
  then show ?thesis using s1(2) by (auto simp: recorded_def)
qed

section \<open>Announcing out of order\<close>

text \<open>The queue phase ends with the queue of the highest number, whichever others have been
  announced: a driver that announces that one first leaves the setup with all other queues at
  address 0, and its later announcements are not heard.\<close>

theorem last_queue_ends_phase:
  assumes "recorded nq as 0 s" "1 < nq" "nq < 2 ^ 32" "j < nq - 1"
  shows "\<exists>s'. setup_step M nq feats False (s\<lparr>regs := post_queue (nq - 1) a (regs s)\<rparr>) = Inr s'
     \<and> phase s' = Wait_Ok \<and> descriptor_table_address s' ! j = 0
     \<and> (\<exists>s''. setup_step M nq feats False (s'\<lparr>regs := post_queue j b (regs s')\<rparr>) = Inr s''
             \<and> descriptor_table_address s'' ! j = 0)"
proof -
  have q: "(of_nat (nq - 1) :: u32) = of_nat nq - 1" "unat (of_nat (nq - 1) :: u32) = nq - 1"
    using last_queue [of "nq - 1" nq] assms(2,3) by simp_all
  obtain d av us where a: "a = (d, av, us)" by (cases a) auto
  show ?thesis
    using assms q
    by (auto simp: setup_step_def answer_queue_def Let_def recorded_def post_queue_def a)
qed

theorem last_queue_ends_phase_witness:
  "\<exists>s'. setup_step linux_mmio_abi 2 [0, 1] False
          ((enter_queues 2 (setup_start mmio_reset))
             \<lparr>regs := post_queue 1 (7, 8, 9) (regs (enter_queues 2 (setup_start mmio_reset)))\<rparr>) = Inr s'
     \<and> phase s' = Wait_Ok \<and> descriptor_table_address s' ! 0 = 0"
proof -
  have "recorded 2 [] 0 (enter_queues 2 (setup_start mmio_reset))"
    by (rule recorded_start) (simp_all add: setup_start_def mmio_reset_def)
  from last_queue_ends_phase [OF this, of 0 linux_mmio_abi "[0, 1]" "(7, 8, 9)" "(0, 0, 0)"]
  show ?thesis by auto
qed

section \<open>Shutting down\<close>

lemma exit_advances:
  assumes "phase s = p"
  shows "\<exists>s'. setup_step M nq feats True s = Inr s'
     \<and> phase s' = (case p of Wait_Driver \<Rightarrow> Negotiate | Negotiate \<Rightarrow> Queues | Queues \<Rightarrow> Wait_Ok | _ \<Rightarrow> Ready)
     \<and> regs s' = regs s"
  using assms by (cases p) (auto simp: setup_step_def enter_queues_def)

text \<open>Once the exit flag is set, \<open>device_setup\<close> returns within four iterations from any phase,
  without a fault and whatever the driver does.\<close>

theorem setup_exits:
  assumes "\<forall>x \<in> set ins. fst x" and "phases_left (phase s) \<le> length ins"
  shows "\<exists>s'. device_setup M nq feats ins s = Inr s' \<and> phase s' = Ready"
  using assms
proof (induction ins arbitrary: s)
  case Nil
  then show ?case by (cases "phase s") simp_all
next
  case (Cons x ins)
  obtain drv where x: "x = (True, drv)" using Cons.prems(1) by (cases x) auto
  let ?s = "s\<lparr>regs := drv (regs s)\<rparr>"
  obtain s1 where s1: "setup_step M nq feats True ?s = Inr s1"
    "phase s1 = (case phase s of Wait_Driver \<Rightarrow> Negotiate | Negotiate \<Rightarrow> Queues | Queues \<Rightarrow> Wait_Ok | _ \<Rightarrow> Ready)"
    using exit_advances [of ?s "phase s" M nq feats] by auto
  have "phases_left (phase s1) \<le> length ins"
    using Cons.prems(2) s1(2) by (cases "phase s") simp_all
  then show ?case using Cons.IH [of s1] Cons.prems(1) s1(1) x by simp
qed

theorem setup_exits_witness:
  "\<exists>s'. device_setup linux_mmio_abi 1 [0, 1] (replicate 4 (True, id)) (setup_start mmio_reset) = Inr s'
     \<and> phase s' = Ready"
  by (rule setup_exits) (simp_all add: setup_start_def)

end
