(* ===== verification/Mmio.thy ===== *)
theory Mmio
  imports Virtio_Setup
begin

text \<open>
  The registers of a virtio-mmio device as they lie in the tile's memory. The code reaches each
  register through a pointer into the window; \<open>Virtio_Setup\<close> treats them as a record. Here the stores of
  the constructor and of \<open>device_setup\<close> (\<^verbatim>\<open>console/virtiodevice.hpp\<close>) are made on bytes, and the record
  is what the bytes mean. The offsets of Linux's \<^verbatim>\<open>virtio_mmio.h\<close> are the parameter \<open>mmio_layout\<close>; two
  registers are the repository's own.
\<close>

section \<open>The layout\<close>

record mmio_layout =
  o_magic :: nat
  o_version :: nat
  o_device_id :: nat
  o_device_features :: nat
  o_device_features_sel :: nat
  o_driver_features :: nat
  o_driver_features_sel :: nat
  o_queue_sel :: nat
  o_queue_num_max :: nat
  o_queue_ready :: nat
  o_queue_notify :: nat
  o_interrupt_status :: nat
  o_interrupt_ack :: nat
  o_status :: nat
  o_desc_low :: nat
  o_desc_high :: nat
  o_avail_low :: nat
  o_avail_high :: nat
  o_used_low :: nat
  o_used_high :: nat
  o_config :: nat

definition linux_layout :: mmio_layout where
  "linux_layout =
     \<lparr>o_magic = 0, o_version = 4, o_device_id = 8, o_device_features = 0x10, o_device_features_sel = 0x14,
      o_driver_features = 0x20, o_driver_features_sel = 0x24, o_queue_sel = 0x30, o_queue_num_max = 0x34,
      o_queue_ready = 0x44, o_queue_notify = 0x50, o_interrupt_status = 0x60, o_interrupt_ack = 0x64,
      o_status = 0x70, o_desc_low = 0x80, o_desc_high = 0x84, o_avail_low = 0x90, o_avail_high = 0x94,
      o_used_low = 0xA0, o_used_high = 0xA4, o_config = 0x100\<rparr>"

definition layout_ok :: "mmio_layout \<Rightarrow> bool" where
  "layout_ok L \<longleftrightarrow> L = linux_layout"

definition O_SW_IMPL :: nat where "O_SW_IMPL = 0x18"
definition O_SEL_GENERATION :: nat where "O_SEL_GENERATION = 0x1C"

text \<open>The whole region the constructor clears.\<close>

definition REGISTERS :: nat where "REGISTERS = 0x200"

section \<open>Bytes as registers\<close>

definition mmio_at :: "mmio_layout \<Rightarrow> mem \<Rightarrow> nat \<Rightarrow> mmio" where
  "mmio_at L m p =
     \<lparr>magic_value = val32 m (p + o_magic L), version = val32 m (p + o_version L),
      dev_id = val32 m (p + o_device_id L), device_features = val32 m (p + o_device_features L),
      device_features_sel = val32 m (p + o_device_features_sel L),
      driver_features = val32 m (p + o_driver_features L),
      driver_features_sel = val32 m (p + o_driver_features_sel L),
      queue_num_max = val32 m (p + o_queue_num_max L), queue_ready = val32 m (p + o_queue_ready L),
      queue_notify = val32 m (p + o_queue_notify L), int_status = val32 m (p + o_interrupt_status L),
      interrupt_ack = val32 m (p + o_interrupt_ack L), status = val32 m (p + o_status L),
      queue_desc_low = val32 m (p + o_desc_low L), queue_desc_high = val32 m (p + o_desc_high L),
      queue_avail_low = val32 m (p + o_avail_low L), queue_avail_high = val32 m (p + o_avail_high L),
      queue_used_low = val32 m (p + o_used_low L), queue_used_high = val32 m (p + o_used_high L),
      queue_select = val32 m (p + o_queue_sel L), sw_impl = val32 m (p + O_SW_IMPL),
      sel_generation = val32 m (p + O_SEL_GENERATION)\<rparr>"

text \<open>A store to one register is an update of one field.\<close>

lemma mmio_store:
  fixes L :: mmio_layout
  assumes "layout_ok L"
  shows
    "mmio_at L (poke m (p + o_magic L) (bytes32 v)) p = (mmio_at L m p)\<lparr>magic_value := v\<rparr>"
    "mmio_at L (poke m (p + o_version L) (bytes32 v)) p = (mmio_at L m p)\<lparr>version := v\<rparr>"
    "mmio_at L (poke m (p + o_device_id L) (bytes32 v)) p = (mmio_at L m p)\<lparr>dev_id := v\<rparr>"
    "mmio_at L (poke m (p + o_device_features L) (bytes32 v)) p = (mmio_at L m p)\<lparr>device_features := v\<rparr>"
    "mmio_at L (poke m (p + o_driver_features L) (bytes32 v)) p = (mmio_at L m p)\<lparr>driver_features := v\<rparr>"
    "mmio_at L (poke m (p + o_queue_num_max L) (bytes32 v)) p = (mmio_at L m p)\<lparr>queue_num_max := v\<rparr>"
    "mmio_at L (poke m (p + o_queue_ready L) (bytes32 v)) p = (mmio_at L m p)\<lparr>queue_ready := v\<rparr>"
    "mmio_at L (poke m (p + O_SW_IMPL) (bytes32 v)) p = (mmio_at L m p)\<lparr>sw_impl := v\<rparr>"
    "mmio_at L (poke m (p + O_SEL_GENERATION) (bytes32 v)) p = (mmio_at L m p)\<lparr>sel_generation := v\<rparr>"
  using assms
  by (simp_all add: layout_ok_def linux_layout_def mmio_at_def O_SW_IMPL_def O_SEL_GENERATION_def mem_simps)

section \<open>The constructor's stores\<close>

definition VirtioDevice_registers :: "mmio_layout \<Rightarrow> nat \<Rightarrow> mem \<Rightarrow> nat \<Rightarrow> mem res" where
  "VirtioDevice_registers L sz m p =
     bindR (store sz m p (replicate REGISTERS 0)) (\<lambda>m.
     bindR (store sz m (p + o_magic L) (bytes32 VIRT_MAGIC)) (\<lambda>m.
     bindR (store sz m (p + o_version L) (bytes32 2)) (\<lambda>m.
     bindR (store sz m (p + o_queue_num_max L) (bytes32 (of_nat queue_size))) (\<lambda>m.
       store sz m (p + O_SW_IMPL) (bytes32 1)))))"

lemma val32_cleared:
  "a + 4 \<le> n \<Longrightarrow> val32 (poke m p (replicate n 0)) (p + a) = 0"
proof -
  assume "a + 4 \<le> n"
  then have "peek (poke m p (replicate n 0)) (p + a) 4 = replicate 4 0"
    by (simp add: peek_poke_sub)
  then show ?thesis by (simp add: val32_def numeral_eq_Suc)
qed

lemma mmio_cleared:
  assumes "layout_ok L"
  shows "mmio_at L (poke m p (replicate REGISTERS 0)) p =
     \<lparr>magic_value = 0, version = 0, dev_id = 0, device_features = 0, device_features_sel = 0,
      driver_features = 0, driver_features_sel = 0, queue_num_max = 0, queue_ready = 0, queue_notify = 0,
      int_status = 0, interrupt_ack = 0, status = 0, queue_desc_low = 0, queue_desc_high = 0,
      queue_avail_low = 0, queue_avail_high = 0, queue_used_low = 0, queue_used_high = 0, queue_select = 0,
      sw_impl = 0, sel_generation = 0\<rparr>"
proof -
  have z: "val32 (poke m p (replicate REGISTERS 0)) (p + a) = 0" if "a + 4 \<le> 0x200" for a
    using val32_cleared [of a REGISTERS] that by (simp add: REGISTERS_def)
  show ?thesis
    using assms unfolding mmio_at_def layout_ok_def
    by (simp add: linux_layout_def O_SW_IMPL_def O_SEL_GENERATION_def z z [of 0, simplified])
qed

lemma registers_reset_lemma:
  assumes "layout_ok L" "p + REGISTERS \<le> sz"
  shows "\<exists>m'. VirtioDevice_registers L sz m p = Inr m' \<and> mmio_at L m' p = mmio_reset
     \<and> same_on (- span p REGISTERS) m m'"
proof -
  let ?m = "poke (poke (poke (poke (poke m p (replicate REGISTERS 0)) (p + o_magic L) (bytes32 VIRT_MAGIC))
      (p + o_version L) (bytes32 2)) (p + o_queue_num_max L) (bytes32 (of_nat queue_size)))
      (p + O_SW_IMPL) (bytes32 1)"
  have "o_magic L + 4 \<le> REGISTERS" "o_version L + 4 \<le> REGISTERS" "o_queue_num_max L + 4 \<le> REGISTERS"
    "O_SW_IMPL + 4 \<le> REGISTERS"
    using assms(1) by (simp_all add: layout_ok_def linux_layout_def REGISTERS_def O_SW_IMPL_def)
  then have fits: "p + o_magic L + 4 \<le> sz" "p + o_version L + 4 \<le> sz" "p + o_queue_num_max L + 4 \<le> sz"
    "p + O_SW_IMPL + 4 \<le> sz" and "same_on (- span p REGISTERS) m ?m"
    using assms(2) by (auto simp: same_on_def poke_def)
  moreover have "VirtioDevice_registers L sz m p = Inr ?m"
    using fits assms(2) by (simp add: VirtioDevice_registers_def)
  moreover have "mmio_at L ?m p = mmio_reset"
    unfolding mmio_store [OF assms(1)] mmio_cleared [OF assms(1)] by (simp add: mmio_reset_def)
  ultimately show ?thesis by blast
qed

section \<open>Setup on bytes\<close>

record msetup =
  ms_mem :: mem
  ms_phase :: phase
  ms_prev :: u32
  ms_desc :: "u64 list"
  ms_avail :: "u64 list"
  ms_used :: "u64 list"

text \<open>What the bytes mean to the record-level model.\<close>

definition setup_of :: "mmio_layout \<Rightarrow> nat \<Rightarrow> msetup \<Rightarrow> dsetup" where
  "setup_of L p s =
     \<lparr>regs = mmio_at L (ms_mem s) p, phase = ms_phase s, prev_sel_generation = ms_prev s,
      descriptor_table_address = ms_desc s, available_ring_address = ms_avail s, used_ring_address = ms_used s\<rparr>"

definition mem_features :: "mmio_layout \<Rightarrow> nat \<Rightarrow> nat \<Rightarrow> u32 list \<Rightarrow> msetup \<Rightarrow> msetup res" where
  "mem_features L sz p feats s =
     bindR (ld32 sz (ms_mem s) (p + O_SEL_GENERATION)) (\<lambda>g.
     if g = ms_prev s then Inr s
     else
       bindR (ld32 sz (ms_mem s) (p + o_device_features_sel L)) (\<lambda>i.
       bindR (list_at feats i) (\<lambda>df.
       bindR (store sz (ms_mem s) (p + o_device_features L) (bytes32 df)) (\<lambda>m1.
       bindR (ld32 sz m1 (p + o_driver_features_sel L)) (\<lambda>j.
       bindR (list_at driver_features_list j) (\<lambda>vf.
       bindR (store sz m1 (p + o_driver_features L) (bytes32 vf)) (\<lambda>m2.
       bindR (store sz m2 (p + O_SEL_GENERATION) (bytes32 (g + 1))) (\<lambda>m3.
         Inr (s\<lparr>ms_mem := m3, ms_prev := g + 1\<rparr>)))))))))"

definition mem_queue :: "mmio_layout \<Rightarrow> nat \<Rightarrow> nat \<Rightarrow> nat \<Rightarrow> msetup \<Rightarrow> (bool \<times> msetup) res" where
  "mem_queue L sz p nq s =
     bindR (ld32 sz (ms_mem s) (p + O_SEL_GENERATION)) (\<lambda>g.
     bindR (store sz (ms_mem s) (p + o_queue_ready L) (bytes32 0)) (\<lambda>m.
     if g = ms_prev s then Inr (False, s\<lparr>ms_mem := m\<rparr>)
     else
       bindR (ld32 sz m (p + o_queue_sel L)) (\<lambda>q.
       bindR (require Index_Out_Of_Bounds
                (unat q < length (ms_desc s) \<and> unat q < length (ms_avail s) \<and> unat q < length (ms_used s))) (\<lambda>_.
       bindR (ld32 sz m (p + o_desc_high L)) (\<lambda>dh. bindR (ld32 sz m (p + o_desc_low L)) (\<lambda>dl.
       bindR (ld32 sz m (p + o_avail_high L)) (\<lambda>ah. bindR (ld32 sz m (p + o_avail_low L)) (\<lambda>al.
       bindR (ld32 sz m (p + o_used_high L)) (\<lambda>uh. bindR (ld32 sz m (p + o_used_low L)) (\<lambda>ul.
       bindR (store sz m (p + O_SEL_GENERATION) (bytes32 (g + 1))) (\<lambda>m'.
         Inr (q = of_nat nq - 1,
              s\<lparr>ms_mem := m', ms_prev := g + 1, ms_desc := (ms_desc s)[unat q := join64 dh dl],
                ms_avail := (ms_avail s)[unat q := join64 ah al],
                ms_used := (ms_used s)[unat q := join64 uh ul]\<rparr>))))))))))))"

definition mem_enter_queues :: "nat \<Rightarrow> msetup \<Rightarrow> msetup" where
  "mem_enter_queues nq s =
     s\<lparr>ms_phase := Queues, ms_desc := resize nq (ms_desc s), ms_avail := resize nq (ms_avail s),
       ms_used := resize nq (ms_used s)\<rparr>"

definition mem_setup_step ::
  "mmio_layout \<Rightarrow> nat \<Rightarrow> nat \<Rightarrow> mmio_abi \<Rightarrow> nat \<Rightarrow> u32 list \<Rightarrow> bool \<Rightarrow> msetup \<Rightarrow> msetup res" where
  "mem_setup_step L sz p M nq feats exit_flag s =
     (case ms_phase s of
        Wait_Driver \<Rightarrow>
          if exit_flag then Inr (s\<lparr>ms_phase := Negotiate\<rparr>)
          else bindR (ld32 sz (ms_mem s) (p + o_status L)) (\<lambda>st.
            Inr (if st AND S_DRIVER M \<noteq> 0 then s\<lparr>ms_phase := Negotiate\<rparr> else s))
      | Negotiate \<Rightarrow>
          if exit_flag then Inr (mem_enter_queues nq s)
          else bindR (mem_features L sz p feats s) (\<lambda>s'.
            bindR (ld32 sz (ms_mem s') (p + o_status L)) (\<lambda>st.
              Inr (if st AND S_FEATURES_OK M \<noteq> 0 then mem_enter_queues nq s' else s')))
      | Queues \<Rightarrow>
          if exit_flag then Inr (s\<lparr>ms_phase := Wait_Ok\<rparr>)
          else bindR (mem_queue L sz p nq s) (\<lambda>(last_one, s').
            Inr (if last_one then s'\<lparr>ms_phase := Wait_Ok\<rparr> else s'))
      | Wait_Ok \<Rightarrow>
          if exit_flag then Inr (s\<lparr>ms_phase := Ready\<rparr>)
          else bindR (ld32 sz (ms_mem s) (p + o_status L)) (\<lambda>st.
            Inr (if st AND S_DRIVER_OK M \<noteq> 0 then s\<lparr>ms_phase := Ready\<rparr> else s))
      | Ready \<Rightarrow> Inr s)"

text \<open>An abstraction of results, and how it passes through the sequencing operator.\<close>

abbreviation abs_res :: "('a \<Rightarrow> 'b) \<Rightarrow> 'a res \<Rightarrow> 'b res" where
  "abs_res f \<equiv> map_sum id f"

lemma abs_res_bindR: "abs_res f (bindR x g) = bindR x (\<lambda>a. abs_res f (g a))"
  by (cases x) simp_all

lemma ld_register:
  assumes "layout_ok L" "p + REGISTERS \<le> sz"
  shows
    "ld32 sz m (p + O_SEL_GENERATION) = Inr (sel_generation (mmio_at L m p))"
    "ld32 sz m (p + o_device_features_sel L) = Inr (device_features_sel (mmio_at L m p))"
    "ld32 sz m (p + o_driver_features_sel L) = Inr (driver_features_sel (mmio_at L m p))"
    "ld32 sz m (p + o_status L) = Inr (status (mmio_at L m p))"
    "ld32 sz m (p + o_queue_sel L) = Inr (queue_select (mmio_at L m p))"
    "ld32 sz m (p + o_desc_high L) = Inr (queue_desc_high (mmio_at L m p))"
    "ld32 sz m (p + o_desc_low L) = Inr (queue_desc_low (mmio_at L m p))"
    "ld32 sz m (p + o_avail_high L) = Inr (queue_avail_high (mmio_at L m p))"
    "ld32 sz m (p + o_avail_low L) = Inr (queue_avail_low (mmio_at L m p))"
    "ld32 sz m (p + o_used_high L) = Inr (queue_used_high (mmio_at L m p))"
    "ld32 sz m (p + o_used_low L) = Inr (queue_used_low (mmio_at L m p))"
  using assms
  by (simp_all add: layout_ok_def linux_layout_def REGISTERS_def O_SEL_GENERATION_def mmio_at_def)

lemma store_register:
  assumes "layout_ok L" "p + REGISTERS \<le> sz"
  shows
    "store sz m (p + O_SEL_GENERATION) (bytes32 v) = Inr (poke m (p + O_SEL_GENERATION) (bytes32 v))"
    "store sz m (p + o_device_features L) (bytes32 v) = Inr (poke m (p + o_device_features L) (bytes32 v))"
    "store sz m (p + o_driver_features L) (bytes32 v) = Inr (poke m (p + o_driver_features L) (bytes32 v))"
    "store sz m (p + o_queue_ready L) (bytes32 v) = Inr (poke m (p + o_queue_ready L) (bytes32 v))"
  using assms by (simp_all add: layout_ok_def linux_layout_def REGISTERS_def O_SEL_GENERATION_def)

lemma mem_features_abs:
  assumes "layout_ok L" "p + REGISTERS \<le> sz"
  shows "abs_res (setup_of L p) (mem_features L sz p feats s) = answer_features feats (setup_of L p s)"
  unfolding mem_features_def answer_features_def
  by (cases "list_at feats (device_features_sel (mmio_at L (ms_mem s) p))";
      cases "list_at driver_features_list (driver_features_sel (mmio_at L (ms_mem s) p))")
    (simp_all add: ld_register [OF assms] store_register [OF assms] mmio_store [OF assms(1)] setup_of_def Let_def)

lemma mem_queue_abs:
  assumes "layout_ok L" "p + REGISTERS \<le> sz"
  shows "abs_res (\<lambda>(b, s). (b, setup_of L p s)) (mem_queue L sz p nq s) = answer_queue nq (setup_of L p s)"
  unfolding mem_queue_def answer_queue_def
  by (simp add: ld_register [OF assms] store_register [OF assms] mmio_store [OF assms(1)] setup_of_def Let_def
      require_def)

lemma mem_setup_step_abs:
  assumes "layout_ok L" "p + REGISTERS \<le> sz"
  shows "abs_res (setup_of L p) (mem_setup_step L sz p M nq feats x s) = setup_step M nq feats x (setup_of L p s)"
proof (cases "ms_phase s")
  case Negotiate
  have enter: "setup_of L p (mem_enter_queues nq s) = enter_queues nq (setup_of L p s)" for s
    by (simp add: setup_of_def mem_enter_queues_def enter_queues_def)
  have ph: "phase (setup_of L p s) = Negotiate" using Negotiate by (simp add: setup_of_def)
  have regs: "regs (setup_of L p s) = mmio_at L (ms_mem s) p" for s by (simp add: setup_of_def)
  show ?thesis
    using Negotiate mem_features_abs [OF assms, of feats s] ph
    by (cases "mem_features L sz p feats s")
      (simp_all add: mem_setup_step_def setup_step_def enter [symmetric] ld_register [OF assms]
        regs [symmetric] flip: mem_features_abs [OF assms])
next
  case Queues
  have ph: "phase (setup_of L p s) = Queues" using Queues by (simp add: setup_of_def)
  have upd: "setup_of L p (s\<lparr>ms_phase := ph\<rparr>) = (setup_of L p s)\<lparr>phase := ph\<rparr>" for s ph
    by (simp add: setup_of_def)
  show ?thesis
    using Queues ph
    by (cases "mem_queue L sz p nq s")
      (auto simp: mem_setup_step_def setup_step_def upd simp flip: mem_queue_abs [OF assms])
qed (simp_all add: mem_setup_step_def setup_step_def setup_of_def ld_register [OF assms])

fun mem_device_setup ::
  "mmio_layout \<Rightarrow> nat \<Rightarrow> nat \<Rightarrow> mmio_abi \<Rightarrow> nat \<Rightarrow> u32 list \<Rightarrow> (bool \<times> (mem \<Rightarrow> mem)) list \<Rightarrow> msetup \<Rightarrow> msetup res" where
  "mem_device_setup L sz p M nq feats [] s = Inr s"
| "mem_device_setup L sz p M nq feats ((x, drv) # ins) s =
     bindR (mem_setup_step L sz p M nq feats x (s\<lparr>ms_mem := drv (ms_mem s)\<rparr>)) (mem_device_setup L sz p M nq feats ins)"

text \<open>The driver of the record-level model does to the registers what this one does to the bytes.\<close>

definition same_driver :: "mmio_layout \<Rightarrow> nat \<Rightarrow> bool \<times> (mem \<Rightarrow> mem) \<Rightarrow> bool \<times> (mmio \<Rightarrow> mmio) \<Rightarrow> bool" where
  "same_driver L p i j \<longleftrightarrow> fst i = fst j \<and> (\<forall>m. mmio_at L (snd i m) p = snd j (mmio_at L m p))"

lemma mem_device_setup_abs:
  assumes "layout_ok L" "p + REGISTERS \<le> sz"
  shows "list_all2 (same_driver L p) ins ins' \<Longrightarrow>
     abs_res (setup_of L p) (mem_device_setup L sz p M nq feats ins s)
       = device_setup M nq feats ins' (setup_of L p s)"
proof (induction ins arbitrary: s ins')
  case Nil
  then show ?case by simp
next
  case (Cons i ins)
  obtain x drv where i: "i = (x, drv)" by (cases i)
  from Cons.prems obtain j ins'' where j: "ins' = j # ins''" "same_driver L p i j"
    and rest: "list_all2 (same_driver L p) ins ins''"
    by (auto simp: list_all2_Cons1)
  then obtain drv' where ins': "ins' = (x, drv') # ins''" and drv: "\<And>m. mmio_at L (drv m) p = drv' (mmio_at L m p)"
    using i by (cases j) (auto simp: same_driver_def)
  let ?s = "s\<lparr>ms_mem := drv (ms_mem s)\<rparr>"
  have st: "setup_of L p ?s = (setup_of L p s)\<lparr>regs := drv' (regs (setup_of L p s))\<rparr>"
    by (simp add: setup_of_def drv)
  show ?case
    unfolding i ins'
    unfolding mem_device_setup.simps device_setup.simps st [symmetric]
      mem_setup_step_abs [OF assms, of M nq feats x ?s, symmetric]
    using Cons.IH [OF rest] by (cases "mem_setup_step L sz p M nq feats x ?s") simp_all
qed

text \<open>C10: the registers are what their bytes mean, from the constructor on: its stores turn any memory
  into the reset registers and touch nothing outside their 512 bytes, and every run of
  \<open>device_setup\<close> on the bytes, with its loads and stores one by one in the order of the code, is the
  run of the register-level model on what the bytes mean: same faults, same phase, same queue
  addresses.\<close>

theorem setup_runs_on_bytes:
  assumes "layout_ok L" "p + REGISTERS \<le> sz" and "list_all2 (same_driver L p) ins ins'"
  shows "\<exists>m'. VirtioDevice_registers L sz m p = Inr m' \<and> same_on (- span p REGISTERS) m m'
     \<and> (let s = \<lparr>ms_mem = m', ms_phase = Wait_Driver, ms_prev = 0, ms_desc = [], ms_avail = [], ms_used = []\<rparr>
        in abs_res (setup_of L p) (mem_device_setup L sz p M nq feats ins s)
             = device_setup M nq feats ins' (setup_start mmio_reset))"
proof -
  obtain m' where m': "VirtioDevice_registers L sz m p = Inr m'" "mmio_at L m' p = mmio_reset"
    "same_on (- span p REGISTERS) m m'"
    using registers_reset_lemma [OF assms(1,2)] by blast
  then show ?thesis
    using mem_device_setup_abs [OF assms] by (simp add: setup_of_def setup_start_def)
qed

theorem setup_runs_on_bytes_witness:
  "\<exists>m'. VirtioDevice_registers linux_layout 0x200000 (\<lambda>_. 9) 0 = Inr m'
     \<and> abs_res (setup_of linux_layout 0)
         (mem_device_setup linux_layout 0x200000 0 linux_mmio_abi 2 [0, 1]
            [(False, \<lambda>m. poke m (0 + O_SEL_GENERATION) (bytes32 1)), (True, id)]
            \<lparr>ms_mem = m', ms_phase = Wait_Driver, ms_prev = 0, ms_desc = [], ms_avail = [], ms_used = []\<rparr>)
       = device_setup linux_mmio_abi 2 [0, 1] [(False, sel_generation_update (\<lambda>_. 1)), (True, id)] (setup_start mmio_reset)"
proof -
  have ok: "layout_ok linux_layout" by (simp add: layout_ok_def)
  have drv: "list_all2 (same_driver linux_layout 0) [(False, \<lambda>m. poke m (0 + O_SEL_GENERATION) (bytes32 1)), (True, id)]
      [(False, sel_generation_update (\<lambda>_. 1)), (True, id)]"
    using mmio_store(9) [OF ok, where p = 0 and v = 1] by (simp add: same_driver_def)
  show ?thesis
    using setup_runs_on_bytes [OF ok _ drv, where sz = "0x200000" and m = "\<lambda>_. 9" and M = linux_mmio_abi and nq = 2
        and feats = "[0, 1]"]
    by (auto simp: REGISTERS_def Let_def)
qed

end
