(* ===== verification/Interrupt_Line.thy ===== *)
theory Interrupt_Line
  imports Virtqueue
begin

text \<open>
  The interrupt register that the device threads share (\<open>set_interrupt\<close>, \<^verbatim>\<open>console/virtiodevice.hpp\<close>).
  \<open>Virtqueue\<close> lets a device raise and lower its line in one go. Here every access of the function is a
  step of its own, the threads are interleaved in any way, and the mutex \<open>interrupt_register_lock\<close> is
  what makes the two agree. Each device has an interrupt status register of its own.
\<close>

section \<open>The function, one access at a time\<close>

datatype irq_pc =
    Outside
  | Has_Status u32
  | Wants_Lock
  | Holds_Lock
  | Line_High
  | Line_Low

record irq_state =
  pc :: "nat \<Rightarrow> irq_pc"
  int_statuses :: "nat \<Rightarrow> u32"
  lock :: "nat option"
  line :: u32
  writes :: "u32 list"
  returned :: "nat list"

definition line_bit :: "nat \<Rightarrow> u32" where
  "line_bit n = push_bit (n - 5) 1"

text \<open>\<open>irq t\<close> is the interrupt number of thread \<open>t\<close>. The guest may write a status register at any time.\<close>

inductive irq_step :: "vring_abi \<Rightarrow> (nat \<Rightarrow> nat) \<Rightarrow> irq_state \<Rightarrow> irq_state \<Rightarrow> bool" for A irq where
  read_status: "pc s t = Outside \<Longrightarrow>
     irq_step A irq s (s\<lparr>pc := (pc s)(t := Has_Status (int_statuses s t))\<rparr>)"
| write_status: "pc s t = Has_Status v \<Longrightarrow>
     irq_step A irq s
       (s\<lparr>int_statuses := (int_statuses s)(t := INT_VRING A OR v), pc := (pc s)(t := Wants_Lock)\<rparr>)"
| acquire: "pc s t = Wants_Lock \<Longrightarrow> lock s = None \<Longrightarrow>
     irq_step A irq s (s\<lparr>lock := Some t, pc := (pc s)(t := Holds_Lock)\<rparr>)"
| raise: "pc s t = Holds_Lock \<Longrightarrow>
     irq_step A irq s
       (s\<lparr>line := line_bit (irq t), writes := writes s @ [line_bit (irq t)], pc := (pc s)(t := Line_High)\<rparr>)"
| lower: "pc s t = Line_High \<Longrightarrow>
     irq_step A irq s (s\<lparr>line := 0, writes := writes s @ [0], pc := (pc s)(t := Line_Low)\<rparr>)"
| release: "pc s t = Line_Low \<Longrightarrow>
     irq_step A irq s (s\<lparr>lock := None, returned := returned s @ [t], pc := (pc s)(t := Outside)\<rparr>)"
| guest: "irq_step A irq s (s\<lparr>int_statuses := (int_statuses s)(t := v)\<rparr>)"

definition irq_start :: "(nat \<Rightarrow> u32) \<Rightarrow> irq_state" where
  "irq_start st =
     \<lparr>pc = (\<lambda>_. Outside), int_statuses = st, lock = None, line = 0, writes = [], returned = []\<rparr>"

section \<open>The lock serialises the calls\<close>

definition in_section :: "irq_pc \<Rightarrow> bool" where
  "in_section p \<longleftrightarrow> p = Holds_Lock \<or> p = Line_High \<or> p = Line_Low"

text \<open>What the holder of the lock has written so far.\<close>

definition pending :: "(nat \<Rightarrow> nat) \<Rightarrow> irq_state \<Rightarrow> u32 list" where
  "pending irq s =
     (case lock s of
        None \<Rightarrow> []
      | Some t \<Rightarrow> (case pc s t of Line_High \<Rightarrow> [line_bit (irq t)] | Line_Low \<Rightarrow> [line_bit (irq t), 0] | _ \<Rightarrow> []))"

definition irq_inv :: "(nat \<Rightarrow> nat) \<Rightarrow> irq_state \<Rightarrow> bool" where
  "irq_inv irq s \<longleftrightarrow>
     (\<forall>t. in_section (pc s t) \<longleftrightarrow> lock s = Some t)
     \<and> writes s = concat (map (\<lambda>t. [line_bit (irq t), 0]) (returned s)) @ pending irq s
     \<and> line s = (case lock s of
                   None \<Rightarrow> 0
                 | Some t \<Rightarrow> if pc s t = Line_High then line_bit (irq t) else 0)"

lemma irq_start_inv: "irq_inv irq (irq_start st)"
  by (simp add: irq_inv_def irq_start_def in_section_def pending_def)

lemma irq_step_inv:
  assumes "irq_step A irq s s'" "irq_inv irq s"
  shows "irq_inv irq s'"
proof -
  have sec: "in_section (pc s t) \<longleftrightarrow> lock s = Some t" for t
    using assms(2) by (simp add: irq_inv_def)
  from assms show ?thesis
  proof (cases rule: irq_step.cases)
    case (read_status t)
    then have "lock s \<noteq> Some t" using sec [of t] by (simp add: in_section_def)
    then show ?thesis using assms(2) read_status by (auto simp: irq_inv_def in_section_def pending_def split: option.splits)
  next
    case (write_status t v)
    then have "lock s \<noteq> Some t" using sec [of t] by (simp add: in_section_def)
    then show ?thesis using assms(2) write_status by (auto simp: irq_inv_def in_section_def pending_def split: option.splits)
  next
    case (acquire t)
    then show ?thesis using assms(2) by (auto simp: irq_inv_def in_section_def pending_def)
  next
    case (raise t)
    then have "lock s = Some t" using sec [of t] by (simp add: in_section_def)
    then show ?thesis using assms(2) raise by (auto simp: irq_inv_def in_section_def pending_def)
  next
    case (lower t)
    then have "lock s = Some t" using sec [of t] by (simp add: in_section_def)
    then show ?thesis using assms(2) lower by (auto simp: irq_inv_def in_section_def pending_def)
  next
    case (release t)
    then have "lock s = Some t" using sec [of t] by (simp add: in_section_def)
    then show ?thesis using assms(2) release by (auto simp: irq_inv_def in_section_def pending_def)
  next
    case (guest t v)
    then show ?thesis using assms(2) by (simp add: irq_inv_def pending_def cong: option.case_cong)
  qed
qed

lemma irq_steps_inv: "(irq_step A irq)\<^sup>*\<^sup>* s s' \<Longrightarrow> irq_inv irq s \<Longrightarrow> irq_inv irq s'"
  by (induction rule: rtranclp_induct) (auto intro: irq_step_inv)

text \<open>The effect of a whole call in the model of the device loop.\<close>

definition call_effect :: "vring_abi \<Rightarrow> 'b dev \<Rightarrow> (nat \<Rightarrow> devcfg) \<Rightarrow> nat \<Rightarrow> u32 list \<Rightarrow> u32 list" where
  "call_effect A d cfg t h = interrupt_register (set_interrupt A (cfg t) (d\<lparr>interrupt_register := h\<rparr>))"

lemma calls_effect:
  "fold (call_effect A d cfg) ts h = h @ concat (map (\<lambda>t. [line_bit (interrupt_number (cfg t)), 0]) ts)"
  by (induction ts arbitrary: h) (simp_all add: call_effect_def set_interrupt_def line_bit_def)

text \<open>C8: the threads' interrupts do not mix. In every interleaving of any number of threads inside
  \<open>set_interrupt\<close>, at most one is between taking and leaving the lock; the register is 0 or the bit of
  that one; and whenever the lock is free, the register is 0 and the values written to it are those
  of the completed calls one after the other, as in the model of the device loop where each call is
  one step.\<close>

theorem interrupt_calls_serialised:
  assumes "(irq_step A (\<lambda>t. interrupt_number (cfg t)))\<^sup>*\<^sup>* (irq_start st) s"
  shows "(\<forall>t u. in_section (pc s t) \<longrightarrow> in_section (pc s u) \<longrightarrow> t = u)
     \<and> (line s = 0 \<or> (\<exists>t. lock s = Some t \<and> line s = line_bit (interrupt_number (cfg t))))
     \<and> (lock s = None \<longrightarrow> line s = 0 \<and> writes s = fold (call_effect A d cfg) (returned s) [])"
proof -
  have inv: "irq_inv (\<lambda>t. interrupt_number (cfg t)) s"
    using irq_steps_inv [OF assms irq_start_inv] .
  then have "\<forall>t u. in_section (pc s t) \<longrightarrow> in_section (pc s u) \<longrightarrow> t = u" by (auto simp: irq_inv_def)
  moreover have "line s = 0 \<or> (\<exists>t. lock s = Some t \<and> line s = line_bit (interrupt_number (cfg t)))"
    using inv by (auto simp: irq_inv_def split: option.splits if_splits)
  moreover have "lock s = None \<longrightarrow> line s = 0 \<and> writes s = fold (call_effect A d cfg) (returned s) []"
    using inv by (simp add: irq_inv_def pending_def calls_effect)
  ultimately show ?thesis by blast
qed

text \<open>A call that finds the lock free runs to its end.\<close>

lemma call_completes:
  assumes "pc s t = Outside" "lock s = None"
  shows "(irq_step A irq)\<^sup>*\<^sup>* s
     (s\<lparr>int_statuses := (int_statuses s)(t := INT_VRING A OR int_statuses s t), line := 0,
        writes := writes s @ [line_bit (irq t), 0], returned := returned s @ [t]\<rparr>)"
proof -
  let ?v = "int_statuses s t"
  define s1 where "s1 = s\<lparr>pc := (pc s)(t := Has_Status ?v)\<rparr>"
  define s2 where "s2 = s1\<lparr>int_statuses := (int_statuses s1)(t := INT_VRING A OR ?v), pc := (pc s1)(t := Wants_Lock)\<rparr>"
  define s3 where "s3 = s2\<lparr>lock := Some t, pc := (pc s2)(t := Holds_Lock)\<rparr>"
  define s4 where "s4 = s3\<lparr>line := line_bit (irq t), writes := writes s3 @ [line_bit (irq t)], pc := (pc s3)(t := Line_High)\<rparr>"
  define s5 where "s5 = s4\<lparr>line := 0, writes := writes s4 @ [0], pc := (pc s4)(t := Line_Low)\<rparr>"
  define s6 where "s6 = s5\<lparr>lock := None, returned := returned s5 @ [t], pc := (pc s5)(t := Outside)\<rparr>"
  have "irq_step A irq s s1" unfolding s1_def by (rule read_status) (rule assms)
  moreover have "irq_step A irq s1 s2" unfolding s2_def by (rule write_status) (simp add: s1_def)
  moreover have "irq_step A irq s2 s3" unfolding s3_def
    by (rule acquire) (simp_all add: s2_def s1_def assms)
  moreover have "irq_step A irq s3 s4" unfolding s4_def by (rule raise) (simp add: s3_def)
  moreover have "irq_step A irq s4 s5" unfolding s5_def by (rule lower) (simp add: s4_def)
  moreover have "irq_step A irq s5 s6" unfolding s6_def by (rule release) (simp add: s5_def)
  ultimately have "(irq_step A irq)\<^sup>*\<^sup>* s s6" by (meson converse_rtranclp_into_rtranclp rtranclp.rtrancl_refl)
  moreover have "s6 = s\<lparr>int_statuses := (int_statuses s)(t := INT_VRING A OR ?v), line := 0,
      writes := writes s @ [line_bit (irq t), 0], returned := returned s @ [t]\<rparr>"
  proof -
    have "(pc s)(t := Outside) = pc s" using assms(1) by auto
    then show ?thesis using assms(2) by (simp add: s6_def s5_def s4_def s3_def s2_def s1_def)
  qed
  ultimately show ?thesis by simp
qed

theorem interrupt_calls_serialised_witness:
  "\<exists>s. (irq_step linux_abi (\<lambda>t. interrupt_number (sample_cfg\<lparr>interrupt_number := 33 - t\<rparr>)))\<^sup>*\<^sup>* (irq_start (\<lambda>_. 0)) s
     \<and> returned s = [1] \<and> line s = 0
     \<and> writes s = interrupt_register (set_interrupt linux_abi (sample_cfg\<lparr>interrupt_number := 32\<rparr>)
          \<lparr>memory = \<lambda>_. 0, dclass = (), processed = [], interrupt_status = 0, interrupt_register = []\<rparr>)"
proof -
  let ?cfg = "\<lambda>t. sample_cfg\<lparr>interrupt_number := 33 - t\<rparr>"
  let ?d = "\<lparr>memory = \<lambda>_. 0, dclass = (), processed = [], interrupt_status = 0, interrupt_register = []\<rparr>"
  obtain s where run: "(irq_step linux_abi (\<lambda>t. interrupt_number (?cfg t)))\<^sup>*\<^sup>* (irq_start (\<lambda>_. 0)) s"
    and s: "returned s = [1]" "lock s = None"
    using call_completes [of "irq_start (\<lambda>_. 0)" 1 linux_abi "\<lambda>t. interrupt_number (?cfg t)"]
    by (force simp: irq_start_def)
  have "line s = 0 \<and> writes s = fold (call_effect linux_abi ?d ?cfg) (returned s) []"
    using interrupt_calls_serialised [OF run, of ?d] s(2) by blast
  then show ?thesis using run s by (auto simp: call_effect_def)
qed

end
