(* ===== verification/Store_Order.thy ===== *)
theory Store_Order
  imports Virtqueue
begin

text \<open>
  The fences of \<open>device_loop\<close> and \<open>set_interrupt\<close> (\<^verbatim>\<open>console/virtiodevice.hpp\<close>). The rings are reached
  through plain pointers: between two calls of \<open>__sync_synchronize\<close> compiler and write buffers may let
  stores take effect in any order that keeps stores to the same bytes in theirs. Here a service is the
  list of its stores and fences, and what the driver sees is any state on the way.
\<close>

section \<open>Stores that overtake each other\<close>

datatype host_op = St nat "u8 list" | Irq u32 | Fence

text \<open>What the driver sees: the guest's memory, and the values the interrupt register has had.\<close>

record seen =
  s_mem :: mem
  s_irq :: "u32 list"

fun take_effect :: "host_op \<Rightarrow> seen \<Rightarrow> seen" where
  "take_effect (St p bs) s = s\<lparr>s_mem := poke (s_mem s) p bs\<rparr>"
| "take_effect (Irq v) s = s\<lparr>s_irq := s_irq s @ [v]\<rparr>"
| "take_effect Fence s = s"

text \<open>May the first, though issued later, take effect before the second?\<close>

fun may_overtake :: "host_op \<Rightarrow> host_op \<Rightarrow> bool" where
  "may_overtake (St p bs) (St p' bs') = (p + length bs \<le> p' \<or> p' + length bs' \<le> p)"
| "may_overtake (St p bs) (Irq v) = True"
| "may_overtake (Irq v) (St p bs) = True"
| "may_overtake (Irq v) (Irq v') = False"
| "may_overtake Fence y = False"
| "may_overtake x Fence = False"

inductive order_step :: "seen \<times> host_op list \<Rightarrow> seen \<times> host_op list \<Rightarrow> bool" where
  "\<forall>y \<in> set xs. may_overtake x y \<Longrightarrow> order_step (s, xs @ x # ys) (take_effect x s, xs @ ys)"

inductive_cases order_stepE: "order_step (s, ops) t"

section \<open>Any order, one result\<close>

lemma overtake_commutes: "may_overtake x y \<Longrightarrow> take_effect x (take_effect y s) = take_effect y (take_effect x s)"
  by (induction x y rule: may_overtake.induct) (auto simp: poke_def fun_eq_iff)

lemma fold_overtake:
  "\<forall>y \<in> set xs. may_overtake x y \<Longrightarrow> fold take_effect xs (take_effect x s) = take_effect x (fold take_effect xs s)"
proof (induction xs arbitrary: s)
  case (Cons y xs)
  then have "take_effect y (take_effect x s) = take_effect x (take_effect y s)" using overtake_commutes [of x y s] by simp
  then show ?case using Cons by simp
qed simp

lemma order_step_result:
  "order_step (s, ops) (s', ops') \<Longrightarrow> fold take_effect ops' s' = fold take_effect ops s"
  by (erule order_stepE) (simp add: fold_overtake)

lemma order_steps_result:
  "order_step\<^sup>*\<^sup>* t t' \<Longrightarrow> fold take_effect (snd t') (fst t') = fold take_effect (snd t) (fst t)"
proof (induction rule: rtranclp_induct)
  case (step y z)
  then show ?case using order_step_result [of "fst y" "snd y" "fst z" "snd z"] by simp
qed simp

text \<open>What has not taken effect was there at the start, and only the bytes of the stores change.\<close>

fun op_bytes :: "host_op \<Rightarrow> nat set" where
  "op_bytes (St p bs) = span p (length bs)"
| "op_bytes _ = {}"

definition ops_bytes :: "host_op list \<Rightarrow> nat set" where
  "ops_bytes ops = (\<Union>x \<in> set ops. op_bytes x)"

definition no_irq :: "host_op list \<Rightarrow> bool" where
  "no_irq ops \<longleftrightarrow> (\<forall>v. Irq v \<notin> set ops)"

lemma take_effect_frame:
  "same_on (- op_bytes x) (s_mem s) (s_mem (take_effect x s))"
  "(\<forall>v. x \<noteq> Irq v) \<Longrightarrow> s_irq (take_effect x s) = s_irq s"
  by (cases x; auto simp: same_on_def poke_def)+

lemma order_steps_frame:
  "order_step\<^sup>*\<^sup>* t t' \<Longrightarrow> set (snd t') \<subseteq> set (snd t) \<and> same_on (- ops_bytes (snd t)) (s_mem (fst t)) (s_mem (fst t'))
     \<and> (no_irq (snd t) \<longrightarrow> s_irq (fst t') = s_irq (fst t))"
proof (induction rule: rtranclp_induct)
  case (step y z)
  obtain xs x ys where y: "snd y = xs @ x # ys" "z = (take_effect x (fst y), xs @ ys)"
    using step.hyps(2) by (cases y) (auto elim: order_stepE)
  then have x: "x \<in> set (snd t)" "set (snd z) \<subseteq> set (snd t)" using step.IH by auto
  have "same_on (- ops_bytes (snd t)) (s_mem (fst y)) (s_mem (fst z))"
    unfolding y(2) fst_conv
    by (rule same_on_subset [OF take_effect_frame(1)]) (use x(1) in \<open>auto simp: ops_bytes_def\<close>)
  moreover have "no_irq (snd t) \<Longrightarrow> s_irq (fst z) = s_irq (fst y)"
    using x(1) y(2) take_effect_frame(2) [of x "fst y"] by (auto simp: no_irq_def)
  ultimately show ?case using step.IH x(2) same_on_trans by (metis (no_types, lifting))
qed simp

text \<open>A fence cuts a run in two: before it the first part is under way, behind it that part is done.\<close>

lemma overtake_fence: "\<not> may_overtake x Fence"
  by (cases x) simp_all

lemma order_steps_fence:
  "order_step\<^sup>*\<^sup>* (s, a @ Fence # b) t \<Longrightarrow>
     (\<exists>s' a'. t = (s', a' @ Fence # b) \<and> order_step\<^sup>*\<^sup>* (s, a) (s', a'))
     \<or> order_step\<^sup>*\<^sup>* (fold take_effect a s, b) t"
proof (induction rule: rtranclp_induct)
  case base
  then show ?case by blast
next
  case (step y z)
  from step.IH show ?case
  proof
    assume "order_step\<^sup>*\<^sup>* (fold take_effect a s, b) y"
    then show ?case using step.hyps(2) by (meson rtranclp.rtrancl_into_rtrancl)
  next
    assume "\<exists>s' a'. y = (s', a' @ Fence # b) \<and> order_step\<^sup>*\<^sup>* (s, a) (s', a')"
    then obtain s' a' where y: "y = (s', a' @ Fence # b)" and a: "order_step\<^sup>*\<^sup>* (s, a) (s', a')" by blast
    obtain xs x ys where x: "a' @ Fence # b = xs @ x # ys" "z = (take_effect x s', xs @ ys)"
      "\<forall>w \<in> set xs. may_overtake x w"
      using step.hyps(2) unfolding y by (elim order_stepE) auto
    then have "Fence \<notin> set xs" using overtake_fence by blast
    then consider (inner) us where "a' = xs @ x # us" "ys = us @ Fence # b"
      | (fence) "xs = a'" "x = Fence" "ys = b"
      using x(1) by (auto simp: append_eq_append_conv2 append_eq_Cons_conv Cons_eq_append_conv)
    then show ?case
    proof cases
      case inner
      then have "order_step (s', a') (take_effect x s', xs @ us)" using order_step.intros [OF x(3)] by simp
      then show ?thesis using a x(2) inner by (auto intro: rtranclp.rtrancl_into_rtrancl)
    next
      case fence
      then have "a' = []" using x(3) by (cases a') auto
      then show ?thesis using order_steps_result [OF a] x(2) fence by simp
    qed
  qed
qed

text \<open>A store whose bytes no other store touches is seen whole or not at all.\<close>

definition off :: "nat set \<Rightarrow> host_op list \<Rightarrow> bool" where
  "off R ops \<longleftrightarrow> (\<forall>x \<in> set ops. op_bytes x \<inter> R = {})"

lemma off_simps [simp]:
  "off R []" "off R (x # xs) \<longleftrightarrow> op_bytes x \<inter> R = {} \<and> off R xs" "off R (xs @ ys) \<longleftrightarrow> off R xs \<and> off R ys"
  by (auto simp: off_def)

lemma off_peek: "op_bytes x \<inter> span p n = {} \<Longrightarrow> peek (s_mem (take_effect x s)) p n = peek (s_mem s) p n"
  by (rule same_on_peek [OF take_effect_frame(1)]) blast

lemma store_seen:
  assumes "off (span p (length bs)) (xs @ ys)"
  shows "order_step\<^sup>*\<^sup>* (s, xs @ St p bs # ys) t \<Longrightarrow>
    (\<exists>xs' ys'. snd t = xs' @ St p bs # ys' \<and> off (span p (length bs)) (xs' @ ys')
       \<and> peek (s_mem (fst t)) p (length bs) = peek (s_mem s) p (length bs))
    \<or> off (span p (length bs)) (snd t) \<and> peek (s_mem (fst t)) p (length bs) = bs"
proof (induction rule: rtranclp_induct)
  case base
  then show ?case using assms by auto
next
  case (step y z)
  obtain us x vs where y: "snd y = us @ x # vs" "z = (take_effect x (fst y), us @ vs)"
    using step.hyps(2) by (cases y) (auto elim: order_stepE)
  from step.IH show ?case
  proof
    assume "off (span p (length bs)) (snd y) \<and> peek (s_mem (fst y)) p (length bs) = bs"
    then show ?case using y off_peek by simp
  next
    assume "\<exists>xs' ys'. snd y = xs' @ St p bs # ys' \<and> off (span p (length bs)) (xs' @ ys')
       \<and> peek (s_mem (fst y)) p (length bs) = peek (s_mem s) p (length bs)"
    then obtain xs' ys' where o: "snd y = xs' @ St p bs # ys'" "off (span p (length bs)) (xs' @ ys')"
      "peek (s_mem (fst y)) p (length bs) = peek (s_mem s) p (length bs)" by blast
    consider (it) "us = xs'" "x = St p bs" "vs = ys'"
      | (before) ws where "xs' = us @ x # ws" "vs = ws @ St p bs # ys'"
      | (behind) ws where "us = xs' @ St p bs # ws" "ys' = ws @ x # vs"
      using y(1) o(1) by (auto simp: append_eq_append_conv2 append_eq_Cons_conv Cons_eq_append_conv)
    then show ?case
    proof cases
      case it
      then show ?thesis using y(2) o(2) by (simp add: peek_poke_same)
    next
      case before
      then have "peek (s_mem (fst z)) p (length bs) = peek (s_mem s) p (length bs)" using y(2) o(2,3) off_peek by simp
      moreover have "snd z = (us @ ws) @ St p bs # ys'" "off (span p (length bs)) ((us @ ws) @ ys')"
        using y(2) before o(2) by simp_all
      ultimately show ?thesis by blast
    next
      case behind
      then have "peek (s_mem (fst z)) p (length bs) = peek (s_mem s) p (length bs)" using y(2) o(2,3) off_peek by simp
      moreover have "snd z = xs' @ St p bs # (ws @ vs)" "off (span p (length bs)) (xs' @ (ws @ vs))"
        using y(2) behind o(2) by simp_all
      ultimately show ?thesis by blast
    qed
  qed
qed

section \<open>The stores of a service\<close>

text \<open>What the device class has stored (\<open>data\<close>), the used element, the fence, the used index; then
  \<open>set_interrupt\<close>: the status register at \<open>sp\<close>, the mutex (\<open>barrier\<close>: whether taking it orders the stores
  before it, as the locked instruction of an x86 host does, but the language does not promise), the
  interrupt register with a fence between its two values.\<close>

definition service_ops ::
  "vring_abi \<Rightarrow> u64 \<Rightarrow> u16 \<Rightarrow> u64 \<Rightarrow> mem \<Rightarrow> host_op list \<Rightarrow> nat \<Rightarrow> u32 \<Rightarrow> bool \<Rightarrow> u32 \<Rightarrow> host_op list" where
  "service_ops A U i n m data sp st barrier v =
     data @ map (\<lambda>(p, bs). St p bs) (take 2 (used_stores A U i n m)) @ [Fence]
     @ map (\<lambda>(p, bs). St p bs) (drop 2 (used_stores A U i n m))
     @ [St sp (bytes32 st)] @ (if barrier then [Fence] else []) @ [Irq v, Fence, Irq 0]"

text \<open>Buffers and status register lie outside the used ring.\<close>

definition stores_apart :: "u64 \<Rightarrow> host_op list \<Rightarrow> nat \<Rightarrow> bool" where
  "stores_apart U data sp \<longleftrightarrow> no_irq data \<and> off (used_region U) data \<and> span sp 4 \<inter> used_region U = {}"

lemma fold_frame:
  "same_on (- ops_bytes ops) (s_mem s) (s_mem (fold take_effect ops s))
     \<and> (no_irq ops \<longrightarrow> s_irq (fold take_effect ops s) = s_irq s)"
proof (induction ops arbitrary: s)
  case (Cons x ops)
  have "same_on (- ops_bytes (x # ops)) (s_mem s) (s_mem (take_effect x s))"
    by (rule same_on_subset [OF take_effect_frame(1)]) (auto simp: ops_bytes_def)
  moreover have "same_on (- ops_bytes (x # ops)) (s_mem (take_effect x s)) (s_mem (fold take_effect ops (take_effect x s)))"
    by (rule same_on_subset [OF conjunct1 [OF Cons.IH]]) (auto simp: ops_bytes_def)
  ultimately have "same_on (- ops_bytes (x # ops)) (s_mem s) (s_mem (fold take_effect (x # ops) s))"
    using same_on_trans by simp
  moreover have "no_irq (x # ops) \<Longrightarrow> s_irq (fold take_effect (x # ops) s) = s_irq s"
    using Cons.IH [of "take_effect x s"] take_effect_frame(2) [of x s] by (auto simp: no_irq_def)
  ultimately show ?case by blast
qed simp

lemma off_bytes: "off R ops \<Longrightarrow> R \<subseteq> - ops_bytes ops"
  by (auto simp: off_def ops_bytes_def)

lemma ops_bytes_simps [simp]:
  "ops_bytes [] = {}" "ops_bytes (x # xs) = op_bytes x \<union> ops_bytes xs" "ops_bytes (xs @ ys) = ops_bytes xs \<union> ops_bytes ys"
  by (auto simp: ops_bytes_def)

text \<open>The slot of the element in the ring, and what is read outside it.\<close>

definition slot_at :: "u64 \<Rightarrow> u16 \<Rightarrow> nat" where
  "slot_at U u = unat U + 4 + 8 * (unat u mod 16384)"

lemma slot_in_ring: "span (slot_at U u) 8 \<subseteq> used_region U" "span (unat U + 2) 2 \<subseteq> used_region U"
  "span (unat U + 2) 2 \<inter> span (slot_at U u) 8 = {}"
proof -
  have "unat u mod 16384 < 16384" by simp
  then show "span (slot_at U u) 8 \<subseteq> used_region U" "span (unat U + 2) 2 \<subseteq> used_region U"
    unfolding used_region_def slot_at_def by (intro span_mono; linarith)+
  show "span (unat U + 2) 2 \<inter> span (slot_at U u) 8 = {}" by (auto simp: slot_at_def)
qed

lemma used_elem_at: "abi_ok A \<Longrightarrow> used_elem A m U j = (val32 m (slot_at U j), val32 m (slot_at U j + 4))"
  by (simp add: used_elem_def abi_ok_def queue_size_def slot_at_def Let_def)

lemma spans_apart:
  assumes "span p n \<inter> span q k = {}" "0 < n" "0 < k"
  shows "p + n \<le> q \<or> q + k \<le> p"
proof (rule ccontr)
  assume "\<not> (p + n \<le> q \<or> q + k \<le> p)"
  then have "max p q \<in> span p n \<inter> span q k" using assms(2,3) by (auto simp: max_def)
  then show False using assms(1) by blast
qed

lemma used_elem_same:
  assumes A: "abi_ok A" and "same_on (span (slot_at U j) 8) m m'"
  shows "used_elem A m' U j = used_elem A m U j"
proof -
  have "span (slot_at U j + 0) 4 \<subseteq> span (slot_at U j) 8" "span (slot_at U j + 4) 4 \<subseteq> span (slot_at U j) 8"
    by (intro span_mono; simp)+
  then show ?thesis
    using same_on_vals(2) [OF assms(2)] by (simp add: used_elem_at [OF A])
qed

lemma used_count_same:
  "abi_ok A \<Longrightarrow> same_on (span (unat U + 2) 2) m m' \<Longrightarrow> used_count A m' U = used_count A m U"
  using same_on_vals(1) [of "span (unat U + 2) 2"] by (simp add: used_count_def abi_ok_def)

lemma slots_disjoint:
  assumes "unat (j :: u16) mod 16384 \<noteq> unat u mod 16384"
  shows "span (slot_at U j) 8 \<inter> span (slot_at U u) 8 = {}"
  using slot_apart [OF assms, of "unat U"] by (auto simp: slot_at_def)

lemma service_ops_eq:
  assumes "abi_ok A" "u = used_count A m U"
  shows "service_ops A U i n m data sp st barrier v =
    (data @ [St (slot_at U u) (bytes32 (ucast i)), St (slot_at U u + 4) (bytes32 (ucast n))]) @ Fence
    # ([St (unat U + 2) (bytes16 (u + 1)), St sp (bytes32 st)] @ (if barrier then [Fence] else []) @ [Irq v, Fence, Irq 0])"
  using assms by (simp add: service_ops_def used_stores_def abi_ok_def slot_at_def queue_size_def Let_def numeral_2_eq_2)

text \<open>The first part of a service: buffers and element, before the fence.\<close>

lemma first_part:
  assumes A: "abi_ok A" and ap: "stores_apart U data sp" and u: "u = used_count A m U"
    and ops: "ops = data @ [St (slot_at U u) (bytes32 (ucast (i :: u16))), St (slot_at U u + 4) (bytes32 (ucast (n :: u64)))]"
    and s0: "s0 = \<lparr>s_mem = m, s_irq = []\<rparr>"
  shows "order_step\<^sup>*\<^sup>* (s0, ops) t \<Longrightarrow> s_irq (fst t) = [] \<and> used_count A (s_mem (fst t)) U = u
      \<and> (\<forall>j. unat j mod 16384 \<noteq> unat u mod 16384 \<longrightarrow> used_elem A (s_mem (fst t)) U j = used_elem A m U j)"
    "used_count A (s_mem (fold take_effect ops s0)) U = u" "used_elem A (s_mem (fold take_effect ops s0)) U u = (ucast i, ucast n)"
    "s_irq (fold take_effect ops s0) = []"
    "same_on (- used_region U) (s_mem (fold take_effect data s0)) (s_mem (fold take_effect ops s0))"
    "unat j mod 16384 \<noteq> unat u mod 16384 \<Longrightarrow> used_elem A (s_mem (fold take_effect ops s0)) U j = used_elem A m U j"
proof -
  have bytes: "ops_bytes ops \<inter> (used_region U - span (slot_at U u) 8) = {}" and irq: "no_irq ops"
    using ap by (auto simp: ops stores_apart_def no_irq_def dest!: off_bytes)
  have reads: "used_count A m' U = u \<and> (\<forall>j. unat j mod 16384 \<noteq> unat u mod 16384 \<longrightarrow> used_elem A m' U j = used_elem A m U j)"
    if "same_on (- ops_bytes ops) m m'" for m'
  proof -
    have keep: "same_on (used_region U - span (slot_at U u) 8) m m'" by (rule same_on_subset [OF that]) (use bytes in blast)
    have "span (unat U + 2) 2 \<subseteq> used_region U - span (slot_at U u) 8" using slot_in_ring(2) [of U] slot_in_ring(3) [of U u] by blast
    from used_count_same [OF A same_on_subset [OF keep this]] have "used_count A m' U = u" by (simp add: u)
    moreover have "used_elem A m' U j = used_elem A m U j" if "unat j mod 16384 \<noteq> unat u mod 16384" for j
    proof (rule used_elem_same [OF A same_on_subset [OF keep]])
      show "span (slot_at U j) 8 \<subseteq> used_region U - span (slot_at U u) 8"
        using slot_in_ring(1) [of U j] slots_disjoint [OF that, of U] by blast
    qed
    ultimately show ?thesis by blast
  qed
  show "s_irq (fst t) = [] \<and> used_count A (s_mem (fst t)) U = u
      \<and> (\<forall>j. unat j mod 16384 \<noteq> unat u mod 16384 \<longrightarrow> used_elem A (s_mem (fst t)) U j = used_elem A m U j)"
    if "order_step\<^sup>*\<^sup>* (s0, ops) t"
  proof -
    have "same_on (- ops_bytes ops) m (s_mem (fst t))" "s_irq (fst t) = []"
      using order_steps_frame [OF that] irq by (simp_all add: s0)
    then show ?thesis using reads by blast
  qed
  have fr: "same_on (- ops_bytes ops) m (s_mem (fold take_effect ops s0))" using fold_frame [of ops s0] by (simp add: s0)
  show "used_count A (s_mem (fold take_effect ops s0)) U = u" using reads [OF fr] by blast
  show "unat j mod 16384 \<noteq> unat u mod 16384 \<Longrightarrow> used_elem A (s_mem (fold take_effect ops s0)) U j = used_elem A m U j"
    using reads [OF fr] by blast
  show "s_irq (fold take_effect ops s0) = []" using fold_frame [of ops s0] irq by (simp add: s0)
  have mem: "s_mem (fold take_effect ops s0) = poke (poke (s_mem (fold take_effect data s0)) (slot_at U u) (bytes32 (ucast i)))
        (slot_at U u + 4) (bytes32 (ucast n))" unfolding ops by simp
  show "used_elem A (s_mem (fold take_effect ops s0)) U u = (ucast i, ucast n)"
    unfolding used_elem_at [OF A] mem by (simp add: val_poke_same val_poke_disjoint)
  have "span (slot_at U u) 4 \<union> span (slot_at U u + 4) 4 \<subseteq> used_region U" using slot_in_ring(1) [of U u] by auto
  then show "same_on (- used_region U) (s_mem (fold take_effect data s0)) (s_mem (fold take_effect ops s0))"
    unfolding mem
    by (intro same_on_trans [OF same_on_poke same_on_poke]) auto
qed

text \<open>The second part: index, status register, mutex and interrupt.\<close>

lemma second_part:
  assumes A: "abi_ok A" and ap: "span sp 4 \<inter> used_region U = {}" and u: "used_count A (s_mem s1) U = u" and irq: "s_irq s1 = []"
    and run: "order_step\<^sup>*\<^sup>* (s1, [St (unat U + 2) (bytes16 (u + 1)), St sp (bytes32 st)]
        @ (if barrier then [Fence] else []) @ [Irq v, Fence, Irq 0]) t"
  shows "used_count A (s_mem (fst t)) U \<in> {u, u + 1}" "used_elem A (s_mem (fst t)) U j = used_elem A (s_mem s1) U j"
    "same_on (- (used_region U \<union> span sp 4)) (s_mem s1) (s_mem (fst t))"
    "barrier \<Longrightarrow> s_irq (fst t) \<noteq> [] \<Longrightarrow> used_count A (s_mem (fst t)) U = u + 1 \<and> val32 (s_mem (fst t)) sp = st"
proof -
  let ?lock = "if barrier then [Fence] else []" and ?b = "[St (unat U + 2) (bytes16 (u + 1)), St sp (bytes32 st)]"
  have fr: "same_on (- (span (unat U + 2) 2 \<union> span sp 4)) (s_mem s1) (s_mem (fst t))"
    using order_steps_frame [OF run] by (cases barrier) simp_all
  show "same_on (- (used_region U \<union> span sp 4)) (s_mem s1) (s_mem (fst t))"
    by (rule same_on_subset [OF fr]) (use slot_in_ring(2) [of U] in blast)
  show "used_elem A (s_mem (fst t)) U j = used_elem A (s_mem s1) U j"
    by (rule used_elem_same [OF A same_on_subset [OF fr]]) (use slot_in_ring(1) [of U j] slot_in_ring(3) [of U j] ap in blast)
  have "off (span (unat U + 2) (length (bytes16 (u + 1)))) ([] @ (St sp (bytes32 st) # ?lock @ [Irq v, Fence, Irq 0]))"
    using ap slot_in_ring(2) [of U] by auto
  from store_seen [OF this, of s1 t] run
  have "peek (s_mem (fst t)) (unat U + 2) 2 = peek (s_mem s1) (unat U + 2) 2
      \<or> peek (s_mem (fst t)) (unat U + 2) 2 = bytes16 (u + 1)" by auto
  moreover have "of_nat (of_le (bytes16 w)) = w" for w using val_poke_same(1) [of "\<lambda>_. 0" 0 w]
    by (simp add: val16_def peek_poke_same)
  ultimately show "used_count A (s_mem (fst t)) U \<in> {u, u + 1}"
    using A u by (auto simp: used_count_def val16_def abi_ok_def)
  show "used_count A (s_mem (fst t)) U = u + 1 \<and> val32 (s_mem (fst t)) sp = st" if b: "barrier" "s_irq (fst t) \<noteq> []"
  proof -
    have "order_step\<^sup>*\<^sup>* (s1, ?b @ Fence # [Irq v, Fence, Irq 0]) t" using run b(1) by simp
    from order_steps_fence [OF this] show ?thesis
    proof
      assume "\<exists>s' a'. t = (s', a' @ Fence # [Irq v, Fence, Irq 0]) \<and> order_step\<^sup>*\<^sup>* (s1, ?b) (s', a')"
      then obtain s' a' where "t = (s', a' @ Fence # [Irq v, Fence, Irq 0])" "order_step\<^sup>*\<^sup>* (s1, ?b) (s', a')" by blast
      then show ?thesis using order_steps_frame [of "(s1, ?b)" "(s', a')"] irq b(2) by (simp add: no_irq_def)
    next
      assume "order_step\<^sup>*\<^sup>* (fold take_effect ?b s1, [Irq v, Fence, Irq 0]) t"
      from order_steps_frame [OF this]
      have "same_on UNIV (s_mem (fold take_effect ?b s1)) (s_mem (fst t))" by simp
      then have "s_mem (fst t) = poke (poke (s_mem s1) (unat U + 2) (bytes16 (u + 1))) sp (bytes32 st)"
        by (auto simp: same_on_def fun_eq_iff)
      moreover have "span sp 4 \<inter> span (unat U + 2) 2 = {}" using ap slot_in_ring(2) [of U] by blast
      then have "sp + 4 \<le> unat U + 2 \<or> unat U + 2 + 2 \<le> sp" by (rule spans_apart) simp_all
      moreover have "val16 (poke (poke m q (bytes16 (u + 1))) sp (bytes32 st)) q = u + 1" if "sp + 4 \<le> q \<or> q + 2 \<le> sp" for m q
        using that by (subst val_poke_disjoint(1)) (auto simp: val_poke_same)
      ultimately show ?thesis using A by (simp add: used_count_def abi_ok_def val_poke_same)
    qed
  qed
qed

text \<open>C19: what the fences guarantee. Between two fences the stores of a service may take effect in any
  order that keeps overlapping ones in theirs. Still the driver reads either the old used index or
  the next; with the next it sees the element whole and all the device class has stored in its
  buffers; the other elements never change. When taking the mutex orders the stores before it, the
  interrupt is seen only with the index and the status register in place. When all have taken effect
  the result is that of the stores in program order.\<close>

theorem fences_order_service:
  assumes A: "abi_ok A" and ap: "stores_apart U data sp" and u: "u = used_count A m U"
    and run: "order_step\<^sup>*\<^sup>* (\<lparr>s_mem = m, s_irq = []\<rparr>, service_ops A U i n m data sp st barrier v) (s, left)"
    and buf: "written = s_mem (fold take_effect data \<lparr>s_mem = m, s_irq = []\<rparr>)"
  shows "used_count A (s_mem s) U \<in> {u, u + 1}
     \<and> (used_count A (s_mem s) U = u + 1 \<longrightarrow>
          used_elem A (s_mem s) U u = (ucast i, ucast n) \<and> same_on (- (used_region U \<union> span sp 4)) written (s_mem s))
     \<and> (\<forall>j. unat j mod 16384 = unat u mod 16384 \<or> used_elem A (s_mem s) U j = used_elem A m U j)
     \<and> (barrier \<and> s_irq s \<noteq> [] \<longrightarrow> used_count A (s_mem s) U = u + 1 \<and> val32 (s_mem s) sp = st)
     \<and> (left = [] \<longrightarrow> s = fold take_effect (service_ops A U i n m data sp st barrier v) \<lparr>s_mem = m, s_irq = []\<rparr>)"
proof -
  let ?s0 = "\<lparr>s_mem = m, s_irq = []\<rparr>"
  let ?a = "data @ [St (slot_at U u) (bytes32 (ucast i)), St (slot_at U u + 4) (bytes32 (ucast n))]"
  let ?b = "[St (unat U + 2) (bytes16 (u + 1)), St sp (bytes32 st)] @ (if barrier then [Fence] else []) @ [Irq v, Fence, Irq 0]"
  note one = first_part [OF A ap u refl refl, where i = i and n = n]
  have sp: "span sp 4 \<inter> used_region U = {}" using ap by (simp add: stores_apart_def)
  have "u + 1 \<noteq> u" by simp
  have all: "left = [] \<Longrightarrow> s = fold take_effect (service_ops A U i n m data sp st barrier v) ?s0"
    using order_steps_result [OF run] by simp
  have "order_step\<^sup>*\<^sup>* (?s0, ?a @ Fence # ?b) (s, left)" using run unfolding service_ops_eq [OF A u] .
  from order_steps_fence [OF this] show ?thesis
  proof
    assume "\<exists>s' a'. (s, left) = (s', a' @ Fence # ?b) \<and> order_step\<^sup>*\<^sup>* (?s0, ?a) (s', a')"
    then obtain a' where "order_step\<^sup>*\<^sup>* (?s0, ?a) (s, a')" by blast
    from one(1) [OF this] all \<open>u + 1 \<noteq> u\<close> show ?thesis by auto
  next
    assume b: "order_step\<^sup>*\<^sup>* (fold take_effect ?a ?s0, ?b) (s, left)"
    note two = second_part [OF A sp one(2,4) b, unfolded fst_conv]
    have "used_elem A (s_mem s) U u = (ucast i, ucast n)" using two(2) one(3) by simp
    moreover have "same_on (- (used_region U \<union> span sp 4)) written (s_mem s)"
      using same_on_trans [OF same_on_subset [OF one(5)] two(3)] unfolding buf by blast
    moreover have "unat j mod 16384 = unat u mod 16384 \<or> used_elem A (s_mem s) U j = used_elem A m U j" for j
      using two(2) [of j] one(6) [of j] by auto
    ultimately show ?thesis using two(1,4) all by blast
  qed
qed

text \<open>A run by the positions of the operations that take effect next.\<close>

fun order_run :: "nat list \<Rightarrow> seen \<times> host_op list \<Rightarrow> (seen \<times> host_op list) option" where
  "order_run [] t = Some t"
| "order_run (k # ks) (s, ops) =
     (if k < length ops \<and> list_all (may_overtake (ops ! k)) (take k ops)
      then order_run ks (take_effect (ops ! k) s, take k ops @ drop (Suc k) ops) else None)"

lemma order_run_steps: "order_run ks t = Some t' \<Longrightarrow> order_step\<^sup>*\<^sup>* t t'"
proof (induction ks t rule: order_run.induct)
  case (2 k ks s ops)
  then have k: "k < length ops" "\<forall>y \<in> set (take k ops). may_overtake (ops ! k) y"
    and rest: "order_step\<^sup>*\<^sup>* (take_effect (ops ! k) s, take k ops @ drop (Suc k) ops) t'"
    by (simp_all add: list_all_iff split: if_splits)
  have "order_step (s, take k ops @ ops ! k # drop (Suc k) ops) (take_effect (ops ! k) s, take k ops @ drop (Suc k) ops)"
    using k(2) by (rule order_step.intros)
  then show ?case using rest id_take_nth_drop [OF k(1)] by (simp add: converse_rtranclp_into_rtranclp)
qed simp

text \<open>The length of the element overtakes its id, both overtake the buffer, the status register the index.\<close>

theorem fences_order_service_witness:
  "\<exists>s. order_step\<^sup>*\<^sup>* (\<lparr>s_mem = (\<lambda>_. 0), s_irq = []\<rparr>,
          service_ops linux_abi 0x100000 5 513 (\<lambda>_. 0) [St 0x200000 [1, 2, 3]] 0x300060 1 True 4) (s, [Fence, Irq 0])
     \<and> s_irq s = [4] \<and> used_count linux_abi (s_mem s) 0x100000 = 1
     \<and> used_elem linux_abi (s_mem s) 0x100000 0 = (5, 513) \<and> peek (s_mem s) 0x200000 3 = [1, 2, 3]"
proof -
  let ?data = "[St 0x200000 [1, 2, 3]]" and ?s0 = "\<lparr>s_mem = (\<lambda>_. 0), s_irq = []\<rparr>"
  let ?ops = "service_ops linux_abi 0x100000 5 513 (\<lambda>_. 0) ?data 0x300060 1 True 4"
  have count: "0 = used_count linux_abi (\<lambda>_. 0) 0x100000"
    by (simp add: used_count_def)
  have ops: "?ops = (?data @ [St (slot_at 0x100000 0) (bytes32 (ucast (5 :: u16))), St (slot_at 0x100000 0 + 4) (bytes32 (ucast (513 :: u64)))])
      @ Fence # ([St (unat (0x100000 :: u64) + 2) (bytes16 (0 + 1)), St 0x300060 (bytes32 1)] @ (if True then [Fence] else [])
        @ [Irq 4, Fence, Irq 0])" by (rule service_ops_eq [OF abi_ok_linux count])
  obtain s where "order_run [2, 1, 0, 0, 1, 0, 0, 0] (?s0, ?ops) = Some (s, [Fence, Irq 0])" and irq: "s_irq s = [4]"
    unfolding ops by (simp add: slot_at_def)
  then have run: "order_step\<^sup>*\<^sup>* (?s0, ?ops) (s, [Fence, Irq 0])" by (blast intro: order_run_steps)
  have ap: "stores_apart 0x100000 ?data 0x300060"
    by (auto simp: stores_apart_def no_irq_def used_region_def)
  note t = fences_order_service [OF abi_ok_linux ap count run refl]
  have c: "used_count linux_abi (s_mem s) 0x100000 = 1" using t irq by simp
  have "span 0x200000 3 \<subseteq> - (used_region 0x100000 \<union> span 0x300060 4)" by (auto simp: used_region_def)
  then have "peek (s_mem s) 0x200000 3 = peek (s_mem (fold take_effect ?data ?s0)) 0x200000 3"
    using t c by (intro same_on_peek) auto
  then show ?thesis using run irq t c by (intro exI [of _ s]) (simp add: peek_poke_same)
qed

text \<open>In program order the stores are those of \<open>put_used\<close> and \<open>set_interrupt\<close>.\<close>

lemma service_ops_result:
  assumes "fold take_effect data \<lparr>s_mem = m, s_irq = []\<rparr> = \<lparr>s_mem = mD, s_irq = []\<rparr>" "used_count A mD U = used_count A m U"
  shows "fold take_effect (service_ops A U i n m data sp st barrier v) \<lparr>s_mem = m, s_irq = []\<rparr>
    = \<lparr>s_mem = poke (publish A U i n mD) sp (bytes32 st), s_irq = [v, 0]\<rparr>"
  using assms
  by (simp add: service_ops_def publish_def apply_stores_def used_stores_def Let_def numeral_2_eq_2)

text \<open>Without a barrier in the mutex the interrupt may be seen before the index it announces.\<close>

lemma interrupt_overtakes_index:
  assumes A: "abi_ok A"
  shows "\<exists>left s. order_step\<^sup>*\<^sup>* (\<lparr>s_mem = m, s_irq = []\<rparr>, service_ops A U i n m [] sp st False v) (s, left)
     \<and> s_irq s = [v] \<and> used_count A (s_mem s) U = used_count A m U"
proof -
  let ?u = "used_count A m U"
  let ?x = "St (slot_at U ?u) (bytes32 (ucast i))" and ?y = "St (slot_at U ?u + 4) (bytes32 (ucast n))"
  let ?r = "[St (unat U + 2) (bytes16 (?u + 1)), St sp (bytes32 st)]"
  let ?s2 = "take_effect ?y (take_effect ?x \<lparr>s_mem = m, s_irq = []\<rparr>)"
  have step: "order_step (s, x # ys) (take_effect x s, ys)" for s x ys
    using order_step.intros [of "[]" x s ys] by simp
  have "order_step (\<lparr>s_mem = m, s_irq = []\<rparr>, ?x # ?y # Fence # ?r @ [Irq v, Fence, Irq 0])
      (take_effect ?x \<lparr>s_mem = m, s_irq = []\<rparr>, ?y # Fence # ?r @ [Irq v, Fence, Irq 0])" by (rule step)
  moreover have "order_step (take_effect ?x \<lparr>s_mem = m, s_irq = []\<rparr>, ?y # Fence # ?r @ [Irq v, Fence, Irq 0])
      (?s2, Fence # ?r @ [Irq v, Fence, Irq 0])" by (rule step)
  moreover have "order_step (?s2, Fence # ?r @ [Irq v, Fence, Irq 0]) (?s2, ?r @ [Irq v, Fence, Irq 0])"
    using step [of ?s2 Fence] by simp
  moreover have "order_step (?s2, ?r @ Irq v # [Fence, Irq 0]) (take_effect (Irq v) ?s2, ?r @ [Fence, Irq 0])"
    by (rule order_step.intros) simp
  ultimately have run: "order_step\<^sup>*\<^sup>* (\<lparr>s_mem = m, s_irq = []\<rparr>, service_ops A U i n m [] sp st False v)
      (take_effect (Irq v) ?s2, ?r @ [Fence, Irq 0])"
    unfolding service_ops_eq [OF A refl] by (simp del: take_effect.simps)
  have "used_count A (s_mem ?s2) U = ?u"
  proof (rule used_count_same [OF A])
    show "same_on (span (unat U + 2) 2) m (s_mem ?s2)"
      using slot_in_ring(3) [of U ?u] by (auto simp: same_on_def poke_def slot_at_def)
  qed
  then show ?thesis using run by (intro exI conjI) (assumption | simp)+
qed

end
