(* ===== verification/Device_Run.thy ===== *)
theory Device_Run
  imports Virtqueue
begin

text \<open>
  Whole runs of \<open>device_loop\<close> (\<^verbatim>\<open>console/virtiodevice.hpp\<close>): several queues and several rounds. A round
  services the queues one after the other; what keeps them from disturbing each other is that the
  rings lie apart and that the buffers of a chain lie outside all of them.
\<close>

section \<open>Rings that lie apart\<close>

definition all_rings :: "devcfg \<Rightarrow> nat \<Rightarrow> nat set" where
  "all_rings cfg n = (\<Union>q < n. ring_region cfg q)"

definition rings_apart :: "devcfg \<Rightarrow> nat \<Rightarrow> bool" where
  "rings_apart cfg n \<longleftrightarrow>
     (\<forall>q < n. rings_ok cfg q \<and> table_region (desc cfg ! q) \<inter> used_region (used cfg ! q) = {})
     \<and> (\<forall>q < n. \<forall>r < n. q \<noteq> r \<longrightarrow> ring_region cfg r \<inter> used_region (used cfg ! q) = {})"

lemma ring_in_all: "q < n \<Longrightarrow> ring_region cfg q \<subseteq> all_rings cfg n"
  by (auto simp: all_rings_def)

lemma rings_apart_ok: "rings_apart cfg n \<Longrightarrow> q < n \<Longrightarrow> rings_ok cfg q"
  by (simp add: rings_apart_def)

lemma rings_apart_table:
  "rings_apart cfg n \<Longrightarrow> q < n \<Longrightarrow> r < n \<Longrightarrow> table_region (desc cfg ! r) \<subseteq> - used_region (used cfg ! q)"
  using ring_regions(1) [of cfg r] unfolding rings_apart_def by (cases "r = q") blast+

text \<open>What the driver sees of a queue: the heads that wait, and a chain as posted.\<close>

definition waiting :: "vring_abi \<Rightarrow> devcfg \<Rightarrow> nat \<Rightarrow> 'b dev \<Rightarrow> u16 list" where
  "waiting A cfg q d = todo A (memory d) (avail cfg ! q) (processed d ! q)"

definition chain_of :: "nat \<Rightarrow> vring_abi \<Rightarrow> devcfg \<Rightarrow> nat \<Rightarrow> mem \<Rightarrow> u16 \<Rightarrow> (u64 \<times> u32) list option" where
  "chain_of fuel A cfg q m i = chain_at fuel A m (starting_address_of cfg) (desc cfg ! q) i"

lemma chain_at_same:
  assumes "abi_ok A" "same_on (table_region D) m m'"
  shows "chain_at f A m' start D i = chain_at f A m start D i"
proof (induction f arbitrary: i)
  case 0
  then show ?case by simp
next
  case (Suc f)
  note v = same_on_vals [OF assms(2) desc_region [OF assms(1)]]
  have "val64 m' (desc_at A D i + 0) = val64 m (desc_at A D i + 0)"
    "val32 m' (desc_at A D i + 8) = val32 m (desc_at A D i + 8)"
    "val16 m' (desc_at A D i + 12) = val16 m (desc_at A D i + 12)"
    "val16 m' (desc_at A D i + 14) = val16 m (desc_at A D i + 14)"
    by (rule v; simp)+
  then show ?case
    using assms(1) Suc by (simp add: chain_at_Suc chain_more_def chain_next_def abi_ok_def Let_def)
qed

text \<open>Every head that waits in one of the \<open>n\<close> queues starts a chain that ends, and no operation on it
  reaches any of the rings.\<close>

definition chain_ok ::
  "nat \<Rightarrow> vring_abi \<Rightarrow> 'b backend \<Rightarrow> (chain_op \<Rightarrow> nat \<Rightarrow> u64 \<Rightarrow> u64 \<Rightarrow> nat set) \<Rightarrow> devcfg \<Rightarrow> nat \<Rightarrow> nat \<Rightarrow> mem \<Rightarrow> u16 \<Rightarrow> bool" where
  "chain_ok fuel A bk reach cfg n q m i \<longleftrightarrow>
     (case chain_of fuel A cfg q m i of
        None \<Rightarrow> False
      | Some ds \<Rightarrow> ops_apart reach q (all_rings cfg n) (chain_ops (queue_header_size bk) 0 ds))"

definition chains_ok ::
  "nat \<Rightarrow> vring_abi \<Rightarrow> 'b backend \<Rightarrow> (chain_op \<Rightarrow> nat \<Rightarrow> u64 \<Rightarrow> u64 \<Rightarrow> nat set) \<Rightarrow> devcfg \<Rightarrow> nat \<Rightarrow> 'b dev \<Rightarrow> bool" where
  "chains_ok fuel A bk reach cfg n d \<longleftrightarrow>
     (\<forall>q < n. \<forall>i \<in> set (waiting A cfg q d). chain_ok fuel A bk reach cfg n q (memory d) i)"

lemma waiting_frame:
  assumes "abi_ok A" "same_on (ring_region cfg q) (memory d) (memory d')" "processed d' ! q = processed d ! q"
  shows "waiting A cfg q d' = waiting A cfg q d"
  using todo_same [OF assms(1) same_on_subset [OF assms(2) ring_regions(2)]] assms(3)
  by (simp add: waiting_def)

lemma chain_ok_frame:
  assumes "abi_ok A" "same_on (table_region (desc cfg ! q)) m m'"
  shows "chain_ok fuel A bk reach cfg n q m' i = chain_ok fuel A bk reach cfg n q m i"
  using chain_at_same [OF assms] by (simp add: chain_ok_def chain_of_def)

section \<open>One service among several queues\<close>

context virtio_backend
begin

text \<open>A service that serves: the queue itself advances by its oldest head, the others stay as they
  are, and the chains still waiting stay well-formed.\<close>

lemma service_among:
  assumes A: "abi_ok A" and apart: "rings_apart cfg n" and q: "q < n" and len: "n \<le> length (processed d)"
    and chains: "chains_ok fuel A bk reach cfg n d" and busy: "\<not> skip_round A bk cfg q d"
    and run: "service_queue fuel A bk cfg q d = Inr d'"
  obtains i "is" ds s where "waiting A cfg q d = i # is" "chain_of fuel A cfg q (memory d) i = Some ds"
    "run_ops bk q (chain_ops (queue_header_size bk) 0 ds) (dclass d, memory d) = Inr s"
    "d' = served A cfg q i ds s d"
    "ops_apart reach q (all_rings cfg n) (chain_ops (queue_header_size bk) 0 ds)"
proof -
  obtain i "is" where i: "todo A (memory d) (avail cfg ! q) (processed d ! q) = i # is"
    and data: "queue_has_data bk q (dclass d)"
    using busy by (cases "todo A (memory d) (avail cfg ! q) (processed d ! q)") (auto simp: skip_round_def)
  then have "chain_ok fuel A bk reach cfg n q (memory d) i"
    using chains q by (simp add: chains_ok_def waiting_def)
  then obtain ds where ds: "chain_of fuel A cfg q (memory d) i = Some ds"
    and ap: "ops_apart reach q (all_rings cfg n) (chain_ops (queue_header_size bk) 0 ds)"
    by (auto simp: chain_ok_def split: option.splits)
  have "service_queue fuel A bk cfg q d =
           bindR (run_ops bk q (chain_ops (queue_header_size bk) 0 ds) (dclass d, memory d))
             (\<lambda>s. Inr (served A cfg q i ds s d))"
    using q len ds ops_apart_subset [OF ap ring_in_all [OF q]]
    by (intro service_queue_serves [OF A rings_apart_ok [OF apart q] _ i data]) (simp_all add: chain_of_def)
  with run obtain s where
    "run_ops bk q (chain_ops (queue_header_size bk) 0 ds) (dclass d, memory d) = Inr s"
    "d' = served A cfg q i ds s d"
    by (auto simp: bindR_Inr_iff)
  with i ds ap that show ?thesis by (simp add: waiting_def)
qed

end

section \<open>What a queue has delivered\<close>

text \<open>\<open>delivers A cfg q d cs d'\<close>: from \<open>d\<close> to \<open>d'\<close> the device has taken the oldest heads of queue \<open>q\<close>
  and put them, with their byte counts, into its used ring: \<open>cs\<close>, in this order.\<close>

definition delivers :: "vring_abi \<Rightarrow> devcfg \<Rightarrow> nat \<Rightarrow> 'b dev \<Rightarrow> (u16 \<times> u32) list \<Rightarrow> 'b dev \<Rightarrow> bool" where
  "delivers A cfg q d cs d' \<longleftrightarrow>
     waiting A cfg q d = map fst cs @ waiting A cfg q d'
     \<and> processed d' ! q = processed d ! q + of_nat (length cs)
     \<and> (\<forall>base hs. published A (memory d) (used cfg ! q) base hs \<longrightarrow>
          published A (memory d') (used cfg ! q) base (hs @ used_entries cs))"

lemma delivers_refl: "delivers A cfg q d [] d"
  by (simp add: delivers_def)

lemma delivers_trans:
  assumes "delivers A cfg q d cs d1" "delivers A cfg q d1 cs' d2"
  shows "delivers A cfg q d (cs @ cs') d2"
proof -
  have "published A (memory d2) (used cfg ! q) base (hs @ used_entries (cs @ cs'))"
    if "published A (memory d) (used cfg ! q) base hs" for base hs
    using that assms unfolding delivers_def map_append append_assoc [symmetric] by blast
  then show ?thesis using assms unfolding delivers_def by (simp add: add.assoc)
qed

lemma delivers_frame:
  assumes "abi_ok A" "same_on (ring_region cfg q) (memory d) (memory d')" "processed d' ! q = processed d ! q"
  shows "delivers A cfg q d [] d'"
  using waiting_frame [OF assms] assms(3)
    published_same [OF assms(1) same_on_subset [OF assms(2) ring_regions(3)]]
  by (simp add: delivers_def)

context virtio_backend
begin

lemma served_delivers:
  assumes A: "abi_ok A" and ok: "rings_ok cfg q" "q < length (processed d)"
    and i: "waiting A cfg q d = i # is"
    and apart: "ops_apart reach q (ring_region cfg q) (chain_ops (queue_header_size bk) 0 ds)"
    and run: "run_ops bk q (chain_ops (queue_header_size bk) 0 ds) (dclass d, memory d) = Inr s"
  shows "delivers A cfg q d [(i, ucast (chain_len ds))] (served A cfg q i ds s d)"
proof -
  note r = served_rings [OF A ok i [unfolded waiting_def] apart run]
  have "processed (served A cfg q i ds s d) ! q = processed d ! q + 1"
    using ok(2) by (simp add: served_def set_interrupt_def)
  then show ?thesis
    using i r(1) published_snoc [OF _ r(2-4)] by (simp add: delivers_def waiting_def)
qed

text \<open>The memory a service changes: the buffers of its chain and its own used ring.\<close>

lemma served_same_on:
  assumes A: "abi_ok A"
    and apart: "ops_apart reach q R (chain_ops (queue_header_size bk) 0 ds)"
    and run: "run_ops bk q (chain_ops (queue_header_size bk) 0 ds) (dclass d, memory d) = Inr s"
  shows "same_on (R - used_region (used cfg ! q)) (memory d) (memory (served A cfg q i ds s d))"
proof -
  have "same_on (- used_region (used cfg ! q)) (snd s) (memory (served A cfg q i ds s d))"
    using publish_reads(4) [OF A] by (simp add: served_def set_interrupt_def)
  then show ?thesis
    using run_ops_same [OF run apart] by (simp add: same_on_def)
qed

text \<open>A service among queues whose rings lie apart, seen from each of them.\<close>

lemma served_among:
  assumes A: "abi_ok A" and apart: "rings_apart cfg n" and q: "q < n" and len: "n \<le> length (processed d)"
    and i: "waiting A cfg q d = i # is"
    and ap: "ops_apart reach q (all_rings cfg n) (chain_ops (queue_header_size bk) 0 ds)"
    and run: "run_ops bk q (chain_ops (queue_header_size bk) 0 ds) (dclass d, memory d) = Inr s"
  defines "d' \<equiv> served A cfg q i ds s d"
  shows "delivers A cfg q d [(i, ucast (chain_len ds))] d'"
    "r < n \<Longrightarrow> r \<noteq> q \<Longrightarrow> delivers A cfg r d [] d'"
    "r < n \<Longrightarrow> same_on (table_region (desc cfg ! r)) (memory d) (memory d')"
proof -
  have same: "same_on (all_rings cfg n - used_region (used cfg ! q)) (memory d) (memory d')"
    unfolding d'_def by (rule served_same_on [OF A ap run])
  show "delivers A cfg q d [(i, ucast (chain_len ds))] d'"
    unfolding d'_def using q len ops_apart_subset [OF ap ring_in_all [OF q]]
    by (intro served_delivers [OF A rings_apart_ok [OF apart q] _ i _ run]) simp_all
  show "delivers A cfg r d [] d'" if r: "r < n" "r \<noteq> q"
  proof -
    have "ring_region cfg r \<inter> used_region (used cfg ! q) = {}"
      using apart q r by (auto simp: rings_apart_def)
    then have "ring_region cfg r \<subseteq> all_rings cfg n - used_region (used cfg ! q)"
      using ring_in_all [OF r(1)] by blast
    moreover have "processed d' ! r = processed d ! r" using r(2) by (simp add: d'_def served_def set_interrupt_def)
    ultimately show ?thesis using same_on_subset [OF same] by (intro delivers_frame [OF A])
  qed
  show "same_on (table_region (desc cfg ! r)) (memory d) (memory d')" if r: "r < n"
  proof -
    have "table_region (desc cfg ! r) \<subseteq> all_rings cfg n - used_region (used cfg ! q)"
      using rings_apart_table [OF apart q r] ring_regions(1) [of cfg r] ring_in_all [OF r] by blast
    then show ?thesis by (rule same_on_subset [OF same])
  qed
qed

text \<open>A service, whether it serves or skips, delivers at most one head of its queue and leaves every
  other queue and all chains alone.\<close>

lemma service_step:
  assumes A: "abi_ok A" and apart: "rings_apart cfg n" and q: "q < n" and len: "n \<le> length (processed d)"
    and chains: "chains_ok fuel A bk reach cfg n d"
    and run: "service_queue fuel A bk cfg q d = Inr d'"
  shows "length (processed d') = length (processed d)" "chains_ok fuel A bk reach cfg n d'"
    "\<exists>cs. length cs = (if skip_round A bk cfg q d then 0 else 1) \<and> delivers A cfg q d cs d'"
    "\<forall>r < n. r \<noteq> q \<longrightarrow> delivers A cfg r d [] d'"
proof -
  have "length (processed d') = length (processed d) \<and> chains_ok fuel A bk reach cfg n d'
    \<and> (\<exists>cs. length cs = (if skip_round A bk cfg q d then 0 else 1) \<and> delivers A cfg q d cs d')
    \<and> (\<forall>r < n. r \<noteq> q \<longrightarrow> delivers A cfg r d [] d')"
  proof (cases "skip_round A bk cfg q d")
    case True
    then have "d' = d"
      using service_queue_skips [OF A rings_apart_ok [OF apart q], of d bk fuel] q len run by simp
    then show ?thesis using chains True delivers_refl by auto
  next
    case False
    obtain i "is" ds s where *: "waiting A cfg q d = i # is" "chain_of fuel A cfg q (memory d) i = Some ds"
      "run_ops bk q (chain_ops (queue_header_size bk) 0 ds) (dclass d, memory d) = Inr s"
      "d' = served A cfg q i ds s d"
      "ops_apart reach q (all_rings cfg n) (chain_ops (queue_header_size bk) 0 ds)"
      by (rule service_among [OF A apart q len chains False run])
    have len': "length (processed d') = length (processed d)"
      by (simp add: *(4) served_def set_interrupt_def)
    note among = served_among [OF A apart q len *(1,5,3), folded *(4)]
    note del = among(1) and rest = among(2) and tab = among(3)
    have wait: "set (waiting A cfg r d') \<subseteq> set (waiting A cfg r d)" if "r < n" for r
      using del rest [OF that] by (cases "r = q") (auto simp: delivers_def)
    have "chains_ok fuel A bk reach cfg n d'"
      using chains wait chain_ok_frame [OF A tab] unfolding chains_ok_def by blast
    moreover have "\<exists>cs. length cs = 1 \<and> delivers A cfg q d cs d'"
      using del by (intro exI [of _ "[(i, ucast (chain_len ds))]"]) simp
    ultimately show ?thesis using len' False rest by simp
  qed
  then show "length (processed d') = length (processed d)" "chains_ok fuel A bk reach cfg n d'"
    "\<exists>cs. length cs = (if skip_round A bk cfg q d then 0 else 1) \<and> delivers A cfg q d cs d'"
    "\<forall>r < n. r \<noteq> q \<longrightarrow> delivers A cfg r d [] d'" by blast+
qed

section \<open>A round over all queues\<close>

lemma service_all_step:
  assumes A: "abi_ok A" and apart: "rings_apart cfg n"
  shows "service_all fuel A bk cfg qs d = Inr d' \<Longrightarrow> set qs \<subseteq> {..<n} \<Longrightarrow> distinct qs \<Longrightarrow>
     n \<le> length (processed d) \<Longrightarrow> chains_ok fuel A bk reach cfg n d \<Longrightarrow>
     length (processed d') = length (processed d) \<and> chains_ok fuel A bk reach cfg n d'
     \<and> (\<forall>r < n. \<exists>cs. delivers A cfg r d cs d'
           \<and> ((\<forall>b. queue_has_data bk r b) \<longrightarrow> length cs = (if r \<in> set qs \<and> waiting A cfg r d \<noteq> [] then 1 else 0)))"
proof (induction qs arbitrary: d)
  case Nil
  then show ?case using delivers_refl by fastforce
next
  case (Cons q qs)
  obtain d1 where d1: "service_queue fuel A bk cfg q d = Inr d1" "service_all fuel A bk cfg qs d1 = Inr d'"
    using Cons.prems(1) by (auto simp: bindR_Inr_iff)
  have q: "q < n" "q \<notin> set qs" using Cons.prems by auto
  note st = service_step [OF A apart q(1) Cons.prems(4,5) d1(1)]
  have IH: "length (processed d') = length (processed d1)" "chains_ok fuel A bk reach cfg n d'"
    "\<forall>r < n. \<exists>cs. delivers A cfg r d1 cs d'
           \<and> ((\<forall>b. queue_has_data bk r b) \<longrightarrow> length cs = (if r \<in> set qs \<and> waiting A cfg r d1 \<noteq> [] then 1 else 0))"
    using Cons.IH [OF d1(2)] Cons.prems st(1,2) by simp_all
  have "\<exists>cs. delivers A cfg r d cs d'
      \<and> ((\<forall>b. queue_has_data bk r b) \<longrightarrow> length cs = (if r \<in> set (q # qs) \<and> waiting A cfg r d \<noteq> [] then 1 else 0))"
    if r: "r < n" for r
  proof -
    obtain cs' where cs': "delivers A cfg r d1 cs' d'"
      "(\<forall>b. queue_has_data bk r b) \<longrightarrow> length cs' = (if r \<in> set qs \<and> waiting A cfg r d1 \<noteq> [] then 1 else 0)"
      using IH(3) r by blast
    show ?thesis
    proof (cases "r = q")
      case True
      obtain cs where cs: "length cs = (if skip_round A bk cfg q d then 0 else 1)" "delivers A cfg q d cs d1"
        using st(3) by blast
      have "delivers A cfg q d (cs @ cs') d'" using delivers_trans [OF cs(2)] cs'(1) True by simp
      then show ?thesis
        using cs(1) cs'(2) q(2) True by (intro exI [of _ "cs @ cs'"]) (simp add: skip_round_def waiting_def)
    next
      case False
      then have d: "delivers A cfg r d [] d1" using st(4) r by blast
      then have "waiting A cfg r d1 = waiting A cfg r d" by (simp add: delivers_def)
      then show ?thesis using delivers_trans [OF d cs'(1)] cs'(2) False by auto
    qed
  qed
  then show ?case using IH(1,2) st(1) by simp
qed

lemma round_step:
  assumes "abi_ok A" "rings_apart cfg n" "service_all fuel A bk cfg [0..<n] d = Inr d'"
    and "n \<le> length (processed d)" "chains_ok fuel A bk reach cfg n d"
  shows "length (processed d') = length (processed d)" "chains_ok fuel A bk reach cfg n d'"
    "r < n \<Longrightarrow> \<exists>cs. delivers A cfg r d cs d'
       \<and> ((\<forall>b. queue_has_data bk r b) \<longrightarrow> length cs = (if waiting A cfg r d \<noteq> [] then 1 else 0))"
  using service_all_step [OF assms(1-3) _ _ assms(4,5)] by (simp_all add: atLeast0LessThan)

end

section \<open>Runs of the loop\<close>

text \<open>What the driver may do between two rounds: anything to guest memory but write a used ring or take
  back a head it has made available. \<open>posts\<close> are the heads it makes available to a queue during a run,
  \<open>driver_ok\<close> says that it behaves throughout and that the chains it makes available are well-formed
  when a round starts.\<close>

definition driver_act :: "vring_abi \<Rightarrow> devcfg \<Rightarrow> nat \<Rightarrow> 'b dev \<Rightarrow> 'b dev \<Rightarrow> bool" where
  "driver_act A cfg n d d1 \<longleftrightarrow>
     (\<forall>q < n. take (length (waiting A cfg q d)) (waiting A cfg q d1) = waiting A cfg q d
            \<and> same_on (used_region (used cfg ! q)) (memory d) (memory d1))"

definition new_heads :: "vring_abi \<Rightarrow> devcfg \<Rightarrow> nat \<Rightarrow> 'b dev \<Rightarrow> 'b dev \<Rightarrow> u16 list" where
  "new_heads A cfg q d d1 = drop (length (waiting A cfg q d)) (waiting A cfg q d1)"

definition goes_on :: "'b round \<Rightarrow> bool" where
  "goes_on r \<longleftrightarrow> \<not> r_exit r \<and> r_magic r = VIRT_MAGIC"

fun posts :: "nat \<Rightarrow> vring_abi \<Rightarrow> 'b backend \<Rightarrow> devcfg \<Rightarrow> nat \<Rightarrow> 'b round list \<Rightarrow> 'b dev \<Rightarrow> u16 list" where
  "posts fuel A bk cfg q [] d = []"
| "posts fuel A bk cfg q (r # rs) d =
     (if \<not> goes_on r then []
      else new_heads A cfg q d (disturb r d)
           @ (case service_all fuel A bk cfg [0..<num_queues bk] (disturb r d) of
                Inl e \<Rightarrow> [] | Inr d1 \<Rightarrow> posts fuel A bk cfg q rs d1))"

fun driver_ok ::
  "nat \<Rightarrow> vring_abi \<Rightarrow> 'b backend \<Rightarrow> (chain_op \<Rightarrow> nat \<Rightarrow> u64 \<Rightarrow> u64 \<Rightarrow> nat set) \<Rightarrow> devcfg
     \<Rightarrow> 'b round list \<Rightarrow> 'b dev \<Rightarrow> bool" where
  "driver_ok fuel A bk reach cfg [] d = True"
| "driver_ok fuel A bk reach cfg (r # rs) d =
     (goes_on r \<longrightarrow>
        driver_act A cfg (num_queues bk) d (disturb r d)
        \<and> chains_ok fuel A bk reach cfg (num_queues bk) (disturb r d)
        \<and> (case service_all fuel A bk cfg [0..<num_queues bk] (disturb r d) of
             Inl e \<Rightarrow> True | Inr d1 \<Rightarrow> driver_ok fuel A bk reach cfg rs d1))"

text \<open>The state a run ends in, returned or still running.\<close>

definition run_end :: "'b dev + 'b dev \<Rightarrow> 'b dev" where
  "run_end x = (case x of Inl d \<Rightarrow> d | Inr d \<Rightarrow> d)"

lemma run_end_simps [simp]: "run_end (Inl d) = d" "run_end (Inr d) = d"
  by (simp_all add: run_end_def)

lemma processed_disturb [simp]: "processed (disturb r d) = processed d"
  by (simp add: disturb_def split: prod.splits)

lemma device_rounds_Cons:
  "device_rounds fuel A bk cfg (r # rs) d =
     (if goes_on r then bindR (service_all fuel A bk cfg [0..<num_queues bk] (disturb r d)) (device_rounds fuel A bk cfg rs)
      else Inr (Inl d))"
  by (simp add: goes_on_def ack_interrupt_def)

lemma driver_act_waiting:
  "driver_act A cfg n d d1 \<Longrightarrow> q < n \<Longrightarrow> waiting A cfg q d1 = waiting A cfg q d @ new_heads A cfg q d d1"
  unfolding driver_act_def new_heads_def by (metis append_take_drop_id)

context virtio_backend
begin

lemma rounds_exactly_once:
  assumes A: "abi_ok A" and apart: "rings_apart cfg (num_queues bk)" and q: "q < num_queues bk"
  shows "device_rounds fuel A bk cfg rs d = Inr x \<Longrightarrow> driver_ok fuel A bk reach cfg rs d \<Longrightarrow>
     num_queues bk \<le> length (processed d) \<Longrightarrow>
     \<exists>cs. waiting A cfg q d @ posts fuel A bk cfg q rs d = map fst cs @ waiting A cfg q (run_end x)
        \<and> processed (run_end x) ! q = processed d ! q + of_nat (length cs)
        \<and> (\<forall>base hs. published A (memory d) (used cfg ! q) base hs \<longrightarrow>
             published A (memory (run_end x)) (used cfg ! q) base (hs @ used_entries cs))"
proof (induction rs arbitrary: d)
  case Nil
  then show ?case by (intro exI [of _ "[]"]) auto
next
  case (Cons r rs)
  show ?case
  proof (cases "goes_on r")
    case False
    then show ?thesis using Cons.prems(1) unfolding device_rounds_Cons by (intro exI [of _ "[]"]) auto
  next
    case True
    let ?d = "disturb r d" and ?n = "num_queues bk"
    obtain d1 where d1: "service_all fuel A bk cfg [0..<?n] ?d = Inr d1" "device_rounds fuel A bk cfg rs d1 = Inr x"
      using Cons.prems(1) True unfolding device_rounds_Cons by (auto simp: bindR_Inr_iff)
    have drv: "driver_act A cfg ?n d ?d" "chains_ok fuel A bk reach cfg ?n ?d" "driver_ok fuel A bk reach cfg rs d1"
      using Cons.prems(2) True d1(1) by simp_all
    have st: "length (processed d1) = length (processed d)" "\<exists>cs. delivers A cfg q ?d cs d1"
      using round_step [OF A apart d1(1) _ drv(2)] Cons.prems(3) q by auto
    obtain cs where cs: "delivers A cfg q ?d cs d1" using st(2) by blast
    obtain cs' where cs': "waiting A cfg q d1 @ posts fuel A bk cfg q rs d1 = map fst cs' @ waiting A cfg q (run_end x)"
      "processed (run_end x) ! q = processed d1 ! q + of_nat (length cs')"
      "\<And>base hs. published A (memory d1) (used cfg ! q) base hs \<Longrightarrow>
         published A (memory (run_end x)) (used cfg ! q) base (hs @ used_entries cs')"
      using Cons.IH [OF d1(2) drv(3)] st(1) Cons.prems(3) by auto
    have "waiting A cfg q d @ posts fuel A bk cfg q (r # rs) d
        = waiting A cfg q ?d @ posts fuel A bk cfg q rs d1"
      using True d1(1) driver_act_waiting [OF drv(1) q] by simp
    then have "waiting A cfg q d @ posts fuel A bk cfg q (r # rs) d = map fst (cs @ cs') @ waiting A cfg q (run_end x)"
      using cs cs'(1) by (simp add: delivers_def)
    moreover have "processed (run_end x) ! q = processed d ! q + of_nat (length (cs @ cs'))"
      using cs cs'(2) by (simp add: delivers_def add.assoc)
    moreover have "published A (memory (run_end x)) (used cfg ! q) base (hs @ used_entries (cs @ cs'))"
      if p: "published A (memory d) (used cfg ! q) base hs" for base hs
    proof -
      have "published A (memory ?d) (used cfg ! q) base hs"
        using p published_same [OF A] drv(1) q by (auto simp: driver_act_def)
      then have "published A (memory d1) (used cfg ! q) base (hs @ used_entries cs)"
        using cs by (simp add: delivers_def)
      from cs'(3) [OF this] show ?thesis by simp
    qed
    ultimately show ?thesis by blast
  qed
qed

lemma loop_exactly_once:
  fixes d :: "'b dev"
  defines "d0 \<equiv> d\<lparr>processed := replicate (num_queues bk) 0\<rparr>"
  assumes A: "abi_ok A" and apart: "rings_apart cfg (num_queues bk)" and q: "q < num_queues bk"
    and run: "device_loop fuel A bk cfg rs d = Inr x" and drv: "driver_ok fuel A bk reach cfg rs d0"
  shows "\<exists>cs. waiting A cfg q d0 @ posts fuel A bk cfg q rs d0 = map fst cs @ waiting A cfg q (run_end x)
     \<and> processed (run_end x) ! q = of_nat (length cs)
     \<and> published A (memory (run_end x)) (used cfg ! q) (used_count A (memory d) (used cfg ! q))
          (used_entries cs)"
proof -
  have pub: "published A (memory d0) (used cfg ! q) (used_count A (memory d) (used cfg ! q)) []"
    by (simp add: published_def d0_def)
  obtain cs where cs: "waiting A cfg q d0 @ posts fuel A bk cfg q rs d0 = map fst cs @ waiting A cfg q (run_end x)"
    "processed (run_end x) ! q = processed d0 ! q + of_nat (length cs)"
    "\<forall>base hs. published A (memory d0) (used cfg ! q) base hs \<longrightarrow>
             published A (memory (run_end x)) (used cfg ! q) base (hs @ used_entries cs)"
    using rounds_exactly_once [OF A apart q run [unfolded device_loop_def, folded d0_def] drv]
    by (auto simp: d0_def)
  have "processed (run_end x) ! q = of_nat (length cs)" using cs(2) q by (simp add: d0_def)
  moreover have "published A (memory (run_end x)) (used cfg ! q) (used_count A (memory d) (used cfg ! q))
      (used_entries cs)"
    using cs(3) [rule_format, OF pub] by simp
  ultimately show ?thesis using cs(1) by blast
qed

end

text \<open>A round in which nothing happens outside the device.\<close>

definition quiet :: "'b round" where
  "quiet = \<lparr>r_exit = False, r_magic = VIRT_MAGIC, r_env = id\<rparr>"

lemma quiet_simps [simp]: "goes_on quiet" "disturb quiet d = d"
  by (simp_all add: quiet_def goes_on_def disturb_def)

context virtio_backend
begin

text \<open>A queue whose device always has something to do is served one head per round, oldest first.\<close>

lemma quiet_rounds_drain:
  assumes A: "abi_ok A" and apart: "rings_apart cfg (num_queues bk)" and q: "q < num_queues bk"
    and data: "\<forall>b. queue_has_data bk q b"
  shows "device_rounds fuel A bk cfg (replicate k quiet) d = Inr x \<Longrightarrow>
     chains_ok fuel A bk reach cfg (num_queues bk) d \<Longrightarrow> num_queues bk \<le> length (processed d) \<Longrightarrow>
     \<exists>d' cs. x = Inr d' \<and> delivers A cfg q d cs d' \<and> length cs = min k (length (waiting A cfg q d))"
proof (induction k arbitrary: d)
  case 0
  then show ?case using delivers_refl by fastforce
next
  case (Suc k)
  obtain d1 where d1: "service_all fuel A bk cfg [0..<num_queues bk] d = Inr d1"
    "device_rounds fuel A bk cfg (replicate k quiet) d1 = Inr x"
    using Suc.prems(1) by (auto simp: device_rounds_Cons bindR_Inr_iff simp del: device_rounds.simps)
  note st = round_step [OF A apart d1(1) Suc.prems(3,2)]
  obtain cs where cs: "delivers A cfg q d cs d1" "length cs = (if waiting A cfg q d \<noteq> [] then 1 else 0)"
    using st(3) [OF q] data by blast
  obtain d' cs' where cs': "x = Inr d'" "delivers A cfg q d1 cs' d'" "length cs' = min k (length (waiting A cfg q d1))"
    using Suc.IH [OF d1(2) st(2)] st(1) Suc.prems(3) by auto
  have "length (waiting A cfg q d) = length cs + length (waiting A cfg q d1)"
    using cs(1) by (simp add: delivers_def)
  then have "length (cs @ cs') = min (Suc k) (length (waiting A cfg q d))"
    using cs(2) cs'(3) by (cases "waiting A cfg q d") auto
  then show ?case using cs'(1) delivers_trans [OF cs(1) cs'(2)] by blast
qed

end

lemma sample_rings_apart: "rings_apart sample_cfg 1" "rings_apart sample_cfg 2"
proof -
  have two: "rings_apart sample_cfg 2"
    unfolding rings_apart_def
  proof (intro conjI allI impI)
    show "rings_ok sample_cfg q" if "q < 2" for q
      using that sample_rings by (auto simp: less_2_cases_iff)
    show "table_region (desc sample_cfg ! q) \<inter> used_region (used sample_cfg ! q) = {}" if "q < 2" for q
      using that by (auto simp: less_2_cases_iff table_region_def used_region_def sample_cfg_def)
    show "ring_region sample_cfg r \<inter> used_region (used sample_cfg ! q) = {}" if "q < 2" "r < 2" "q \<noteq> r" for q r
      using that by (auto simp: less_2_cases_iff ring_region_def table_region_def avail_region_def
          used_region_def sample_cfg_def)
  qed
  then show "rings_apart sample_cfg 2" "rings_apart sample_cfg 1" by (simp_all add: rings_apart_def)
qed

end
