(* ===== verification/Service_Steps.thy ===== *)
theory Service_Steps
  imports Device_Run
begin

text \<open>
  A service of one queue while the driver runs (\<open>device_loop\<close>, \<^verbatim>\<open>console/virtiodevice.hpp\<close>). \<open>Virtqueue\<close>
  treats the body of the loop as one step. Here it is taken apart into its loads, its stores and the
  calls of the device class, and between any two of them the driver, on another core, may change all
  of guest memory but what it has handed to the device. The result is that of the uninterrupted body.
\<close>

section \<open>The body of the loop, one access at a time\<close>

text \<open>\<open>h\<close> is \<open>desc_idx_first\<close>, \<open>i\<close> is \<open>desc_idx\<close>, \<open>n\<close> is \<open>num_bytes_written\<close>, \<open>l\<close> and \<open>a\<close> are the length and
  the address of the current descriptor, \<open>u\<close> is \<open>used_idx\<close>.\<close>

datatype svc_pc =
    Load_Idx
  | Load_Head
  | Load_Len u16 u16 u64
  | Load_Addr u16 u16 u64 u32
  | Load_Flags u16 u16 u64 u32 u64
  | Call_Class u16 u16 u64 u32 u64 bool
  | Load_Next u16 u16 u64
  | Load_Used u16 u64
  | Store_Id u16 u64 u16
  | Store_Len u16 u64 u16
  | Store_Idx u16 u64 u16
  | Finished
  | Nothing_To_Do

definition used_slot :: "vring_abi \<Rightarrow> u64 \<Rightarrow> u16 \<Rightarrow> nat" where
  "used_slot A U u = unat U + used_ring A + elem_size A * (unat u mod queue_size)"

definition avail_slot :: "vring_abi \<Rightarrow> u64 \<Rightarrow> u16 \<Rightarrow> nat" where
  "avail_slot A V p = unat V + avail_ring A + 2 * (unat p mod queue_size)"

definition class_op :: "'b backend \<Rightarrow> u64 \<Rightarrow> bool \<Rightarrow> chain_op" where
  "class_op bk n nxt = (if \<not> nxt then O_Complete else if n < queue_header_size bk then O_Start else O_Data)"

fun access ::
  "vring_abi \<Rightarrow> 'b backend \<Rightarrow> devcfg \<Rightarrow> nat \<Rightarrow> u16 \<Rightarrow> svc_pc \<Rightarrow> 'b \<times> mem \<Rightarrow> (svc_pc \<times> 'b \<times> mem) res" where
  "access A bk cfg q p Load_Idx s =
     bindR (ld16 VIEW (snd s) (unat (avail cfg ! q) + avail_idx A)) (\<lambda>idx.
       Inr (if p \<noteq> idx \<and> queue_has_data bk q (fst s) then Load_Head else Nothing_To_Do, s))"
| "access A bk cfg q p Load_Head s =
     bindR (ld16 VIEW (snd s) (avail_slot A (avail cfg ! q) p)) (\<lambda>i. Inr (Load_Len i i 0, s))"
| "access A bk cfg q p (Load_Len h i n) s =
     bindR (ld32 VIEW (snd s) (desc_at A (desc cfg ! q) i + desc_len A)) (\<lambda>l. Inr (Load_Addr h i n l, s))"
| "access A bk cfg q p (Load_Addr h i n l) s =
     bindR (ld64 VIEW (snd s) (desc_at A (desc cfg ! q) i + desc_addr A)) (\<lambda>a. Inr (Load_Flags h i n l a, s))"
| "access A bk cfg q p (Load_Flags h i n l a) s =
     bindR (ld16 VIEW (snd s) (desc_at A (desc cfg ! q) i + desc_flags A)) (\<lambda>fl.
       Inr (Call_Class h i n l a (fl AND DESC_F_NEXT A \<noteq> 0), s))"
| "access A bk cfg q p (Call_Class h i n l a nxt) s =
     bindR (run_op bk (class_op bk n nxt) q (guest_offset (starting_address_of cfg) a) (ucast l) s) (\<lambda>s'.
       Inr (if nxt then Load_Next h i (n + ucast l) else Load_Used h (n + ucast l), s'))"
| "access A bk cfg q p (Load_Next h i n) s =
     bindR (ld16 VIEW (snd s) (desc_at A (desc cfg ! q) i + desc_next A)) (\<lambda>i'. Inr (Load_Len h i' n, s))"
| "access A bk cfg q p (Load_Used h n) s =
     bindR (ld16 VIEW (snd s) (unat (used cfg ! q) + used_idx A)) (\<lambda>u. Inr (Store_Id h n u, s))"
| "access A bk cfg q p (Store_Id h n u) s =
     bindR (store VIEW (snd s) (used_slot A (used cfg ! q) u + elem_id A) (bytes32 (ucast h))) (\<lambda>m.
       Inr (Store_Len h n u, fst s, m))"
| "access A bk cfg q p (Store_Len h n u) s =
     bindR (store VIEW (snd s) (used_slot A (used cfg ! q) u + elem_len A) (bytes32 (ucast n))) (\<lambda>m.
       Inr (Store_Idx h n u, fst s, m))"
| "access A bk cfg q p (Store_Idx h n u) s =
     bindR (store VIEW (snd s) (unat (used cfg ! q) + used_idx A) (bytes16 (u + 1))) (\<lambda>m.
       Inr (Finished, fst s, m))"
| "access A bk cfg q p Finished s = Inr (Finished, s)"
| "access A bk cfg q p Nothing_To_Do s = Inr (Nothing_To_Do, s)"

text \<open>While the device holds the bytes \<open>H\<close>, the driver leaves them alone and takes back no head.\<close>

definition driver_keeps :: "vring_abi \<Rightarrow> devcfg \<Rightarrow> nat \<Rightarrow> u16 \<Rightarrow> nat set \<Rightarrow> mem \<Rightarrow> mem \<Rightarrow> bool" where
  "driver_keeps A cfg q p H m m' \<longleftrightarrow>
     same_on H m m'
     \<and> (val16 m (unat (avail cfg ! q) + avail_idx A) \<noteq> p \<longrightarrow> val16 m' (unat (avail cfg ! q) + avail_idx A) \<noteq> p)"

text \<open>Runs of device and driver, counting the accesses of the device.\<close>

inductive svc_run ::
  "vring_abi \<Rightarrow> 'b backend \<Rightarrow> devcfg \<Rightarrow> nat \<Rightarrow> u16 \<Rightarrow> nat set \<Rightarrow> 'b \<times> mem \<Rightarrow> nat \<Rightarrow> svc_pc \<times> 'b \<times> mem \<Rightarrow> bool"
  for A bk cfg q p H s0 where
  svc_start: "svc_run A bk cfg q p H s0 0 (Load_Idx, s0)"
| svc_device: "svc_run A bk cfg q p H s0 k (c, s) \<Longrightarrow> c \<notin> {Finished, Nothing_To_Do} \<Longrightarrow>
     access A bk cfg q p c s = Inr x \<Longrightarrow> svc_run A bk cfg q p H s0 (Suc k) x"
| svc_driver: "svc_run A bk cfg q p H s0 k (c, b, m) \<Longrightarrow> driver_keeps A cfg q p H m m' \<Longrightarrow>
     svc_run A bk cfg q p H s0 k (c, b, m')"

section \<open>What is left of the uninterrupted body\<close>

definition finish_chain :: "vring_abi \<Rightarrow> devcfg \<Rightarrow> nat \<Rightarrow> u16 \<Rightarrow> u64 \<times> 'b \<times> mem \<Rightarrow> ('b \<times> mem) res" where
  "finish_chain A cfg q h r =
     bindR (put_used A (used cfg ! q) h (fst r) (snd (snd r))) (\<lambda>m'. Inr (fst (snd r), m'))"

text \<open>Every access of the walk lies in \<open>H\<close>.\<close>

fun walk_within ::
  "nat \<Rightarrow> vring_abi \<Rightarrow> 'b backend \<Rightarrow> ('b \<Rightarrow> chain_op \<Rightarrow> nat \<Rightarrow> u64 \<Rightarrow> u64 \<Rightarrow> nat set) \<Rightarrow> u64 \<Rightarrow> u64 \<Rightarrow> nat
     \<Rightarrow> nat set \<Rightarrow> u16 \<Rightarrow> u64 \<Rightarrow> 'b \<times> mem \<Rightarrow> bool" where
  "walk_within 0 A bk needs start D q H i n s = True"
| "walk_within (Suc f) A bk needs start D q H i n s =
     (let e = desc_at A D i; l = val32 (snd s) (e + desc_len A);
          a = guest_offset start (val64 (snd s) (e + desc_addr A));
          nxt = (val16 (snd s) (e + desc_flags A) AND DESC_F_NEXT A \<noteq> 0); c = class_op bk n nxt
      in span e 16 \<subseteq> H \<and> needs (fst s) c q a (ucast l) \<subseteq> H
         \<and> (case run_op bk c q a (ucast l) s of
              Inl e' \<Rightarrow> True
            | Inr s' \<Rightarrow> nxt \<longrightarrow>
                walk_within f A bk needs start D q H (val16 (snd s') (e + desc_next A)) (n + ucast l) s'))"

lemma walk_chain_Suc:
  "walk_chain (Suc f) A bk start D q i n s =
     bindR (ld32 VIEW (snd s) (desc_at A D i + desc_len A)) (\<lambda>l.
     bindR (ld64 VIEW (snd s) (desc_at A D i + desc_addr A)) (\<lambda>a.
     bindR (ld16 VIEW (snd s) (desc_at A D i + desc_flags A)) (\<lambda>fl.
     bindR (run_op bk (class_op bk n (fl AND DESC_F_NEXT A \<noteq> 0)) q (guest_offset start a) (ucast l) s) (\<lambda>s'.
       if fl AND DESC_F_NEXT A \<noteq> 0
       then bindR (ld16 VIEW (snd s') (desc_at A D i + desc_next A)) (\<lambda>i'.
              walk_chain f A bk start D q i' (n + ucast l) s')
       else Inr (n + ucast l, s')))))"
  by (auto simp: run_op_def class_op_def intro!: arg_cong2 [of _ _ _ _ bindR] ext)

definition walk_ahead ::
  "vring_abi \<Rightarrow> 'b backend \<Rightarrow> ('b \<Rightarrow> chain_op \<Rightarrow> nat \<Rightarrow> u64 \<Rightarrow> u64 \<Rightarrow> nat set) \<Rightarrow> devcfg \<Rightarrow> nat \<Rightarrow> nat set
     \<Rightarrow> 'b \<times> mem \<Rightarrow> nat \<Rightarrow> u16 \<Rightarrow> u16 \<Rightarrow> u64 \<Rightarrow> 'b \<times> mem \<Rightarrow> bool" where
  "walk_ahead A bk needs cfg q H F f h i n s \<longleftrightarrow>
     walk_within f A bk needs (starting_address_of cfg) (desc cfg ! q) q H i n s
     \<and> bindR (walk_chain f A bk (starting_address_of cfg) (desc cfg ! q) q i n s) (finish_chain A cfg q h) = Inr F"

definition head_ahead ::
  "vring_abi \<Rightarrow> 'b backend \<Rightarrow> ('b \<Rightarrow> chain_op \<Rightarrow> nat \<Rightarrow> u64 \<Rightarrow> u64 \<Rightarrow> nat set) \<Rightarrow> devcfg \<Rightarrow> nat \<Rightarrow> u16 \<Rightarrow> nat set
     \<Rightarrow> 'b \<times> mem \<Rightarrow> nat \<Rightarrow> 'b \<times> mem \<Rightarrow> bool" where
  "head_ahead A bk needs cfg q p H F f s \<longleftrightarrow>
     avail_slot A (avail cfg ! q) p + 2 \<le> VIEW \<and> span (avail_slot A (avail cfg ! q) p) 2 \<subseteq> H
     \<and> (let i = val16 (snd s) (avail_slot A (avail cfg ! q) p) in walk_ahead A bk needs cfg q H F f i i 0 s)"

text \<open>\<open>ahead f c s\<close>: from \<open>c\<close> in state \<open>s\<close> the uninterrupted body would end in \<open>F\<close>, with at most \<open>f\<close>
  descriptors to go; what the device remembers is what memory says.\<close>

fun ahead ::
  "vring_abi \<Rightarrow> 'b backend \<Rightarrow> ('b \<Rightarrow> chain_op \<Rightarrow> nat \<Rightarrow> u64 \<Rightarrow> u64 \<Rightarrow> nat set) \<Rightarrow> devcfg \<Rightarrow> nat \<Rightarrow> u16 \<Rightarrow> nat set
     \<Rightarrow> 'b \<times> mem \<Rightarrow> nat \<Rightarrow> svc_pc \<Rightarrow> 'b \<times> mem \<Rightarrow> bool" where
  "ahead A bk needs cfg q p H F f Load_Idx s \<longleftrightarrow>
     unat (avail cfg ! q) + avail_idx A + 2 \<le> VIEW \<and> queue_has_data bk q (fst s)
     \<and> head_ahead A bk needs cfg q p H F f s"
| "ahead A bk needs cfg q p H F f Load_Head s \<longleftrightarrow> head_ahead A bk needs cfg q p H F f s"
| "ahead A bk needs cfg q p H F f (Load_Len h i n) s \<longleftrightarrow> walk_ahead A bk needs cfg q H F f h i n s"
| "ahead A bk needs cfg q p H F f (Load_Addr h i n l) s \<longleftrightarrow>
     walk_ahead A bk needs cfg q H F f h i n s \<and> l = val32 (snd s) (desc_at A (desc cfg ! q) i + desc_len A)"
| "ahead A bk needs cfg q p H F f (Load_Flags h i n l a) s \<longleftrightarrow>
     walk_ahead A bk needs cfg q H F f h i n s \<and> l = val32 (snd s) (desc_at A (desc cfg ! q) i + desc_len A)
     \<and> a = val64 (snd s) (desc_at A (desc cfg ! q) i + desc_addr A)"
| "ahead A bk needs cfg q p H F f (Call_Class h i n l a nxt) s \<longleftrightarrow>
     walk_ahead A bk needs cfg q H F f h i n s \<and> l = val32 (snd s) (desc_at A (desc cfg ! q) i + desc_len A)
     \<and> a = val64 (snd s) (desc_at A (desc cfg ! q) i + desc_addr A)
     \<and> nxt = (val16 (snd s) (desc_at A (desc cfg ! q) i + desc_flags A) AND DESC_F_NEXT A \<noteq> 0)"
| "ahead A bk needs cfg q p H F f (Load_Next h i n) s \<longleftrightarrow>
     span (desc_at A (desc cfg ! q) i) 16 \<subseteq> H \<and> desc_at A (desc cfg ! q) i + desc_next A + 2 \<le> VIEW
     \<and> walk_ahead A bk needs cfg q H F f h (val16 (snd s) (desc_at A (desc cfg ! q) i + desc_next A)) n s"
| "ahead A bk needs cfg q p H F f (Load_Used h n) s \<longleftrightarrow> finish_chain A cfg q h (n, s) = Inr F"
| "ahead A bk needs cfg q p H F f (Store_Id h n u) s \<longleftrightarrow>
     finish_chain A cfg q h (n, s) = Inr F \<and> u = val16 (snd s) (unat (used cfg ! q) + used_idx A)"
| "ahead A bk needs cfg q p H F f (Store_Len h n u) s \<longleftrightarrow>
     used_slot A (used cfg ! q) u + elem_len A + 4 \<le> VIEW \<and> unat (used cfg ! q) + used_idx A + 2 \<le> VIEW
     \<and> F = (fst s, poke (poke (snd s) (used_slot A (used cfg ! q) u + elem_len A) (bytes32 (ucast n)))
                     (unat (used cfg ! q) + used_idx A) (bytes16 (u + 1)))"
| "ahead A bk needs cfg q p H F f (Store_Idx h n u) s \<longleftrightarrow>
     unat (used cfg ! q) + used_idx A + 2 \<le> VIEW
     \<and> F = (fst s, poke (snd s) (unat (used cfg ! q) + used_idx A) (bytes16 (u + 1)))"
| "ahead A bk needs cfg q p H F f Finished s \<longleftrightarrow> F = s"
| "ahead A bk needs cfg q p H F f Nothing_To_Do s \<longleftrightarrow> False"

text \<open>The accesses still to come.\<close>

fun accesses_left :: "nat \<Rightarrow> svc_pc \<Rightarrow> nat" where
  "accesses_left f Load_Idx = 5 * f + 5"
| "accesses_left f Load_Head = 5 * f + 4"
| "accesses_left f (Load_Len h i n) = 5 * f + 3"
| "accesses_left f (Load_Addr h i n l) = 5 * f + 2"
| "accesses_left f (Load_Flags h i n l a) = 5 * f + 1"
| "accesses_left f (Call_Class h i n l a nxt) = 5 * f"
| "accesses_left f (Load_Next h i n) = 5 * f + 4"
| "accesses_left f (Load_Used h n) = 4"
| "accesses_left f (Store_Id h n u) = 3"
| "accesses_left f (Store_Len h n u) = 2"
| "accesses_left f (Store_Idx h n u) = 1"
| "accesses_left f Finished = 0"
| "accesses_left f Nothing_To_Do = 0"

section \<open>Device classes that work on what they hold\<close>

locale local_backend = virtio_backend bk reach
  for bk :: "'b backend" and reach :: "chain_op \<Rightarrow> nat \<Rightarrow> u64 \<Rightarrow> u64 \<Rightarrow> nat set" +
  fixes needs :: "'b \<Rightarrow> chain_op \<Rightarrow> nat \<Rightarrow> u64 \<Rightarrow> u64 \<Rightarrow> nat set"
  assumes reach_needed: "run_op bk c q p l (b, m) = Inr x \<Longrightarrow> reach c q p l \<subseteq> needs b c q p l"
    and op_local: "run_op bk c q p l (b, m) = Inr (b', m1) \<Longrightarrow> same_on (needs b c q p l) m m' \<Longrightarrow>
      \<exists>m1'. run_op bk c q p l (b, m') = Inr (b', m1') \<and> same_on (reach c q p l) m1 m1'"
begin

text \<open>An operation on memories that agree on what the device holds.\<close>

lemma op_held:
  assumes op: "run_op bk c q p l (b, m) = Inr (b', m1)" and H: "needs b c q p l \<subseteq> H" and same: "same_on H m m'"
  obtains m1' where "run_op bk c q p l (b, m') = Inr (b', m1')" "same_on H m1 m1'" "same_on (- H) m' m1'"
proof -
  obtain m1' where m1': "run_op bk c q p l (b, m') = Inr (b', m1')" "same_on (reach c q p l) m1 m1'"
    using op_local [OF op same_on_subset [OF same H]] by blast
  note frame = op_frame [OF op] op_frame [OF m1'(1)]
  have "reach c q p l \<subseteq> H" using reach_needed [OF op] H by blast
  then have "same_on H m1 m1'" "same_on (- H) m' m1'"
    using m1'(2) frame same by (auto simp: same_on_def)
  then show thesis using that m1'(1) by blast
qed

end

lemma store_held:
  assumes "same_on H m m'" "span p (length bs) \<subseteq> H"
  shows "same_on H (poke m p bs) (poke m' p bs)" "same_on (- H) m' (poke m' p bs)"
  using assms by (auto simp: same_on_def poke_def subset_iff)

section \<open>One access\<close>

text \<open>The simulation: the device's access on the memory that the driver has changed, beside the
  uninterrupted body's on its own.\<close>

definition sim_step ::
  "vring_abi \<Rightarrow> 'b backend \<Rightarrow> ('b \<Rightarrow> chain_op \<Rightarrow> nat \<Rightarrow> u64 \<Rightarrow> u64 \<Rightarrow> nat set) \<Rightarrow> devcfg \<Rightarrow> nat \<Rightarrow> u16 \<Rightarrow> nat set
     \<Rightarrow> 'b \<times> mem \<Rightarrow> nat \<Rightarrow> svc_pc \<Rightarrow> 'b \<Rightarrow> mem \<Rightarrow> bool" where
  "sim_step A bk needs cfg q p H F f c b m \<longleftrightarrow>
     (\<exists>f' c' b' m' mx'. access A bk cfg q p c (b, m) = Inr (c', b', m')
        \<and> ahead A bk needs cfg q p H F f' c' (b', mx') \<and> same_on H mx' m'
        \<and> accesses_left f' c' < accesses_left f c \<and> c' \<noteq> Nothing_To_Do \<and> c' \<noteq> Load_Idx \<and> same_on (- H) m m')"

lemma sim_load:
  assumes "access A bk cfg q p c (b, m) = Inr (c', b, m)" "ahead A bk needs cfg q p H F f' c' (b, mx)"
    "same_on H mx m" "accesses_left f' c' < accesses_left f c" "c' \<noteq> Nothing_To_Do" "c' \<noteq> Load_Idx"
  shows "sim_step A bk needs cfg q p H F f c b m"
  using assms unfolding sim_step_def by (metis same_on_refl)

lemma held_vals:
  assumes "abi_ok A" "span (desc_at A D i) 16 \<subseteq> H" "same_on H mx m"
  shows "val32 m (desc_at A D i + desc_len A) = val32 mx (desc_at A D i + desc_len A)"
    "val64 m (desc_at A D i + desc_addr A) = val64 mx (desc_at A D i + desc_addr A)"
    "val16 m (desc_at A D i + desc_flags A) = val16 mx (desc_at A D i + desc_flags A)"
    "val16 m (desc_at A D i + desc_next A) = val16 mx (desc_at A D i + desc_next A)"
proof -
  have sub: "span (desc_at A D i + k) n \<subseteq> H" if "k + n \<le> 16" for k n
    using span_mono [of "desc_at A D i" "desc_at A D i + k" n 16] that assms(2) by auto
  note v = same_on_vals [OF assms(3) sub]
  show "val32 m (desc_at A D i + desc_len A) = val32 mx (desc_at A D i + desc_len A)"
    "val64 m (desc_at A D i + desc_addr A) = val64 mx (desc_at A D i + desc_addr A)"
    "val16 m (desc_at A D i + desc_flags A) = val16 mx (desc_at A D i + desc_flags A)"
    "val16 m (desc_at A D i + desc_next A) = val16 mx (desc_at A D i + desc_next A)"
    by (rule v; use assms(1) in \<open>simp add: abi_ok_def\<close>)+
qed

text \<open>What a walk that succeeds says of its first descriptor.\<close>

lemma walk_ahead_first:
  assumes A: "abi_ok A" and w: "walk_ahead A bk needs cfg q H F f h i n (b, mx)"
  defines "e \<equiv> desc_at A (desc cfg ! q) i"
  defines "l \<equiv> val32 mx (e + desc_len A)" and "a \<equiv> val64 mx (e + desc_addr A)"
    and "nxt \<equiv> val16 mx (e + desc_flags A) AND DESC_F_NEXT A \<noteq> 0"
  obtains f' b' m1 where "f = Suc f'" "span e 16 \<subseteq> H" "e + desc_len A + 4 \<le> VIEW" "e + desc_addr A + 8 \<le> VIEW"
    "e + desc_flags A + 2 \<le> VIEW"
    "run_op bk (class_op bk n nxt) q (guest_offset (starting_address_of cfg) a) (ucast l) (b, mx) = Inr (b', m1)"
    "needs b (class_op bk n nxt) q (guest_offset (starting_address_of cfg) a) (ucast l) \<subseteq> H"
    "nxt \<Longrightarrow> e + desc_next A + 2 \<le> VIEW \<and>
       walk_ahead A bk needs cfg q H F f' h (val16 m1 (e + desc_next A)) (n + ucast l) (b', m1)"
    "\<not> nxt \<Longrightarrow> finish_chain A cfg q h (n + ucast l, b', m1) = Inr F"
proof -
  obtain f' where f: "f = Suc f'" using w by (cases f) (auto simp: walk_ahead_def)
  note w = w [unfolded walk_ahead_def f walk_chain_Suc walk_within.simps Let_def, simplified, folded e_def l_def a_def]
  obtain x where x: "run_op bk (class_op bk n nxt) q (guest_offset (starting_address_of cfg) a) (ucast l) (b, mx) = Inr x"
    using w by (auto simp: bindR_Inr_iff res_simps l_def a_def nxt_def)
  obtain b' m1 where x': "x = (b', m1)" by (cases x)
  show thesis
    by (rule that [OF f, of b' m1])
      (use w x x' in \<open>auto simp: bindR_Inr_iff res_simps walk_ahead_def l_def [symmetric] a_def [symmetric] nxt_def [symmetric]\<close>)
qed

lemma sim_walk:
  assumes A: "abi_ok A" and same: "same_on H mx m"
    and c: "c = Load_Len h i n \<or> (\<exists>l. c = Load_Addr h i n l) \<or> (\<exists>l a. c = Load_Flags h i n l a)"
    and ahd: "ahead A bk needs cfg q p H F f c (b, mx)"
  shows "sim_step A bk needs cfg q p H F f c b m"
proof -
  let ?e = "desc_at A (desc cfg ! q) i"
  have w: "walk_ahead A bk needs cfg q H F f h i n (b, mx)" using c ahd by auto
  obtain f' b' m1 where f: "f = Suc f'" "span ?e 16 \<subseteq> H" "?e + desc_len A + 4 \<le> VIEW" "?e + desc_addr A + 8 \<le> VIEW"
    "?e + desc_flags A + 2 \<le> VIEW"
    by (rule walk_ahead_first [OF A w]) blast
  note v = held_vals [OF A f(2) same]
  from c show ?thesis
  proof (elim disjE exE)
    assume "c = Load_Len h i n"
    then show ?thesis using v f ahd
      by (intro sim_load [OF _ _ same, where f' = f and c' = "Load_Addr h i n (val32 mx (?e + desc_len A))"]) simp_all
  next
    fix l assume "c = Load_Addr h i n l"
    then show ?thesis using v f ahd
      by (intro sim_load [OF _ _ same, where f' = f and c' = "Load_Flags h i n l (val64 mx (?e + desc_addr A))"]) simp_all
  next
    fix l a assume "c = Load_Flags h i n l a"
    then show ?thesis using v f ahd
      by (intro sim_load [OF _ _ same, where f' = f and c' = "Call_Class h i n l a (val16 mx (?e + desc_flags A) AND DESC_F_NEXT A \<noteq> 0)"])
        simp_all
  qed
qed

lemma sim_next:
  assumes A: "abi_ok A" and same: "same_on H mx m" and ahd: "ahead A bk needs cfg q p H F f (Load_Next h i n) (b, mx)"
  shows "sim_step A bk needs cfg q p H F f (Load_Next h i n) b m"
  using held_vals(4) [OF A _ same, of "desc cfg ! q" i] ahd
  by (intro sim_load [OF _ _ same, where f' = f and
        c' = "Load_Len h (val16 mx (desc_at A (desc cfg ! q) i + desc_next A)) n"]) simp_all

lemma sim_head:
  assumes same: "same_on H mx m" and ahd: "ahead A bk needs cfg q p H F f Load_Head (b, mx)"
  shows "sim_step A bk needs cfg q p H F f Load_Head b m"
proof -
  let ?i = "val16 mx (avail_slot A (avail cfg ! q) p)"
  have "val16 m (avail_slot A (avail cfg ! q) p) = ?i"
    using ahd same_on_vals(1) [OF same] by (simp add: head_ahead_def)
  then show ?thesis
    using ahd by (intro sim_load [OF _ _ same, where f' = f and c' = "Load_Len ?i ?i 0"])
      (simp_all add: head_ahead_def Let_def)
qed

lemma sim_idx:
  assumes same: "same_on H mx m" and ahd: "ahead A bk needs cfg q p H F f Load_Idx (b, mx)"
    and "val16 m (unat (avail cfg ! q) + avail_idx A) \<noteq> p"
  shows "sim_step A bk needs cfg q p H F f Load_Idx b m"
  using assms(2,3) by (intro sim_load [OF _ _ same, where f' = f and c' = Load_Head]) auto

text \<open>The used element and the index.\<close>

lemma finish_ahead:
  assumes "finish_chain A cfg q h (n, b, mx) = Inr F" and "u = val16 mx (unat (used cfg ! q) + used_idx A)"
  defines "e \<equiv> used_slot A (used cfg ! q) u"
  shows "unat (used cfg ! q) + used_idx A + 2 \<le> VIEW" "e + elem_id A + 4 \<le> VIEW" "e + elem_len A + 4 \<le> VIEW"
    "F = (b, poke (poke (poke mx (e + elem_id A) (bytes32 (ucast h))) (e + elem_len A) (bytes32 (ucast n)))
               (unat (used cfg ! q) + used_idx A) (bytes16 (u + 1)))"
  using assms by (auto simp: finish_chain_def put_used_def used_slot_def Let_def bindR_Inr_iff res_simps)

lemma used_spans:
  assumes "abi_ok A"
  shows "span (unat U + used_idx A) 2 \<subseteq> used_region U" "span (used_slot A U u + elem_id A) 4 \<subseteq> used_region U"
    "span (used_slot A U u + elem_len A) 4 \<subseteq> used_region U"
  unfolding used_region_def used_slot_def
  using assms u16_mod_mod [of u] by (intro span_mono; simp add: abi_ok_def queue_size_def)+

lemma sim_store:
  assumes same: "same_on H mx m" and held: "span a (length bs) \<subseteq> H"
    and "access A bk cfg q p c (b, m) = Inr (c', b, poke m a bs)"
    and "ahead A bk needs cfg q p H F f' c' (b, poke mx a bs)"
    and "accesses_left f' c' < accesses_left f c" "c' \<noteq> Nothing_To_Do" "c' \<noteq> Load_Idx"
  shows "sim_step A bk needs cfg q p H F f c b m"
  using assms(3-) store_held [OF same held] unfolding sim_step_def by blast

lemma sim_finish:
  assumes A: "abi_ok A" and same: "same_on H mx m" and U: "used_region (used cfg ! q) \<subseteq> H"
    and c: "c = Load_Used h n \<or> c = Store_Id h n u \<or> c = Store_Len h n u \<or> c = Store_Idx h n u"
    and ahd: "ahead A bk needs cfg q p H F f c (b, mx)"
  shows "sim_step A bk needs cfg q p H F f c b m"
proof -
  let ?U = "used cfg ! q"
  note spans = used_spans [OF A, THEN subset_trans [OF _ U]]
  from c show ?thesis
  proof (elim disjE)
    assume c: "c = Load_Used h n"
    then have fin: "finish_chain A cfg q h (n, b, mx) = Inr F" using ahd by simp
    then show ?thesis using c finish_ahead(1) [OF fin refl] same_on_vals(1) [OF same spans(1)]
      by (intro sim_load [OF _ _ same, where f' = f and c' = "Store_Id h n (val16 mx (unat ?U + used_idx A))"]) simp_all
  next
    assume c: "c = Store_Id h n u"
    then have fin: "finish_chain A cfg q h (n, b, mx) = Inr F" "u = val16 mx (unat ?U + used_idx A)" using ahd by simp_all
    show ?thesis
      by (rule sim_store [OF same, where f' = f and c' = "Store_Len h n u" and a = "used_slot A ?U u + elem_id A"
            and bs = "bytes32 (ucast h)"])
        (use c finish_ahead [OF fin] spans(2) [of u] in simp_all)
  next
    assume c: "c = Store_Len h n u"
    show ?thesis
      by (rule sim_store [OF same, where f' = f and c' = "Store_Idx h n u" and a = "used_slot A ?U u + elem_len A"
            and bs = "bytes32 (ucast n)"])
        (use c ahd spans(3) [of u] in simp_all)
  next
    assume c: "c = Store_Idx h n u"
    show ?thesis
      by (rule sim_store [OF same, where f' = f and c' = Finished and a = "unat ?U + used_idx A" and bs = "bytes16 (u + 1)"])
        (use c ahd spans(1) in simp_all)
  qed
qed

context local_backend
begin

lemma sim_class:
  assumes A: "abi_ok A" and same: "same_on H mx m"
    and ahd: "ahead A bk needs cfg q p H F f (Call_Class h i n l a nxt) (b, mx)"
  shows "sim_step A bk needs cfg q p H F f (Call_Class h i n l a nxt) b m"
proof -
  let ?e = "desc_at A (desc cfg ! q) i" and ?c = "class_op bk n nxt" and ?g = "guest_offset (starting_address_of cfg) a"
  have w: "walk_ahead A bk needs cfg q H F f h i n (b, mx)" using ahd by simp
  obtain f' b' m1 where f: "f = Suc f'" "span ?e 16 \<subseteq> H"
    and op: "run_op bk ?c q ?g (ucast l) (b, mx) = Inr (b', m1)" "needs b ?c q ?g (ucast l) \<subseteq> H"
    and more': "nxt \<Longrightarrow> ?e + desc_next A + 2 \<le> VIEW \<and>
       walk_ahead A bk needs cfg q H F f' h (val16 m1 (?e + desc_next A)) (n + ucast l) (b', m1)"
    and last: "\<not> nxt \<Longrightarrow> finish_chain A cfg q h (n + ucast l, b', m1) = Inr F"
    by (rule walk_ahead_first [OF A w]) (use ahd in auto)
  obtain m1' where m1': "run_op bk ?c q ?g (ucast l) (b, m) = Inr (b', m1')" "same_on H m1 m1'" "same_on (- H) m m1'"
    by (rule op_held [OF op same])
  let ?c' = "if nxt then Load_Next h i (n + ucast l) else Load_Used h (n + ucast l)"
  have "access A bk cfg q p (Call_Class h i n l a nxt) (b, m) = Inr (?c', b', m1')" using m1'(1) by simp
  moreover have "ahead A bk needs cfg q p H F f' ?c' (b', m1)" using f(2) more' last by simp
  moreover have "accesses_left f' ?c' < accesses_left f (Call_Class h i n l a nxt)" using f(1) by simp
  moreover have "?c' \<noteq> Nothing_To_Do" "?c' \<noteq> Load_Idx" by simp_all
  ultimately show ?thesis using m1'(2,3) unfolding sim_step_def by blast
qed

lemma sim_access:
  assumes A: "abi_ok A" and U: "used_region (used cfg ! q) \<subseteq> H" and same: "same_on H mx m"
    and ahd: "ahead A bk needs cfg q p H F f c (b, mx)" and fin: "c \<noteq> Finished"
    and idx: "c = Load_Idx \<Longrightarrow> val16 m (unat (avail cfg ! q) + avail_idx A) \<noteq> p"
  shows "sim_step A bk needs cfg q p H F f c b m"
proof (cases c)
  case Load_Idx
  then show ?thesis using ahd sim_idx [OF same] idx by simp
next
  case Load_Head
  then show ?thesis using ahd sim_head [OF same] by simp
next
  case (Load_Next h i n)
  then show ?thesis using ahd sim_next [OF A same] by simp
next
  case (Call_Class h i n l a nxt)
  then show ?thesis using ahd sim_class [OF A same] by simp
next
  case Nothing_To_Do
  then show ?thesis using ahd by simp
next
  case Finished
  then show ?thesis using fin by simp
next
  case (Load_Len h i n)
  show ?thesis by (rule sim_walk [OF A same _ ahd]) (use Load_Len in simp)
next
  case (Load_Addr h i n l)
  show ?thesis by (rule sim_walk [OF A same _ ahd]) (use Load_Addr in simp)
next
  case (Load_Flags h i n l a)
  show ?thesis by (rule sim_walk [OF A same _ ahd]) (use Load_Flags in simp)
qed (rule sim_finish [OF A same U _ ahd], simp)+

text \<open>The invariant of a run: what is left of the uninterrupted body ends in \<open>F\<close>.\<close>

lemma svc_run_ahead:
  assumes A: "abi_ok A" and U: "used_region (used cfg ! q) \<subseteq> H" and p: "val16 m0 (unat (avail cfg ! q) + avail_idx A) \<noteq> p"
    and start: "ahead A bk needs cfg q p H F fuel Load_Idx (b0, m0)"
  shows "svc_run A bk cfg q p H (b0, m0) k x \<Longrightarrow>
    \<exists>f mx. ahead A bk needs cfg q p H F f (fst x) (fst (snd x), mx) \<and> same_on H mx (snd (snd x))
      \<and> (fst x = Load_Idx \<longrightarrow> val16 (snd (snd x)) (unat (avail cfg ! q) + avail_idx A) \<noteq> p)
      \<and> k + accesses_left f (fst x) \<le> 5 * fuel + 5"
proof (induction rule: svc_run.induct)
  case svc_start
  show ?case using start p by (intro exI [of _ fuel] exI [of _ m0]) simp
next
  case (svc_device k c s x)
  obtain b m where s: "s = (b, m)" by (cases s)
  obtain f mx where inv: "ahead A bk needs cfg q p H F f c (b, mx)" "same_on H mx m"
    "c = Load_Idx \<longrightarrow> val16 m (unat (avail cfg ! q) + avail_idx A) \<noteq> p" "k + accesses_left f c \<le> 5 * fuel + 5"
    using svc_device.IH s by auto
  then have "sim_step A bk needs cfg q p H F f c b m" using sim_access [OF A U] svc_device.hyps(2) by blast
  then obtain f' c' b' m' mx' where "access A bk cfg q p c (b, m) = Inr (c', b', m')"
    "ahead A bk needs cfg q p H F f' c' (b', mx')" "same_on H mx' m'" "accesses_left f' c' < accesses_left f c"
    "c' \<noteq> Load_Idx"
    unfolding sim_step_def by blast
  then show ?case using svc_device.hyps(3) inv(4) s by (intro exI [of _ f'] exI [of _ mx']) auto
next
  case (svc_driver k c b m m')
  then show ?case using same_on_trans by (fastforce simp: driver_keeps_def)
qed

text \<open>What every run of device and driver comes to, and that it does.\<close>

lemma svc_run_safe:
  assumes A: "abi_ok A" and U: "used_region (used cfg ! q) \<subseteq> H" and p: "val16 m0 (unat (avail cfg ! q) + avail_idx A) \<noteq> p"
    and start: "ahead A bk needs cfg q p H F fuel Load_Idx (b0, m0)"
    and run: "svc_run A bk cfg q p H (b0, m0) k (c, b, m)"
  shows "k \<le> 5 * fuel + 5" "c \<noteq> Nothing_To_Do"
    "c \<noteq> Finished \<Longrightarrow> \<exists>x. access A bk cfg q p c (b, m) = Inr x \<and> fst x \<noteq> Nothing_To_Do \<and> same_on (- H) m (snd (snd x))"
    "c = Finished \<Longrightarrow> b = fst F \<and> same_on H (snd F) m"
proof -
  obtain f mx where inv: "ahead A bk needs cfg q p H F f c (b, mx)" "same_on H mx m"
    "c = Load_Idx \<Longrightarrow> val16 m (unat (avail cfg ! q) + avail_idx A) \<noteq> p" "k + accesses_left f c \<le> 5 * fuel + 5"
    using svc_run_ahead [OF A U p start run] by auto
  show "k \<le> 5 * fuel + 5" using inv(4) by simp
  show "c \<noteq> Nothing_To_Do" using inv(1) by auto
  show "b = fst F \<and> same_on H (snd F) m" if "c = Finished" using inv(1,2) that by simp
  show "\<exists>x. access A bk cfg q p c (b, m) = Inr x \<and> fst x \<noteq> Nothing_To_Do \<and> same_on (- H) m (snd (snd x))"
    if "c \<noteq> Finished"
    using sim_access [OF A U inv(2,1) that inv(3)] unfolding sim_step_def by force
qed

lemma svc_run_completes:
  assumes A: "abi_ok A" and U: "used_region (used cfg ! q) \<subseteq> H" and p: "val16 m0 (unat (avail cfg ! q) + avail_idx A) \<noteq> p"
    and start: "ahead A bk needs cfg q p H F fuel Load_Idx (b0, m0)"
  shows "svc_run A bk cfg q p H (b0, m0) k (c, b, m) \<Longrightarrow>
    \<exists>k' b' m'. svc_run A bk cfg q p H (b0, m0) k' (Finished, b', m') \<and> same_on (- H) m m'"
proof (induction "5 * fuel + 5 - k" arbitrary: k c b m rule: less_induct)
  case less
  note safe = svc_run_safe [OF A U p start less.prems]
  show ?case
  proof (cases "c = Finished")
    case True
    then show ?thesis using less.prems same_on_refl by blast
  next
    case False
    then obtain c' b' m' where "access A bk cfg q p c (b, m) = Inr (c', b', m')" and m: "same_on (- H) m m'"
      using safe(3) by fastforce
    then have run: "svc_run A bk cfg q p H (b0, m0) (Suc k) (c', b', m')"
      using svc_device [OF less.prems] False safe(2) by blast
    have "5 * fuel + 5 - Suc k < 5 * fuel + 5 - k" using svc_run_safe(1) [OF A U p start run] by linarith
    from less.hyps [OF this run] show ?thesis using same_on_trans [OF m] by blast
  qed
qed

end

section \<open>Chains the driver has handed over\<close>

text \<open>The descriptors of a chain, and the operations on its buffers when each finds what it needs in \<open>H\<close>.\<close>

fun chain_descs :: "nat \<Rightarrow> vring_abi \<Rightarrow> mem \<Rightarrow> u64 \<Rightarrow> u16 \<Rightarrow> nat set" where
  "chain_descs 0 A m D i = {}"
| "chain_descs (Suc f) A m D i =
     (let e = desc_at A D i
      in span e 16 \<union> (if val16 m (e + desc_flags A) AND DESC_F_NEXT A \<noteq> 0
                      then chain_descs f A m D (val16 m (e + desc_next A)) else {}))"

fun ops_within ::
  "'b backend \<Rightarrow> ('b \<Rightarrow> chain_op \<Rightarrow> nat \<Rightarrow> u64 \<Rightarrow> u64 \<Rightarrow> nat set) \<Rightarrow> nat \<Rightarrow> nat set
     \<Rightarrow> (chain_op \<times> u64 \<times> u32) list \<Rightarrow> 'b \<times> mem \<Rightarrow> bool" where
  "ops_within bk needs q H [] s = True"
| "ops_within bk needs q H ((c, p, l) # ops) s =
     (needs (fst s) c q p (ucast l) \<subseteq> H
      \<and> (case run_op bk c q p (ucast l) s of Inl e \<Rightarrow> True | Inr s' \<Rightarrow> ops_within bk needs q H ops s'))"

text \<open>A chain whose operations find what they need in \<open>H\<close> and leave the table alone is walked within \<open>H\<close>.\<close>

context local_backend
begin

lemma walk_within_ops:
  assumes A: "abi_ok A"
  shows "chain_at f A m start D i = Some ds \<Longrightarrow> same_on (table_region D) m (snd s) \<Longrightarrow>
     ops_apart reach q (table_region D) (chain_ops (queue_header_size bk) n ds) \<Longrightarrow>
     ops_within bk needs q H (chain_ops (queue_header_size bk) n ds) s \<Longrightarrow> chain_descs f A m D i \<subseteq> H \<Longrightarrow>
     walk_within f A bk needs start D q H i n s"
proof (induction f arbitrary: i n s ds)
  case 0
  then show ?case by simp
next
  case (Suc f)
  let ?e = "desc_at A D i"
  let ?p = "guest_offset start (val64 m (?e + desc_addr A))" and ?l = "val32 m (?e + desc_len A)"
  have sub: "span ?e 16 \<subseteq> table_region D" using desc_region [OF A, of 0 16 D i] by simp
  note v = held_vals [OF A sub Suc.prems(2)]
  have e: "span ?e 16 \<subseteq> H" using Suc.prems(5) by (auto simp: Let_def)
  show ?case
  proof (cases "chain_more A m D i")
    case False
    then have "ds = [(?p, ?l)]" using Suc.prems(1) by (simp add: chain_at_Suc Let_def)
    then show ?thesis using False Suc.prems(4) e
      by (auto simp: Let_def v chain_more_def class_op_def split: sum.splits)
  next
    case True
    then obtain ds' where ds': "chain_at f A m start D (chain_next A m D i) = Some ds'" "ds = (?p, ?l) # ds'"
      using Suc.prems(1) by (auto simp: chain_at_Suc Let_def)
    then obtain b bs where bs: "ds' = b # bs" by (cases f) (auto simp: chain_at_Suc Let_def split: if_splits)
    let ?c = "class_op bk n True"
    have ops: "chain_ops (queue_header_size bk) n ds
        = (?c, ?p, ?l) # chain_ops (queue_header_size bk) (n + ucast ?l) ds'"
      by (simp add: ds'(2) bs class_op_def)
    have more': "val16 m (?e + desc_flags A) AND DESC_F_NEXT A \<noteq> 0" using True by (simp add: chain_more_def)
    have "walk_within f A bk needs start D q H (val16 (snd s') (?e + desc_next A)) (n + ucast ?l) s'"
      if op: "run_op bk ?c q ?p (ucast ?l) s = Inr s'" for s'
    proof -
      have "same_on (table_region D) (snd s) (snd s')"
        using op_same_on [of ?c q ?p "ucast ?l" "fst s" "snd s" "fst s'" "snd s'" "table_region D"] op Suc.prems(3)
        unfolding ops by (simp add: ops_apart_def)
      then have m: "same_on (table_region D) m (snd s')" using same_on_trans Suc.prems(2) by blast
      have "walk_within f A bk needs start D q H (chain_next A m D i) (n + ucast ?l) s'"
        by (rule Suc.IH [OF ds'(1) m])
          (use Suc.prems(3-5) op more' in \<open>auto simp: ops ops_apart_def chain_next_def Let_def\<close>)
      then show ?thesis using held_vals(4) [OF A sub m] by (simp add: chain_next_def)
    qed
    then show ?thesis using more' Suc.prems(4) e unfolding ops
      by (auto simp: Let_def v split: sum.splits)
  qed
qed

text \<open>From the uninterrupted service of such a chain to the service beside a driver.\<close>

lemma service_ahead:
  assumes A: "abi_ok A" and ok: "rings_ok cfg q" "q < length (processed d)"
    and i: "waiting A cfg q d = i # is" and data: "queue_has_data bk q (dclass d)"
    and ds: "chain_of fuel A cfg q (memory d) i = Some ds"
    and apart: "ops_apart reach q (ring_region cfg q) (chain_ops (queue_header_size bk) 0 ds)"
    and run: "run_ops bk q (chain_ops (queue_header_size bk) 0 ds) (dclass d, memory d) = Inr s"
    and within: "ops_within bk needs q H (chain_ops (queue_header_size bk) 0 ds) (dclass d, memory d)"
    and H: "chain_descs (length ds) A (memory d) (desc cfg ! q) i \<subseteq> H"
      "span (avail_slot A (avail cfg ! q) (processed d ! q)) 2 \<subseteq> H"
  shows "ahead A bk needs cfg q (processed d ! q) H
      (fst s, publish A (used cfg ! q) i (chain_len ds) (snd s)) (length ds) Load_Idx (dclass d, memory d)"
proof -
  let ?p = "processed d ! q" and ?V = "avail cfg ! q" and ?D = "desc cfg ! q"
  let ?ops = "chain_ops (queue_header_size bk) 0 ds"
  have ds': "chain_at (length ds) A (memory d) (starting_address_of cfg) ?D i = Some ds"
    using chain_at_fuel [OF ds [unfolded chain_of_def] order_refl] .
  have ne: "?p \<noteq> val16 (memory d) (unat ?V + avail_idx A)"
    using i todo_Nil_iff unfolding waiting_def by (metis list.discI)
  have head: "val16 (memory d) (avail_slot A ?V ?p) = i"
    using i todo_Cons [OF ne] by (simp add: waiting_def avail_at_def avail_slot_def)
  have slot: "avail_slot A ?V ?p + 2 \<le> VIEW" "unat ?V + avail_idx A + 2 \<le> VIEW"
  proof -
    have "unat ?p mod 16384 < 16384" "unat ?V + (4 + 2 * 16384) \<le> VIEW" using ok(1) by (simp_all add: rings_ok_def)
    then show "avail_slot A ?V ?p + 2 \<le> VIEW" "unat ?V + avail_idx A + 2 \<le> VIEW"
      unfolding avail_slot_def queue_size_def using A by (simp_all add: abi_ok_def)
  qed
  have tab: "ops_apart reach q (table_region ?D) ?ops" by (rule ops_apart_subset [OF apart ring_regions(1)])
  have walk: "walk_chain (length ds) A bk (starting_address_of cfg) ?D q i 0 (dclass d, memory d) = Inr (chain_len ds, s)"
    using walk_is_run [OF A _ ds', of "(dclass d, memory d)" 0 q] ok(1) tab run
    by (simp add: table_mapped_def rings_ok_def ops_apart_def)
  have U: "unat (used cfg ! q) + (4 + 8 * 16384) \<le> VIEW" using ok(1) by (simp add: rings_ok_def)
  have "walk_within (length ds) A bk needs (starting_address_of cfg) ?D q H i 0 (dclass d, memory d)"
    using walk_within_ops [OF A ds' _ tab within H(1)] by simp
  moreover have "finish_chain A cfg q i (chain_len ds, s) = Inr (fst s, publish A (used cfg ! q) i (chain_len ds) (snd s))"
    using put_used_stores [OF A U] by (simp add: finish_chain_def publish_def)
  ultimately show ?thesis
    using slot H(2) data by (simp add: head_ahead_def walk_ahead_def Let_def head walk)
qed

end

section \<open>A service beside the driver is a service at once\<close>

lemma bindR_mono: "bindR x f = Inr r \<Longrightarrow> (\<And>y. f y = Inr r \<Longrightarrow> g y = Inr r) \<Longrightarrow> bindR x g = Inr r"
  by (cases x) auto

lemma walk_chain_fuel:
  "walk_chain f A bk start D q i n s = Inr r \<Longrightarrow> f \<le> g \<Longrightarrow> walk_chain g A bk start D q i n s = Inr r"
proof (induction f arbitrary: g i n s)
  case 0
  then show ?case by simp
next
  case (Suc f)
  then obtain g' where g: "g = Suc g'" "f \<le> g'" by (cases g) auto
  show ?case
    using Suc.prems(1) unfolding g(1) walk_chain_Suc
    by (elim bindR_mono) (auto split: if_splits elim!: bindR_mono intro: Suc.IH [OF _ g(2)])
qed

lemma chain_at_held:
  assumes A: "abi_ok A" and same: "same_on H m m'"
  shows "chain_descs f A m D i \<subseteq> H \<Longrightarrow> chain_at f A m start D i = Some ds \<Longrightarrow> chain_at f A m' start D i = Some ds"
proof (induction f arbitrary: i ds)
  case 0
  then show ?case by simp
next
  case (Suc f)
  have "span (desc_at A D i) 16 \<subseteq> H" using Suc.prems(1) by (simp add: Let_def)
  note v = held_vals [OF A this same]
  show ?case using Suc.prems Suc.IH
    by (auto simp: chain_at_Suc chain_more_def chain_next_def Let_def v split: if_splits)
qed

text \<open>The memory in which the driver has done all it does during the service.\<close>

definition before_service :: "nat set \<Rightarrow> mem \<Rightarrow> mem \<Rightarrow> mem" where
  "before_service H m m' = (\<lambda>x. if x \<in> H then m x else m' x)"

lemma same_after_driver:
  assumes "same_on V (before_service H m0 m) m" "same_on H m0 m'" "same_on (- H) m' m"
  shows "same_on V m' m"
  unfolding same_on_def
proof
  fix x assume "x \<in> V"
  with assms(1) have "m x = before_service H m0 m x" unfolding same_on_def by blast
  then show "m x = m' x" using assms(2,3) by (cases "x \<in> H") (auto simp: same_on_def before_service_def)
qed

context local_backend
begin

lemma walk_held:
  assumes A: "abi_ok A"
  shows "walk_within f A bk needs start D q H i n (b, m) \<Longrightarrow> walk_chain f A bk start D q i n (b, m) = Inr (n', b', m1) \<Longrightarrow>
    same_on H m mx \<Longrightarrow>
    \<exists>m1'. walk_chain f A bk start D q i n (b, mx) = Inr (n', b', m1') \<and> same_on H m1 m1' \<and> same_on (- H) mx m1'"
proof (induction f arbitrary: i n b m mx)
  case 0
  then show ?case by simp
next
  case (Suc f)
  let ?e = "desc_at A D i"
  let ?l = "val32 m (?e + desc_len A)" and ?a = "guest_offset start (val64 m (?e + desc_addr A))"
  let ?nxt = "val16 m (?e + desc_flags A) AND DESC_F_NEXT A \<noteq> 0"
  have e: "span ?e 16 \<subseteq> H" using Suc.prems(1) by (simp add: Let_def)
  note v = held_vals [OF A e Suc.prems(3)]
  obtain b2 m2 where op: "run_op bk (class_op bk n ?nxt) q ?a (ucast ?l) (b, m) = Inr (b2, m2)"
    using Suc.prems(2) by (auto simp: walk_chain_Suc bindR_Inr_iff res_simps simp del: walk_chain.simps)
  have "needs b (class_op bk n ?nxt) q ?a (ucast ?l) \<subseteq> H" using Suc.prems(1) by (simp add: Let_def)
  from op_held [OF op this Suc.prems(3)] obtain m2' where m2':
    "run_op bk (class_op bk n ?nxt) q ?a (ucast ?l) (b, mx) = Inr (b2, m2')" "same_on H m2 m2'" "same_on (- H) mx m2'" .
  note w = Suc.prems(2) [unfolded walk_chain_Suc, simplified]
  show ?case
  proof (cases ?nxt)
    case False
    then show ?thesis using w op m2' by (auto simp: walk_chain_Suc v bindR_Inr_iff res_simps simp del: walk_chain.simps)
  next
    case True
    have within: "walk_within f A bk needs start D q H (val16 m2 (?e + desc_next A)) (n + ucast ?l) (b2, m2)"
      and walk: "walk_chain f A bk start D q (val16 m2 (?e + desc_next A)) (n + ucast ?l) (b2, m2) = Inr (n', b', m1)"
      using Suc.prems(1) True op w by (auto simp: Let_def bindR_Inr_iff res_simps)
    from Suc.IH [OF within walk m2'(2)] obtain m1' where m1':
      "walk_chain f A bk start D q (val16 m2 (?e + desc_next A)) (n + ucast ?l) (b2, m2') = Inr (n', b', m1')"
      "same_on H m1 m1'" "same_on (- H) m2' m1'" by blast
    have "same_on (- H) mx m1'" using same_on_trans [OF m2'(3) m1'(3)] .
    moreover have "walk_chain (Suc f) A bk start D q i n (b, mx) = Inr (n', b', m1')"
      using w True m2'(1) m1'(1) held_vals(4) [OF A e m2'(2)]
      by (auto simp: walk_chain_Suc v bindR_Inr_iff res_simps simp del: walk_chain.simps)
    ultimately show ?thesis using m1'(2) by blast
  qed
qed

lemma finish_held:
  assumes A: "abi_ok A" and fin: "finish_chain A cfg q h (n, b, m) = Inr F" and U: "used_region (used cfg ! q) \<subseteq> H"
    and same: "same_on H m mx"
  shows "\<exists>m'. put_used A (used cfg ! q) h n mx = Inr m' \<and> same_on H (snd F) m' \<and> same_on (- H) mx m' \<and> fst F = b"
proof -
  let ?u = "val16 m (unat (used cfg ! q) + used_idx A)" and ?i = "unat (used cfg ! q) + used_idx A"
  let ?e = "used_slot A (used cfg ! q) ?u"
  note spans = used_spans [OF A, THEN subset_trans [OF _ U]]
  note F = finish_ahead [OF fin refl]
  let ?m1 = "poke mx (?e + elem_id A) (bytes32 (ucast h))"
  let ?m2 = "poke ?m1 (?e + elem_len A) (bytes32 (ucast n))" and ?M1 = "poke m (?e + elem_id A) (bytes32 (ucast h))"
  let ?M2 = "poke ?M1 (?e + elem_len A) (bytes32 (ucast n))"
  have u: "val16 mx ?i = ?u" by (rule same_on_vals(1) [OF same spans(1)])
  have s1: "same_on H ?M1 ?m1" "same_on (- H) mx ?m1" using store_held [OF same] spans(2) [of ?u] by simp_all
  have s2: "same_on H ?M2 ?m2" "same_on (- H) ?m1 ?m2" using store_held [OF s1(1)] spans(3) [of ?u] by simp_all
  have s3: "same_on H (snd F) (poke ?m2 ?i (bytes16 (?u + 1)))" "same_on (- H) ?m2 (poke ?m2 ?i (bytes16 (?u + 1)))"
    using store_held [OF s2(1)] spans(1) F(4) by simp_all
  have "put_used A (used cfg ! q) h n mx = Inr (poke ?m2 ?i (bytes16 (?u + 1)))"
    using F(1-3) u by (simp add: put_used_def used_slot_def Let_def)
  moreover have "same_on (- H) mx (poke ?m2 ?i (bytes16 (?u + 1)))"
    using same_on_trans [OF s1(2) same_on_trans [OF s2(2) s3(2)]] .
  ultimately show ?thesis using s3(1) F(4) by auto
qed

lemma svc_run_at_once:
  assumes A: "abi_ok A" and ok: "q < length (desc cfg)" "q < length (avail cfg)" "q < length (used cfg)" "q < length (processed d)"
    and U: "used_region (used cfg ! q) \<subseteq> H" and p: "val16 (memory d) (unat (avail cfg ! q) + avail_idx A) \<noteq> processed d ! q"
    and ahd: "ahead A bk needs cfg q (processed d ! q) H F f Load_Idx (dclass d, memory d)" and fuel: "f \<le> fuel"
    and run: "svc_run A bk cfg q (processed d ! q) H (dclass d, memory d) k (Finished, b, m)"
  defines "mx \<equiv> before_service H (memory d) m"
  assumes idx: "val16 mx (unat (avail cfg ! q) + avail_idx A) \<noteq> processed d ! q"
  shows "service_queue fuel A bk cfg q (d\<lparr>memory := mx\<rparr>)
    = Inr (set_interrupt A cfg (d\<lparr>memory := m, dclass := b, processed := (processed d)[q := processed d ! q + 1]\<rparr>))"
proof -
  let ?p = "processed d ! q" and ?V = "avail cfg ! q"
  let ?i = "val16 (memory d) (avail_slot A ?V ?p)"
  have same: "same_on H (memory d) mx" "same_on (- H) mx m" by (simp_all add: mx_def before_service_def same_on_def)
  have slot: "unat ?V + avail_idx A + 2 \<le> VIEW" "queue_has_data bk q (dclass d)" "avail_slot A ?V ?p + 2 \<le> VIEW"
    "span (avail_slot A ?V ?p) 2 \<subseteq> H"
    and ahd': "walk_ahead A bk needs cfg q H F f ?i ?i 0 (dclass d, memory d)"
    using ahd by (simp_all add: head_ahead_def Let_def)
  obtain n' b' m1 where within: "walk_within f A bk needs (starting_address_of cfg) (desc cfg ! q) q H ?i 0 (dclass d, memory d)"
    and walk: "walk_chain f A bk (starting_address_of cfg) (desc cfg ! q) q ?i 0 (dclass d, memory d) = Inr (n', b', m1)"
    and fin: "finish_chain A cfg q ?i (n', b', m1) = Inr F"
    using ahd' by (auto simp: walk_ahead_def bindR_Inr_iff)
  obtain m1' where m1': "walk_chain f A bk (starting_address_of cfg) (desc cfg ! q) q ?i 0 (dclass d, mx) = Inr (n', b', m1')"
    "same_on H m1 m1'" "same_on (- H) mx m1'" using walk_held [OF A within walk same(1)] by blast
  obtain m' where m': "put_used A (used cfg ! q) ?i n' m1' = Inr m'" "same_on H (snd F) m'" "same_on (- H) m1' m'" "fst F = b'"
    using finish_held [OF A fin U m1'(2)] by blast
  have F: "b = fst F" "same_on H (snd F) m" using svc_run_safe(4) [OF A U p ahd run] by simp_all
  have "m' = m"
  proof
    fix x
    show "m' x = m x"
      using m'(2,3) m1'(3) F(2) same(2) by (cases "x \<in> H") (simp_all add: same_on_def)
  qed
  moreover have "val16 mx (avail_slot A ?V ?p) = ?i" by (rule same_on_vals(1) [OF same(1) slot(4)])
  ultimately show ?thesis
    using ok idx slot(1-3) walk_chain_fuel [OF m1'(1) fuel] m'(1,4) F(1)
    by (simp add: service_queue_def Let_def avail_slot_def)
qed

end

end
