(* ===== verification/Live_Queue.thy ===== *)
theory Live_Queue
  imports Service_Steps
begin

text \<open>
  Queue and driver interleaved access by access (\<open>device_loop\<close>, \<^verbatim>\<open>console/virtiodevice.hpp\<close>). In
  \<open>queue_step\<close> of \<open>Virtqueue\<close> a service is one step; here it is a run of single accesses, between any two
  of which the driver moves. Every such run is one of \<open>queue_step\<close>: the coarser model loses nothing.
\<close>

section \<open>What the driver hands over with a chain\<close>

text \<open>The chain \<open>ds\<close> of the oldest head \<open>i\<close>, and in \<open>H\<close> all that its service looks at or changes, except
  the available index. The device class can process it.\<close>

definition chain_handed ::
  "nat \<Rightarrow> vring_abi \<Rightarrow> 'b backend \<Rightarrow> (chain_op \<Rightarrow> nat \<Rightarrow> u64 \<Rightarrow> u64 \<Rightarrow> nat set)
     \<Rightarrow> ('b \<Rightarrow> chain_op \<Rightarrow> nat \<Rightarrow> u64 \<Rightarrow> u64 \<Rightarrow> nat set) \<Rightarrow> devcfg \<Rightarrow> nat \<Rightarrow> nat set \<Rightarrow> 'b dev \<Rightarrow> u16 \<Rightarrow> (u64 \<times> u32) list \<Rightarrow> bool"
  where
  "chain_handed fuel A bk reach needs cfg q H d i ds \<longleftrightarrow>
     waiting A cfg q d \<noteq> [] \<and> hd (waiting A cfg q d) = i \<and> queue_has_data bk q (dclass d)
     \<and> chain_of fuel A cfg q (memory d) i = Some ds
     \<and> ops_apart reach q (ring_region cfg q) (chain_ops (queue_header_size bk) 0 ds)
     \<and> (\<exists>s. run_ops bk q (chain_ops (queue_header_size bk) 0 ds) (dclass d, memory d) = Inr s)
     \<and> ops_within bk needs q H (chain_ops (queue_header_size bk) 0 ds) (dclass d, memory d)
     \<and> chain_descs (length ds) A (memory d) (desc cfg ! q) i \<subseteq> H
     \<and> span (avail_slot A (avail cfg ! q) (processed d ! q)) 2 \<subseteq> H \<and> used_region (used cfg ! q) \<subseteq> H"

section \<open>The queue at the grain of single accesses\<close>

text \<open>Between services driver and queue move as in \<open>queue_step\<close>; a service is a run that ends, during
  which the driver has posted the heads \<open>hs\<close>. The device then counts the head and raises the interrupt.\<close>

inductive live_step ::
  "nat \<Rightarrow> vring_abi \<Rightarrow> 'b backend \<Rightarrow> (chain_op \<Rightarrow> nat \<Rightarrow> u64 \<Rightarrow> u64 \<Rightarrow> nat set)
     \<Rightarrow> ('b \<Rightarrow> chain_op \<Rightarrow> nat \<Rightarrow> u64 \<Rightarrow> u64 \<Rightarrow> nat set) \<Rightarrow> devcfg \<Rightarrow> nat \<Rightarrow> 'b qrun \<Rightarrow> 'b qrun \<Rightarrow> bool"
  for fuel A bk reach needs cfg q where
  live_driver: "todo A m' (avail cfg ! q) (processed (q_dev s) ! q)
             = todo A (memory (q_dev s)) (avail cfg ! q) (processed (q_dev s) ! q) @ hs \<Longrightarrow>
     same_on (used_region (used cfg ! q)) (memory (q_dev s)) m' \<Longrightarrow>
     live_step fuel A bk reach needs cfg q s
       (s\<lparr>q_dev := (q_dev s)\<lparr>memory := m', dclass := b'\<rparr>, posted := posted s @ hs\<rparr>)"
| live_skip: "skip_round A bk cfg q (q_dev s) \<Longrightarrow> service_queue fuel A bk cfg q (q_dev s) = Inr d' \<Longrightarrow>
     live_step fuel A bk reach needs cfg q s (s\<lparr>q_dev := d'\<rparr>)"
| live_serve: "chain_handed fuel A bk reach needs cfg q H (q_dev s) i ds \<Longrightarrow>
     svc_run A bk cfg q (processed (q_dev s) ! q) H (dclass (q_dev s), memory (q_dev s)) k (Finished, b, m) \<Longrightarrow>
     todo A m (avail cfg ! q) (processed (q_dev s) ! q)
       = todo A (memory (q_dev s)) (avail cfg ! q) (processed (q_dev s) ! q) @ hs \<Longrightarrow>
     live_step fuel A bk reach needs cfg q s
       (s\<lparr>q_dev := set_interrupt A cfg ((q_dev s)\<lparr>memory := m, dclass := b,
                     processed := (processed (q_dev s))[q := processed (q_dev s) ! q + 1]\<rparr>),
          posted := posted s @ hs, completed := completed s @ [(i, ucast (chain_len ds))]\<rparr>)"

inductive_cases live_stepE: "live_step fuel A bk reach needs cfg q s s'"

section \<open>The coarser model loses nothing\<close>

context local_backend
begin

lemma handed_ahead:
  assumes A: "abi_ok A" and ok: "rings_ok cfg q" "q < length (processed d)"
    and h: "chain_handed fuel A bk reach needs cfg q H d i ds"
  obtains s where "run_ops bk q (chain_ops (queue_header_size bk) 0 ds) (dclass d, memory d) = Inr s"
    "ahead A bk needs cfg q (processed d ! q) H (fst s, publish A (used cfg ! q) i (chain_len ds) (snd s)) (length ds)
       Load_Idx (dclass d, memory d)"
proof -
  note h = h [unfolded chain_handed_def]
  obtain "is" where i: "waiting A cfg q d = i # is" using h by (cases "waiting A cfg q d") auto
  obtain s where s: "run_ops bk q (chain_ops (queue_header_size bk) 0 ds) (dclass d, memory d) = Inr s" using h by blast
  show thesis
    by (rule that [OF s], rule service_ahead [OF A ok i _ _ _ s]) (use h in blast)+
qed

text \<open>The device leaves the available ring as it was, so that the driver's changes are the whole of it.\<close>

lemma service_avail:
  assumes A: "abi_ok A" and ok: "rings_ok cfg q"
    and apart: "ops_apart reach q (ring_region cfg q) (chain_ops (queue_header_size bk) 0 ds)"
    and run: "run_ops bk q (chain_ops (queue_header_size bk) 0 ds) (b0, m0) = Inr s"
    and F: "same_on H (publish A (used cfg ! q) i n (snd s)) m"
  shows "same_on (avail_region (avail cfg ! q)) (before_service H m0 m) m"
proof -
  let ?V = "avail_region (avail cfg ! q)"
  have "same_on ?V m0 (snd s)"
    using same_on_subset [OF run_ops_same [OF run apart] ring_regions(2)] by simp
  moreover have "same_on ?V (snd s) (publish A (used cfg ! q) i n (snd s))"
    by (rule same_on_subset [OF publish_reads(4) [OF A]]) (use ok in \<open>auto simp: rings_ok_def\<close>)
  ultimately show ?thesis using F by (simp add: same_on_def before_service_def)
qed

lemma handed_avail:
  assumes A: "abi_ok A" and ok: "rings_ok cfg q" "q < length (processed d)"
    and h: "chain_handed fuel A bk reach needs cfg q H d i ds"
    and run: "svc_run A bk cfg q (processed d ! q) H (dclass d, memory d) k (Finished, b, m)"
  shows "same_on (avail_region (avail cfg ! q)) (before_service H (memory d) m) m"
proof -
  note hd = h [unfolded chain_handed_def]
  obtain t where t: "run_ops bk q (chain_ops (queue_header_size bk) 0 ds) (dclass d, memory d) = Inr t"
    and ahd: "ahead A bk needs cfg q (processed d ! q) H (fst t, publish A (used cfg ! q) i (chain_len ds) (snd t))
       (length ds) Load_Idx (dclass d, memory d)"
    by (rule handed_ahead [OF A ok h])
  have p: "val16 (memory d) (unat (avail cfg ! q) + avail_idx A) \<noteq> processed d ! q"
    using hd todo_Nil_iff by (auto simp: waiting_def)
  have "same_on H (publish A (used cfg ! q) i (chain_len ds) (snd t)) m"
    using svc_run_safe(4) [OF A _ p ahd run] hd by simp
  then show ?thesis using service_avail [OF A ok(1) _ t] hd by blast
qed

lemma live_serve_steps:
  assumes A: "abi_ok A" and ok: "rings_ok cfg q" "q < length (processed (q_dev s))"
    and h: "chain_handed fuel A bk reach needs cfg q H (q_dev s) i ds"
    and run: "svc_run A bk cfg q (processed (q_dev s) ! q) H (dclass (q_dev s), memory (q_dev s)) k (Finished, b, m)"
    and posts: "todo A m (avail cfg ! q) (processed (q_dev s) ! q)
       = todo A (memory (q_dev s)) (avail cfg ! q) (processed (q_dev s) ! q) @ hs"
  shows "(queue_step fuel A bk reach cfg q)\<^sup>*\<^sup>* s
       (s\<lparr>q_dev := set_interrupt A cfg ((q_dev s)\<lparr>memory := m, dclass := b,
                     processed := (processed (q_dev s))[q := processed (q_dev s) ! q + 1]\<rparr>),
          posted := posted s @ hs, completed := completed s @ [(i, ucast (chain_len ds))]\<rparr>)"
proof -
  let ?d = "q_dev s" and ?V = "avail cfg ! q" and ?U = "used_region (used cfg ! q)"
  let ?p = "processed ?d ! q" and ?mx = "before_service H (memory ?d) m"
  let ?s1 = "s\<lparr>q_dev := ?d\<lparr>memory := ?mx, dclass := dclass ?d\<rparr>, posted := posted s @ hs\<rparr>"
  note hd = h [unfolded chain_handed_def]
  have U: "?U \<subseteq> H" and chain: "chain_of fuel A cfg q (memory ?d) i = Some ds"
    and apart: "ops_apart reach q (ring_region cfg q) (chain_ops (queue_header_size bk) 0 ds)"
    and data: "queue_has_data bk q (dclass ?d)" using hd by blast+
  obtain t where t: "run_ops bk q (chain_ops (queue_header_size bk) 0 ds) (dclass ?d, memory ?d) = Inr t"
    and ahd: "ahead A bk needs cfg q ?p H (fst t, publish A (used cfg ! q) i (chain_len ds) (snd t)) (length ds)
       Load_Idx (dclass ?d, memory ?d)"
    by (rule handed_ahead [OF A ok h])
  have p: "val16 (memory ?d) (unat ?V + avail_idx A) \<noteq> ?p"
    using hd todo_Nil_iff by (auto simp: waiting_def)
  have av: "todo A ?mx ?V ?p = todo A m ?V ?p"
    using todo_same [OF A handed_avail [OF A ok h run]] by simp
  have td: "todo A ?mx ?V ?p = todo A (memory ?d) ?V ?p @ hs" using av posts by simp
  have same: "same_on H (memory ?d) ?mx" by (simp add: before_service_def same_on_def)
  let ?d' = "set_interrupt A cfg (?d\<lparr>memory := m, dclass := b, processed := (processed ?d)[q := ?p + 1]\<rparr>)"
  have post: "queue_step fuel A bk reach cfg q s ?s1"
    by (rule driver [OF td same_on_subset [OF same U]])
  have serve: "queue_step fuel A bk reach cfg q ?s1 (?s1\<lparr>q_dev := ?d', completed := completed ?s1 @ [(i, ucast (chain_len ds))]\<rparr>)"
  proof (rule serve)
    have ne: "todo A (memory ?d) ?V ?p \<noteq> []" using hd by (simp add: waiting_def)
    show "\<not> skip_round A bk cfg q (q_dev ?s1)" using td ne data by (simp add: skip_round_def)
    show "i = hd (todo A (memory (q_dev ?s1)) ?V (processed (q_dev ?s1) ! q))"
      using td ne hd by (simp add: waiting_def)
    have len: "length ds \<le> fuel" using chain_at_length chain by (simp add: chain_of_def)
    have "chain_at (length ds) A ?mx (starting_address_of cfg) (desc cfg ! q) i = Some ds"
      by (rule chain_at_held [OF A same]) (use hd chain_at_fuel [OF chain [unfolded chain_of_def] order_refl] in blast)+
    from chain_at_fuel [OF this len]
    show "chain_at fuel A (memory (q_dev ?s1)) (starting_address_of cfg) (desc cfg ! q) i = Some ds" by simp
    show "ops_apart reach q (ring_region cfg q) (chain_ops (queue_header_size bk) 0 ds)" by (rule apart)
    have "val16 ?mx (unat ?V + avail_idx A) \<noteq> ?p" using td ne todo_Nil_iff [of A ?mx ?V ?p] by auto
    from svc_run_at_once [OF A _ _ _ ok(2) U p ahd len run this] ok(1)
    show "service_queue fuel A bk cfg q (q_dev ?s1) = Inr ?d'" by (simp add: rings_ok_def)
  qed
  have eq: "?s1\<lparr>q_dev := ?d', completed := completed ?s1 @ [(i, ucast (chain_len ds))]\<rparr>
      = s\<lparr>q_dev := ?d', posted := posted s @ hs, completed := completed s @ [(i, ucast (chain_len ds))]\<rparr>" by (cases s) simp
  show ?thesis
    by (rule rtranclp.rtrancl_into_rtrancl, rule r_into_rtranclp, rule post, rule serve [unfolded eq])
qed

lemma live_step_refines:
  assumes A: "abi_ok A" and ok: "rings_ok cfg q" "q < length (processed (q_dev s))"
    and step: "live_step fuel A bk reach needs cfg q s s'"
  shows "(queue_step fuel A bk reach cfg q)\<^sup>*\<^sup>* s s'"
  using step
proof cases
  case (live_driver m' hs b')
  then show ?thesis using driver [of A m' cfg q s hs] by auto
next
  case (live_skip d')
  then show ?thesis using skip by (metis r_into_rtranclp)
next
  case (live_serve H i ds k b m hs)
  then show ?thesis using live_serve_steps [OF A ok] by simp
qed

lemma live_steps_refine:
  assumes A: "abi_ok A" and ok: "rings_ok cfg q"
  shows "(live_step fuel A bk reach needs cfg q)\<^sup>*\<^sup>* s s' \<Longrightarrow> q < length (processed (q_dev s)) \<Longrightarrow>
     (queue_step fuel A bk reach cfg q)\<^sup>*\<^sup>* s s' \<and> q < length (processed (q_dev s'))"
proof (induction rule: rtranclp_induct)
  case (step s1 s2)
  then have "(queue_step fuel A bk reach cfg q)\<^sup>*\<^sup>* s1 s2" using live_step_refines [OF A ok _ step.hyps(2)] by blast
  moreover have "q < length (processed (q_dev s2))"
    using step.hyps(2) step.IH step.prems service_queue_others(1)
    by (elim live_stepE) (fastforce simp: set_interrupt_def)+
  ultimately show ?case using step.IH step.prems by auto
qed simp

lemma live_exactly_once:
  assumes "abi_ok A" "rings_ok cfg q" "q < length (processed d)"
    and "(live_step fuel A bk reach needs cfg q)\<^sup>*\<^sup>* (queue_start A cfg q d) s"
  shows "posted s = map fst (completed s) @ todo A (memory (q_dev s)) (avail cfg ! q) (processed (q_dev s) ! q)
         \<and> published A (memory (q_dev s)) (used cfg ! q) (used_count A (memory d) (used cfg ! q))
             (used_entries (completed s))"
proof -
  have "q < length (processed (q_dev (queue_start A cfg q d)))" using assms(3) by (simp add: queue_start_def)
  with live_steps_refine [OF assms(1,2,4)] have "(queue_step fuel A bk reach cfg q)\<^sup>*\<^sup>* (queue_start A cfg q d) s" by blast
  then show ?thesis by (rule exactly_once [OF assms(1-3)])
qed

end

end
