(* ===== verification/Virtio_Blk.thy ===== *)
theory Virtio_Blk
  imports Device_Run
begin

text \<open>
  The block device (\<^verbatim>\<open>console/disk.hpp\<close>): the constructor with its three system calls, and the
  virtual functions that move data between guest memory and the mapped disk image. The request
  header comes from Linux's \<^verbatim>\<open>virtio_blk.h\<close> and is the parameter \<open>blk_abi\<close>.
\<close>

section \<open>Parameters and state\<close>

record blk_abi =
  outhdr_size :: u64
  hdr_type :: nat
  hdr_sector :: nat
  BLK_T_IN :: u32
  BLK_T_OUT :: u32
  ID_BLOCK :: u32
  F_VERSION_1 :: nat

definition blk_abi_ok :: "blk_abi \<Rightarrow> bool" where
  "blk_abi_ok B \<longleftrightarrow>
     outhdr_size B = 16 \<and> hdr_type B = 0 \<and> hdr_sector B = 8 \<and> BLK_T_IN B = 0 \<and> BLK_T_OUT B = 1
     \<and> ID_BLOCK B = 2 \<and> F_VERSION_1 B = 32"

definition linux_blk_abi :: blk_abi where
  "linux_blk_abi =
     \<lparr>outhdr_size = 16, hdr_type = 0, hdr_sector = 8, BLK_T_IN = 0, BLK_T_OUT = 1, ID_BLOCK = 2,
      F_VERSION_1 = 32\<rparr>"

lemma blk_abi_ok_linux: "blk_abi_ok linux_blk_abi"
  by (simp add: blk_abi_ok_def linux_blk_abi_def)

text \<open>The image is the byte memory behind \<open>mapped_data\<close>. \<open>mmap\<close> maps whole pages: an access past
  the last page of the file is outside the mapping. \<open>req\<close> is uninitialised until the first header
  is seen.\<close>

definition PAGE :: nat where "PAGE = 4096"
definition sector_size :: u64 where "sector_size = 512"

record blk =
  fd :: int
  mapped :: bool
  file_size :: u64
  num_sectors :: u64
  mapped_data :: mem
  req :: "u64 option"

definition mapping_size :: "blk \<Rightarrow> nat" where
  "mapping_size b = (if mapped b then (unat (file_size b) + PAGE - 1) div PAGE * PAGE else 0)"

text \<open>The registers and lists the constructor sets: \<open>None\<close> where it returns before.\<close>

record blk_setup =
  device_id :: "u32 option"
  capacity :: "u64 option"
  device_features_list :: "u32 list"
  header_size :: u64

text \<open>The system calls' answers: \<open>open\<close> with its descriptor, \<open>fstat\<close> with the size, \<open>mmap\<close> with the
  image.\<close>

definition VirtioBlk_new ::
  "blk_abi \<Rightarrow> int option \<Rightarrow> u64 option \<Rightarrow> mem option \<Rightarrow> blk \<times> blk_setup" where
  "VirtioBlk_new B opened stat img =
     (let failed = \<lparr>fd = -1, mapped = False, file_size = 0, num_sectors = 0, mapped_data = (\<lambda>_. 0),
                    req = None\<rparr>;
          feats = [0, push_bit (F_VERSION_1 B - 32) 1];
          early = \<lparr>device_id = None, capacity = None, device_features_list = feats, header_size = 0\<rparr>
      in case opened of
           None \<Rightarrow> (failed, early)
         | Some f \<Rightarrow>
             (case stat of
                None \<Rightarrow> (failed, early)
              | Some sz \<Rightarrow>
                  let n = (sz + sector_size - 1) div sector_size;
                      sized = failed\<lparr>file_size := sz, num_sectors := n\<rparr>
                  in (case img of
                        None \<Rightarrow> (sized, early)
                      | Some m \<Rightarrow>
                          (sized\<lparr>fd := f, mapped := True, mapped_data := m\<rparr>,
                           \<lparr>device_id = Some (ID_BLOCK B), capacity = Some n,
                            device_features_list = feats, header_size = outhdr_size B\<rparr>))))"

section \<open>The virtual functions\<close>

definition blk_start :: "nat \<Rightarrow> u64 \<Rightarrow> u64 \<Rightarrow> blk \<times> mem \<Rightarrow> (blk \<times> mem) res" where
  "blk_start q addr len s =
     bindR (require Assert_Failed (q = 0)) (\<lambda>_. Inr ((fst s)\<lparr>req := Some addr\<rparr>, snd s))"

definition blk_data :: "blk_abi \<Rightarrow> nat \<Rightarrow> u64 \<Rightarrow> u64 \<Rightarrow> blk \<times> mem \<Rightarrow> (blk \<times> mem) res" where
  "blk_data B q addr len s =
     (let b = fst s; m = snd s in
      bindR (require Assert_Failed (q = 0)) (\<lambda>_.
      case req b of
        None \<Rightarrow> Inl Wild_Access
      | Some r \<Rightarrow>
          bindR (ld32 VIEW m (unat r + hdr_type B)) (\<lambda>ty.
            if ty = BLK_T_IN B then
              bindR (ld64 VIEW m (unat r + hdr_sector B)) (\<lambda>sector.
              bindR (fetch (mapping_size b) (mapped_data b) (unat (sector_size * sector)) (unat len)) (\<lambda>bs.
              bindR (store VIEW m (unat addr) bs) (\<lambda>m'. Inr (b, m'))))
            else if ty = BLK_T_OUT B then
              bindR (ld64 VIEW m (unat r + hdr_sector B)) (\<lambda>sector.
              bindR (fetch VIEW m (unat addr) (unat len)) (\<lambda>bs.
              bindR (store (mapping_size b) (mapped_data b) (unat (sector_size * sector)) bs) (\<lambda>img.
                Inr (b\<lparr>mapped_data := img\<rparr>, m))))
            else Inr (b, m))))"

definition blk_complete :: "nat \<Rightarrow> u64 \<Rightarrow> u64 \<Rightarrow> blk \<times> mem \<Rightarrow> (blk \<times> mem) res" where
  "blk_complete q addr len s =
     bindR (require Assert_Failed (q = 0)) (\<lambda>_.
     bindR (store VIEW (snd s) (unat addr) [0]) (\<lambda>m'. Inr (fst s, m')))"

definition blk_has_data :: "nat \<Rightarrow> blk \<Rightarrow> bool" where
  "blk_has_data q b = True"

definition blk_backend :: "blk_abi \<Rightarrow> blk backend" where
  "blk_backend B =
     \<lparr>process_queue_start = blk_start, process_queue_data = blk_data B,
      process_queue_complete = blk_complete, queue_has_data = blk_has_data,
      queue_header_size = outhdr_size B, num_queues = 1\<rparr>"

text \<open>What each function may change of guest memory: its own buffer, and of the last one a byte.\<close>

definition blk_reach :: "chain_op \<Rightarrow> nat \<Rightarrow> u64 \<Rightarrow> u64 \<Rightarrow> nat set" where
  "blk_reach c q p l =
     (case c of O_Start \<Rightarrow> {} | O_Data \<Rightarrow> span (unat p) (unat l) | O_Complete \<Rightarrow> span (unat p) 1)"

lemma blk_frame:
  "run_op (blk_backend B) c q p l (b, m) = Inr (b', m') \<Longrightarrow> same_on (- blk_reach c q p l) m m'"
proof (cases c)
  case O_Start
  assume "run_op (blk_backend B) c q p l (b, m) = Inr (b', m')"
  then show ?thesis using O_Start
    by (auto simp: run_op_def blk_backend_def blk_start_def blk_reach_def res_simps)
next
  case O_Data
  assume "run_op (blk_backend B) c q p l (b, m) = Inr (b', m')"
  then show ?thesis using O_Data
    by (auto simp: run_op_def blk_backend_def blk_data_def blk_reach_def res_simps Let_def
        split: option.splits if_splits intro!: same_on_poke)
next
  case O_Complete
  assume "run_op (blk_backend B) c q p l (b, m) = Inr (b', m')"
  then show ?thesis using O_Complete
    by (auto simp: run_op_def blk_backend_def blk_complete_def blk_reach_def res_simps intro!: same_on_poke)
qed

interpretation blk: virtio_backend "blk_backend B" blk_reach for B
  by unfold_locales (rule blk_frame)

section \<open>One request: header, one data buffer, status\<close>

lemma mapping_size_req [simp]:
  "mapping_size (b\<lparr>req := r\<rparr>) = mapping_size b" "mapping_size (b\<lparr>mapped_data := x\<rparr>) = mapping_size b"
  by (simp_all add: mapping_size_def)

lemma sector_offset: "unat s < 2 ^ 55 \<Longrightarrow> unat (sector_size * s) = 512 * unat s"
proof -
  assume "unat s < 2 ^ 55"
  then have "512 * unat s < 2 ^ 64" by simp
  then show ?thesis by (simp add: sector_size_def unat_word_ariths)
qed

text \<open>\<open>request_at B m ph ty sector\<close>: the header at \<open>ph\<close> asks for \<open>ty\<close> at \<open>sector\<close>.\<close>

definition request_at :: "blk_abi \<Rightarrow> mem \<Rightarrow> u64 \<Rightarrow> u32 \<Rightarrow> u64 \<Rightarrow> bool" where
  "request_at B m ph ty sector \<longleftrightarrow>
     unat ph + 16 \<le> VIEW \<and> val32 m (unat ph + hdr_type B) = ty \<and> val64 m (unat ph + hdr_sector B) = sector"

definition in_image :: "blk \<Rightarrow> u64 \<Rightarrow> u32 \<Rightarrow> bool" where
  "in_image b sector l \<longleftrightarrow> unat sector < 2 ^ 55 \<and> 512 * unat sector + unat l \<le> mapping_size b"

lemma ucast_sum: "ucast (16 + (ucast a + ucast b) :: u64) = 16 + a + (b :: u32)"
proof -
  have "(16 + (x mod n + y mod n)) mod n = (16 + x + y) mod n" for x y n :: int
    unfolding add.assoc by (metis mod_add_eq mod_add_right_eq)
  then show ?thesis by transfer (simp add: take_bit_eq_mod)
qed

lemma ucast_chain_len: "ucast (chain_len [(ph, 16), (pd, l), (ps, ls)]) = 16 + l + (ls :: u32)"
  using ucast_sum [of l ls] by simp

lemma blk_chain_ops:
  "blk_abi_ok B \<Longrightarrow>
     chain_ops (queue_header_size (blk_backend B)) 0 [(ph, 16), (pd, l), (ps, ls)]
       = [(O_Start, ph, 16), (O_Data, pd, l), (O_Complete, ps, ls)]"
  by (simp add: blk_backend_def blk_abi_ok_def)

lemma blk_ops_read:
  assumes "blk_abi_ok B" "request_at B m ph (BLK_T_IN B) sector" "in_image b sector l"
    and "unat pd + unat l \<le> VIEW" "unat ps < VIEW"
  shows "run_ops (blk_backend B) 0 [(O_Start, ph, 16), (O_Data, pd, l), (O_Complete, ps, ls)] (b, m)
     = Inr (b\<lparr>req := Some ph\<rparr>,
            poke (poke m (unat pd) (peek (mapped_data b) (512 * unat sector) (unat l))) (unat ps) [0])"
  using assms
  by (simp add: run_op_def blk_backend_def blk_start_def blk_data_def blk_complete_def Let_def
      request_at_def in_image_def sector_offset blk_abi_ok_def)

lemma blk_ops_write:
  assumes "blk_abi_ok B" "request_at B m ph (BLK_T_OUT B) sector" "in_image b sector l"
    and "unat pd + unat l \<le> VIEW" "unat ps < VIEW"
  shows "run_ops (blk_backend B) 0 [(O_Start, ph, 16), (O_Data, pd, l), (O_Complete, ps, ls)] (b, m)
     = Inr (b\<lparr>req := Some ph,
              mapped_data := poke (mapped_data b) (512 * unat sector) (peek m (unat pd) (unat l))\<rparr>,
            poke m (unat ps) [0])"
  using assms
  by (simp add: run_op_def blk_backend_def blk_start_def blk_data_def blk_complete_def Let_def
      request_at_def in_image_def sector_offset blk_abi_ok_def)

text \<open>The driver's side of a request: it heads the available ring, is a chain of three descriptors,
  and its data and status buffers lie in the view, apart from the rings and from each other.\<close>

definition posted_request ::
  "vring_abi \<Rightarrow> blk_abi \<Rightarrow> devcfg \<Rightarrow> blk dev \<Rightarrow> u16 \<Rightarrow> u64 \<Rightarrow> u64 \<Rightarrow> u32 \<Rightarrow> u64 \<Rightarrow> u32 \<Rightarrow> u32 \<Rightarrow> u64 \<Rightarrow> bool" where
  "posted_request A B cfg d i ph pd l ps ls ty sector \<longleftrightarrow>
     abi_ok A \<and> blk_abi_ok B \<and> rings_ok cfg 0 \<and> 0 < length (processed d)
     \<and> todo A (memory d) (avail cfg ! 0) (processed d ! 0) \<noteq> []
     \<and> hd (todo A (memory d) (avail cfg ! 0) (processed d ! 0)) = i
     \<and> chain_at 16384 A (memory d) (starting_address_of cfg) (desc cfg ! 0) i
         = Some [(ph, 16), (pd, l), (ps, ls)]
     \<and> span (unat pd) (unat l) \<inter> ring_region cfg 0 = {} \<and> unat ps \<notin> ring_region cfg 0
     \<and> unat ps \<notin> span (unat pd) (unat l)
     \<and> unat pd + unat l \<le> VIEW \<and> unat ps < VIEW
     \<and> request_at B (memory d) ph ty sector \<and> in_image (dclass d) sector l"

lemma blk_service:
  assumes "posted_request A B cfg d i ph pd l ps ls ty sector"
    and run: "run_ops (blk_backend B) 0 [(O_Start, ph, 16), (O_Data, pd, l), (O_Complete, ps, ls)]
                (dclass d, memory d) = Inr s"
  shows "\<exists>d'. service_queue 16384 A (blk_backend B) cfg 0 d = Inr d' \<and> dclass d' = fst s
     \<and> same_on (- used_region (used cfg ! 0)) (snd s) (memory d')
     \<and> ring_advanced A cfg 0 d i (16 + l + ls) d'"
proof -
  let ?ds = "[(ph, 16), (pd, l), (ps, ls)]"
  note P = assms(1) [unfolded posted_request_def]
  have A: "abi_ok A" and B: "blk_abi_ok B" and ok: "rings_ok cfg 0" "0 < length (processed d)"
    and ds: "chain_at 16384 A (memory d) (starting_address_of cfg) (desc cfg ! 0) i = Some ?ds"
    using P by simp_all
  obtain "is" where i: "todo A (memory d) (avail cfg ! 0) (processed d ! 0) = i # is"
    using P by (cases "todo A (memory d) (avail cfg ! 0) (processed d ! 0)") auto
  note ops = blk_chain_ops [OF B, of ph pd l ps ls]
  have apart: "ops_apart blk_reach 0 (ring_region cfg 0) (chain_ops (queue_header_size (blk_backend B)) 0 ?ds)"
    unfolding ops using P by (simp add: ops_apart_def blk_reach_def span_def)
  have data: "queue_has_data (blk_backend B) 0 (dclass d)" by (simp add: blk_backend_def blk_has_data_def)
  have "service_queue 16384 A (blk_backend B) cfg 0 d = Inr (served A cfg 0 i ?ds s d)"
    using blk.service_queue_serves [OF A ok i data ds apart] run unfolding ops by simp
  moreover have "ring_advanced A cfg 0 d i (16 + l + ls) (served A cfg 0 i ?ds s d)"
    using blk.served_rings(1-3,5) [OF A ok i apart run [folded ops]] i
    by (simp add: ring_advanced_def ucast_sum)
  moreover have "dclass (served A cfg 0 i ?ds s d) = fst s"
    "same_on (- used_region (used cfg ! 0)) (snd s) (memory (served A cfg 0 i ?ds s d))"
    using publish_reads(4) [OF A] by (simp_all add: served_def set_interrupt_def)
  ultimately show ?thesis by blast
qed

lemma used_not_data:
  assumes "span (unat pd) (unat l) \<inter> ring_region cfg 0 = {}" "unat ps \<notin> ring_region cfg 0"
    and "same_on (- used_region (used cfg ! 0)) m m'"
  shows "peek m' (unat pd) (unat l) = peek m (unat pd) (unat l)" "m' (unat ps) = m (unat ps)"
proof -
  have "span (unat pd) (unat l) \<subseteq> - used_region (used cfg ! 0)" "unat ps \<in> - used_region (used cfg ! 0)"
    using assms(1,2) ring_regions(3) [of cfg 0] by blast+
  then show "peek m' (unat pd) (unat l) = peek m (unat pd) (unat l)" "m' (unat ps) = m (unat ps)"
    using assms(3) same_on_peek by (auto simp: same_on_def)
qed

lemma blk_read_lemma:
  assumes "posted_request A B cfg d i ph pd l ps ls (BLK_T_IN B) sector"
  shows "\<exists>d'. service_queue 16384 A (blk_backend B) cfg 0 d = Inr d'
     \<and> peek (memory d') (unat pd) (unat l) = peek (mapped_data (dclass d)) (512 * unat sector) (unat l)
     \<and> memory d' (unat ps) = 0 \<and> mapped_data (dclass d') = mapped_data (dclass d)
     \<and> ring_advanced A cfg 0 d i (16 + l + ls) d'"
proof -
  note P = assms [unfolded posted_request_def]
  have "run_ops (blk_backend B) 0 [(O_Start, ph, 16), (O_Data, pd, l), (O_Complete, ps, ls)] (dclass d, memory d)
     = Inr ((dclass d)\<lparr>req := Some ph\<rparr>, poke (poke (memory d) (unat pd)
              (peek (mapped_data (dclass d)) (512 * unat sector) (unat l))) (unat ps) [0])"
    (is "_ = Inr (?b, ?m)")
    using P by (intro blk_ops_read) simp_all
  from blk_service [OF assms this] obtain d' where d':
    "service_queue 16384 A (blk_backend B) cfg 0 d = Inr d'" "dclass d' = ?b"
    "same_on (- used_region (used cfg ! 0)) ?m (memory d')" "ring_advanced A cfg 0 d i (16 + l + ls) d'"
    by auto
  have "peek ?m (unat pd) (unat l) = peek (mapped_data (dclass d)) (512 * unat sector) (unat l)"
    using P by (auto intro!: nth_equalityI simp: poke_def)
  moreover have "?m (unat ps) = 0" by (simp add: poke_def)
  ultimately show ?thesis
    using d' used_not_data [OF _ _ d'(3), of pd l ps] P by auto
qed

lemma blk_write_lemma:
  assumes "posted_request A B cfg d i ph pd l ps ls (BLK_T_OUT B) sector"
  shows "\<exists>d'. service_queue 16384 A (blk_backend B) cfg 0 d = Inr d'
     \<and> mapped_data (dclass d') = poke (mapped_data (dclass d)) (512 * unat sector)
                                    (peek (memory d) (unat pd) (unat l))
     \<and> memory d' (unat ps) = 0 \<and> peek (memory d') (unat pd) (unat l) = peek (memory d) (unat pd) (unat l)
     \<and> ring_advanced A cfg 0 d i (16 + l + ls) d'"
proof -
  note P = assms [unfolded posted_request_def]
  have "run_ops (blk_backend B) 0 [(O_Start, ph, 16), (O_Data, pd, l), (O_Complete, ps, ls)] (dclass d, memory d)
     = Inr ((dclass d)\<lparr>req := Some ph, mapped_data := poke (mapped_data (dclass d)) (512 * unat sector)
              (peek (memory d) (unat pd) (unat l))\<rparr>, poke (memory d) (unat ps) [0])"
    (is "_ = Inr (?b, ?m)")
    using P by (intro blk_ops_write) simp_all
  from blk_service [OF assms this] obtain d' where d':
    "service_queue 16384 A (blk_backend B) cfg 0 d = Inr d'" "dclass d' = ?b"
    "same_on (- used_region (used cfg ! 0)) ?m (memory d')" "ring_advanced A cfg 0 d i (16 + l + ls) d'"
    by auto
  have "peek ?m (unat pd) (unat l) = peek (memory d) (unat pd) (unat l)"
    using P by (auto intro!: nth_equalityI simp: poke_def)
  moreover have "?m (unat ps) = 0" by (simp add: poke_def)
  ultimately show ?thesis
    using d' used_not_data [OF _ _ d'(3), of pd l ps] P by auto
qed

text \<open>A read request is served: the data buffer holds the image's bytes of the requested sector,
  the status byte says success, the image is unchanged, the chain is in the used ring with its
  head, gone from the available ring, and one interrupt was raised.\<close>

theorem blk_read_served:
  assumes "posted_request A B cfg d i ph pd l ps ls (BLK_T_IN B) sector"
  shows "\<exists>d'. service_queue 16384 A (blk_backend B) cfg 0 d = Inr d'
     \<and> peek (memory d') (unat pd) (unat l) = peek (mapped_data (dclass d)) (512 * unat sector) (unat l)
     \<and> memory d' (unat ps) = 0 \<and> mapped_data (dclass d') = mapped_data (dclass d)
     \<and> ring_advanced A cfg 0 d i (16 + l + ls) d'"
  using assms by (rule blk_read_lemma)

text \<open>A write request is served: exactly the bytes of the requested sector change in the image,
  to those of the data buffer, the status byte says success, and the rings advance as for a
  read.\<close>

theorem blk_write_served:
  assumes "posted_request A B cfg d i ph pd l ps ls (BLK_T_OUT B) sector"
  shows "\<exists>d'. service_queue 16384 A (blk_backend B) cfg 0 d = Inr d'
     \<and> mapped_data (dclass d') = poke (mapped_data (dclass d)) (512 * unat sector)
                                    (peek (memory d) (unat pd) (unat l))
     \<and> memory d' (unat ps) = 0 \<and> peek (memory d') (unat pd) (unat l) = peek (memory d) (unat pd) (unat l)
     \<and> ring_advanced A cfg 0 d i (16 + l + ls) d'"
  using assms by (rule blk_write_lemma)

text \<open>C16: what is written is read back: if a write is served and later, with other requests to other
  sectors or none in between, a read of the same sector and length is, the reader's buffer holds
  the writer's bytes.\<close>

theorem blk_write_read_roundtrip:
  assumes w: "posted_request A B cfg d i ph pd l ps ls (BLK_T_OUT B) sector"
    and ws: "service_queue 16384 A (blk_backend B) cfg 0 d = Inr d1"
    and between: "same_on (span (512 * unat sector) (unat l)) (mapped_data (dclass d1)) (mapped_data (dclass d2))"
    and r: "posted_request A B cfg d2 i2 ph2 pd2 l ps2 ls2 (BLK_T_IN B) sector"
    and rs: "service_queue 16384 A (blk_backend B) cfg 0 d2 = Inr d3"
  shows "peek (memory d3) (unat pd2) (unat l) = peek (memory d) (unat pd) (unat l)"
proof -
  have "mapped_data (dclass d1) = poke (mapped_data (dclass d)) (512 * unat sector)
                                    (peek (memory d) (unat pd) (unat l))"
    using blk_write_lemma [OF w] ws by auto
  then have "peek (mapped_data (dclass d2)) (512 * unat sector) (unat l) = peek (memory d) (unat pd) (unat l)"
    using same_on_peek [OF between, of "512 * unat sector" "unat l"] by (simp add: peek_poke_same)
  moreover have "peek (memory d3) (unat pd2) (unat l)
      = peek (mapped_data (dclass d2)) (512 * unat sector) (unat l)"
    using blk_read_lemma [OF r] rs by auto
  ultimately show ?thesis by simp
qed

section \<open>A concrete request\<close>

lemma linux_blk_abi_T: "BLK_T_IN linux_blk_abi = 0" "BLK_T_OUT linux_blk_abi = 1"
  by (simp_all add: linux_blk_abi_def)

text \<open>One request of type \<open>ty\<close> for sector 3 of a 64 KiB image, posted in fresh rings.\<close>

definition sample_guest :: "u32 \<Rightarrow> mem" where
  "sample_guest ty =
     poke (poke (poke (poke (poke (poke (poke (poke (poke (poke (poke (poke (\<lambda>_. 0)
       0x31100002 (bytes16 1))
       0x31000000 (bytes64 0x400031300000)) 0x31000008 (bytes32 16)) 0x3100000C (bytes16 1))
       0x3100000E (bytes16 1))
       0x31000010 (bytes64 0x400031301000)) 0x31000018 (bytes32 512)) 0x3100001C (bytes16 1))
       0x3100001E (bytes16 2))
       0x31000020 (bytes64 0x400031302000)) 0x31300000 (bytes32 ty)) 0x31300008 (bytes64 3)"

definition sample_blk :: blk where
  "sample_blk =
     \<lparr>fd = 5, mapped = True, file_size = 65536, num_sectors = 128, mapped_data = (\<lambda>p. of_nat p), req = None\<rparr>"

definition sample_dev :: "u32 \<Rightarrow> blk dev" where
  "sample_dev ty =
     \<lparr>memory = sample_guest ty, dclass = sample_blk, processed = [0], interrupt_status = 0,
      interrupt_register = []\<rparr>"

lemma sample_guest_reads:
  "val16 (sample_guest ty) 0x31100002 = 1" "val16 (sample_guest ty) 0x31100004 = 0"
  "val64 (sample_guest ty) 0x31000000 = 0x400031300000" "val32 (sample_guest ty) 0x31000008 = 16"
  "val16 (sample_guest ty) 0x3100000C = 1" "val16 (sample_guest ty) 0x3100000E = 1"
  "val64 (sample_guest ty) 0x31000010 = 0x400031301000" "val32 (sample_guest ty) 0x31000018 = 512"
  "val16 (sample_guest ty) 0x3100001C = 1" "val16 (sample_guest ty) 0x3100001E = 2"
  "val64 (sample_guest ty) 0x31000020 = 0x400031302000" "val32 (sample_guest ty) 0x31000028 = 0"
  "val16 (sample_guest ty) 0x3100002C = 0"
  "val32 (sample_guest ty) 0x31300000 = ty" "val64 (sample_guest ty) 0x31300008 = 3"
  by (simp_all add: sample_guest_def mem_simps)

lemma sample_todo: "todo linux_abi (sample_guest ty) (avail sample_cfg ! 0) 0 = [0]"
  by (simp add: todo_def avail_at_def sample_cfg_def linux_abi_def sample_guest_reads queue_size_def)

lemma sample_chain:
  "chain_at 16384 linux_abi (sample_guest ty) 0x400030000000 0x31000000 0
     = Some [(0x31300000, 16), (0x31301000, 512), (0x31302000, 0)]"
proof -
  have "chain_at (Suc (Suc (Suc 0))) linux_abi (sample_guest ty) 0x400030000000 0x31000000 0
     = Some [(0x31300000, 16), (0x31301000, 512), (0x31302000, 0)]"
    by (simp add: chain_at_Suc chain_more_def chain_next_def desc_at_def linux_abi_def
        sample_guest_reads queue_size_def guest_offset_def Let_def)
  then show ?thesis by (rule chain_at_fuel) simp
qed

lemma sample_posted:
  "posted_request linux_abi linux_blk_abi sample_cfg (sample_dev ty) 0 0x31300000 0x31301000 512
     0x31302000 0 ty 3"
proof -
  have "desc sample_cfg ! 0 = 0x31000000" "starting_address_of sample_cfg = 0x400030000000"
    by (simp_all add: sample_cfg_def)
  moreover have "span 0x31301000 512 \<inter> ring_region sample_cfg 0 = {}" "0x31302000 \<notin> ring_region sample_cfg 0"
    by (auto simp: ring_region_def table_region_def avail_region_def used_region_def sample_cfg_def)
  moreover have "request_at linux_blk_abi (sample_guest ty) 0x31300000 ty 3"
    by (simp add: request_at_def linux_blk_abi_def sample_guest_reads VIEW_def)
  moreover have "in_image sample_blk 3 512"
    by (simp add: in_image_def sample_blk_def mapping_size_def PAGE_def)
  ultimately show ?thesis
    using sample_rings(1) sample_todo [of ty] sample_chain [of ty] abi_ok_linux blk_abi_ok_linux
    by (simp add: posted_request_def sample_dev_def VIEW_def)
qed

lemma sample_read:
  "posted_request linux_abi linux_blk_abi sample_cfg (sample_dev 0) 0 0x31300000 0x31301000 512
     0x31302000 0 (BLK_T_IN linux_blk_abi) 3"
  unfolding linux_blk_abi_T by (rule sample_posted)

lemma sample_write:
  "posted_request linux_abi linux_blk_abi sample_cfg (sample_dev 1) 0 0x31300000 0x31301000 512
     0x31302000 0 (BLK_T_OUT linux_blk_abi) 3"
  unfolding linux_blk_abi_T by (rule sample_posted)

theorem blk_read_served_witness:
  "\<exists>d'. service_queue 16384 linux_abi (blk_backend linux_blk_abi) sample_cfg 0 (sample_dev 0) = Inr d'
     \<and> peek (memory d') 0x31301000 512 = map (\<lambda>k. of_nat (1536 + k)) [0..<512] \<and> memory d' 0x31302000 = 0"
  using blk_read_served [OF sample_read]
  by (fastforce simp: sample_dev_def sample_blk_def peek_def)

theorem blk_write_served_witness:
  "\<exists>d'. service_queue 16384 linux_abi (blk_backend linux_blk_abi) sample_cfg 0 (sample_dev 1) = Inr d'
     \<and> mapped_data (dclass d') 1536 = 0"
proof -
  note W = blk_write_served [OF sample_write]
  have "sample_guest 1 0x31301000 = 0" by (simp add: sample_guest_def poke_def)
  then have "poke img 1536 (peek (sample_guest 1) 0x31301000 512) 1536 = 0" for img
    by (simp add: poke_def peek_def)
  then show ?thesis using W by (fastforce simp: sample_dev_def)
qed

theorem blk_write_read_roundtrip_witness:
  "\<exists>d1 d2 d3. service_queue 16384 linux_abi (blk_backend linux_blk_abi) sample_cfg 0 (sample_dev 1) = Inr d1
     \<and> mapped_data (dclass d2) = mapped_data (dclass d1)
     \<and> service_queue 16384 linux_abi (blk_backend linux_blk_abi) sample_cfg 0 d2 = Inr d3
     \<and> peek (memory d3) 0x31301000 512 = peek (sample_guest 1) 0x31301000 512"
proof -
  note w = sample_write
  obtain d1 where d1: "service_queue 16384 linux_abi (blk_backend linux_blk_abi) sample_cfg 0 (sample_dev 1) = Inr d1"
    using blk_write_lemma [OF w] by blast
  define d2 where "d2 = (sample_dev 0)\<lparr>dclass := sample_blk\<lparr>mapped_data := mapped_data (dclass d1)\<rparr>\<rparr>"
  have r: "posted_request linux_abi linux_blk_abi sample_cfg d2 0 0x31300000 0x31301000 512
     0x31302000 0 (BLK_T_IN linux_blk_abi) 3"
    using sample_posted [of 0] unfolding linux_blk_abi_T
    by (simp add: posted_request_def d2_def sample_dev_def in_image_def)
  obtain d3 where d3: "service_queue 16384 linux_abi (blk_backend linux_blk_abi) sample_cfg 0 d2 = Inr d3"
    using blk_read_lemma [OF r] by blast
  have "peek (memory d3) 0x31301000 512 = peek (sample_guest 1) 0x31301000 512"
    using blk_write_read_roundtrip [OF w d1 _ r d3] by (simp add: d2_def sample_dev_def)
  then show ?thesis using d1 d3 by (intro exI [of _ d1] exI [of _ d2] exI [of _ d3]) (simp add: d2_def)
qed

section \<open>Every request is completed exactly once\<close>

text \<open>The block queue, whatever the interleaving of the driver's postings with the device's
  rounds, serves every posted head exactly once and in order: the heads posted are those
  completed followed by those still waiting, and the used ring, read from where it stood at the
  start, holds the completed ones with their byte counts.\<close>

theorem blk_queue_exactly_once:
  assumes "abi_ok A" "rings_ok cfg 0" "0 < length (processed d)"
    and "(queue_step fuel A (blk_backend B) blk_reach cfg 0)\<^sup>*\<^sup>* (queue_start A cfg 0 d) s"
  shows "posted s = map fst (completed s) @ todo A (memory (q_dev s)) (avail cfg ! 0) (processed (q_dev s) ! 0)
         \<and> published A (memory (q_dev s)) (used cfg ! 0) (used_count A (memory d) (used cfg ! 0))
             (used_entries (completed s))"
  using assms by (rule blk.exactly_once)

theorem blk_queue_exactly_once_witness:
  "\<exists>s. (queue_step 16384 linux_abi (blk_backend linux_blk_abi) blk_reach sample_cfg 0)\<^sup>*\<^sup>*
          (queue_start linux_abi sample_cfg 0 (sample_dev 0)) s
     \<and> completed s = [(0, 528)] \<and> posted s = [0]
     \<and> used_elem linux_abi (memory (q_dev s)) (used sample_cfg ! 0) 0 = (0, 528)"
proof -
  let ?d = "sample_dev 0" and ?q = "queue_start linux_abi sample_cfg 0 (sample_dev 0)"
  note P = sample_posted [of 0]
  obtain d' where d': "service_queue 16384 linux_abi (blk_backend linux_blk_abi) sample_cfg 0 ?d = Inr d'"
    using blk_read_lemma [OF sample_read] by blast
  let ?ds = "[(0x31300000, 16), (0x31301000, 512), (0x31302000, 0)] :: (u64 \<times> u32) list"
  have td: "todo linux_abi (memory ?d) (avail sample_cfg ! 0) (processed ?d ! 0) = [0]"
    using sample_todo [of 0] by (simp add: sample_dev_def)
  have ops: "chain_ops (queue_header_size (blk_backend linux_blk_abi)) 0 ?ds
      = [(O_Start, 0x31300000, 16), (O_Data, 0x31301000, 512), (O_Complete, 0x31302000, 0)]"
    by (rule blk_chain_ops [OF blk_abi_ok_linux])
  have apart: "ops_apart blk_reach 0 (ring_region sample_cfg 0)
      (chain_ops (queue_header_size (blk_backend linux_blk_abi)) 0 ?ds)"
    unfolding ops using P by (simp add: posted_request_def ops_apart_def blk_reach_def span_def)
  have "queue_step 16384 linux_abi (blk_backend linux_blk_abi) blk_reach sample_cfg 0 ?q
      (?q\<lparr>q_dev := d', completed := completed ?q @ [(0, ucast (chain_len ?ds))]\<rparr>)"
    by (rule serve) (use P d' td apart in
      \<open>simp_all add: queue_start_def skip_round_def blk_backend_def blk_has_data_def posted_request_def\<close>)
  then have run: "(queue_step 16384 linux_abi (blk_backend linux_blk_abi) blk_reach sample_cfg 0)\<^sup>*\<^sup>* ?q
      (?q\<lparr>q_dev := d', completed := completed ?q @ [(0, ucast (chain_len ?ds))]\<rparr>)" (is "(queue_step _ _ _ _ _ _)\<^sup>*\<^sup>* _ ?s") by blast
  have zero: "used_count linux_abi (sample_guest 0) (used sample_cfg ! 0) = 0"
    by (simp add: used_count_def sample_cfg_def linux_abi_def sample_guest_def mem_simps)
  have s: "completed ?s = [(0, 528)]" "posted ?s = [0]"
    using td by (simp_all add: queue_start_def)
  have "used_elem linux_abi (memory (q_dev ?s)) (used sample_cfg ! 0) 0 = (0, 528)"
    using blk_queue_exactly_once [OF abi_ok_linux sample_rings(1) _ run] s
    by (simp add: published_def zero sample_dev_def)
  then show ?thesis using run s by blast
qed

section \<open>The size of the disk\<close>

lemma u32_512: "unat (512 :: u32) = 512"
  by simp

lemma ceil_sectors:
  assumes "unat (sz :: u64) + 511 < 2 ^ 64"
  shows "unat ((sz + sector_size - 1) div sector_size) = (unat sz + 511) div 512"
proof -
  have "sz + sector_size - 1 = sz + 511" by (simp add: sector_size_def)
  moreover have "unat (sz + 511) = unat sz + 511"
    using assms unat_add_less_64 [of sz 511] by simp
  moreover have "unat sector_size = 512" by (simp add: sector_size_def)
  ultimately show ?thesis by (simp only: unat_div_distrib)
qed

lemma sector_in_pages:
  assumes "a < (f + 511) div (512 :: nat)"
  shows "512 * a + 1 \<le> f" "512 * a + 512 \<le> (f + 4095) div 4096 * 4096"
proof -
  have "512 * (a + 1) \<le> f + 511"
    using assms less_eq_div_iff_mult_less_eq [of 512 "a + 1" "f + 511"] by (simp add: mult.commute)
  then show le: "512 * a + 1 \<le> f" by simp
  have "a div 8 + 1 \<le> (f + 4095) div 4096"
  proof -
    have "4096 * (a div 8) \<le> 512 * a" by simp
    then have "(a div 8 + 1) * 4096 \<le> f + 4095" using le by simp
    then show ?thesis by (simp add: less_eq_div_iff_mult_less_eq)
  qed
  then have "(a div 8 + 1) * 4096 \<le> (f + 4095) div 4096 * 4096" by (rule mult_right_mono) simp
  moreover have "512 * a + 512 \<le> (a div 8 + 1) * 4096"
  proof -
    have "a < 8 * (a div 8) + 8" by presburger
    then show ?thesis by simp
  qed
  ultimately show "512 * a + 512 \<le> (f + 4095) div 4096 * 4096" by linarith
qed

text \<open>C24: the constructor announces a block device exactly when all three system calls succeed. It
  then announces the file's size in sectors, rounded up, and every announced sector, the last and
  partial one included, lies inside the pages that are mapped, so no request within the capacity
  can fault; after a failure no device identity is announced.\<close>

theorem VirtioBlk_new_capacity:
  assumes new: "VirtioBlk_new B opened stat img = (b, st)"
    and small: "\<forall>sz \<in> set_option stat. unat sz + 511 < 2 ^ 63"
  shows "(device_id st = Some (ID_BLOCK B) \<longleftrightarrow> opened \<noteq> None \<and> stat \<noteq> None \<and> img \<noteq> None)
     \<and> (device_id st \<noteq> None \<longrightarrow>
          capacity st = Some (num_sectors b)
          \<and> unat (num_sectors b) = (unat (file_size b) + 511) div 512
          \<and> (\<forall>s. s < num_sectors b \<longrightarrow> in_image b s 512))"
proof -
  have fits: "in_image b s 512"
    if m: "mapped b" and n: "unat (num_sectors b) = (unat (file_size b) + 511) div 512"
      and s: "s < num_sectors b" and sz: "unat (file_size b) + 511 < 2 ^ 63" for s
  proof -
    have "unat s < (unat (file_size b) + 511) div 512" using s n by (simp add: word_less_nat_alt)
    note le = sector_in_pages [OF this]
    show ?thesis
      unfolding in_image_def u32_512 using m le sz by (simp add: mapping_size_def PAGE_def add.commute)
  qed
  show ?thesis
  proof (cases "opened \<noteq> None \<and> stat \<noteq> None \<and> img \<noteq> None")
    case True
    then obtain f sz m where [simp]: "opened = Some f" "stat = Some sz" "img = Some m" by auto
    have b: "mapped b" "num_sectors b = (sz + sector_size - 1) div sector_size" "file_size b = sz"
      "device_id st = Some (ID_BLOCK B)" "capacity st = Some (num_sectors b)"
      using new by (auto simp: VirtioBlk_new_def Let_def)
    have "unat (num_sectors b) = (unat (file_size b) + 511) div 512"
      using small ceil_sectors [of sz] by (simp add: b(2,3))
    then show ?thesis using b fits small by simp
  next
    case False
    then have "device_id st = None"
      using new by (auto simp: VirtioBlk_new_def Let_def split: option.splits)
    then show ?thesis using False by auto
  qed
qed

theorem VirtioBlk_new_capacity_witness:
  "\<exists>b st. VirtioBlk_new linux_blk_abi (Some 5) (Some 1000) (Some (\<lambda>_. 0)) = (b, st)
     \<and> unat (num_sectors b) = 2 \<and> in_image b 1 512"
proof -
  obtain b st where new: "VirtioBlk_new linux_blk_abi (Some 5) (Some 1000) (Some (\<lambda>_. 0)) = (b, st)"
    by fastforce
  then have sz: "file_size b = 1000" by (auto simp: VirtioBlk_new_def Let_def)
  have C: "unat (num_sectors b) = 2 \<and> (\<forall>s. s < num_sectors b \<longrightarrow> in_image b s 512)"
    using VirtioBlk_new_capacity [OF new] sz by simp
  then have "1 < num_sectors b" by (simp add: word_less_nat_alt)
  then show ?thesis using new C by blast
qed

section \<open>Requests the device does not check\<close>

text \<open>C39: the device does not check a request against the capacity it announced: a sector past the
  mapping makes the host access memory outside the image, in either direction, and a sector that
  exceeds 55 bits wraps around to another one.\<close>

theorem blk_sector_unchecked:
  assumes "blk_abi_ok B" "req b = Some r" "request_at B m r ty s" "ty = BLK_T_IN B \<or> ty = BLK_T_OUT B"
    and "unat addr + unat len \<le> VIEW"
  shows "(unat s < 2 ^ 55 \<and> mapping_size b < 512 * unat s + unat len \<longrightarrow>
            blk_data B 0 addr len (b, m) = Inl Wild_Access)
         \<and> sector_size * (s + 2 ^ 55) = sector_size * s"
proof -
  have "sector_size * (s + 2 ^ 55) = sector_size * s"
    by (simp add: sector_size_def distrib_left)
  moreover have "blk_data B 0 addr len (b, m) = Inl Wild_Access"
    if "unat s < 2 ^ 55" "mapping_size b < 512 * unat s + unat len"
    using assms that sector_offset [of s]
    by (auto simp: blk_data_def Let_def request_at_def blk_abi_ok_def)
  ultimately show ?thesis by blast
qed

theorem blk_sector_unchecked_witness:
  "blk_data linux_blk_abi 0 0x31301000 512 (sample_blk\<lparr>req := Some 0x31300000, file_size := 1024\<rparr>, 
      poke (sample_guest 0) 0x31300008 (bytes64 8)) = Inl Wild_Access"
proof -
  have "request_at linux_blk_abi (poke (sample_guest 0) 0x31300008 (bytes64 8)) 0x31300000 0 8"
    by (simp add: request_at_def linux_blk_abi_def VIEW_def mem_simps sample_guest_reads)
  moreover have "mapping_size (sample_blk\<lparr>req := Some 0x31300000, file_size := 1024\<rparr>) = 4096"
    by (simp add: mapping_size_def sample_blk_def PAGE_def)
  ultimately show ?thesis
    using blk_sector_unchecked [OF blk_abi_ok_linux, of "sample_blk\<lparr>req := Some 0x31300000, file_size := 1024\<rparr>"
        "0x31300000" "poke (sample_guest 0) 0x31300008 (bytes64 8)" 0 8 "0x31301000" 512]
    by (simp add: linux_blk_abi_T VIEW_def)
qed

lemma blk_chain_ops2:
  "blk_abi_ok B \<Longrightarrow>
     chain_ops (queue_header_size (blk_backend B)) 0 [(ph, 16), (p1, l), (p2, l), (ps, ls)]
       = [(O_Start, ph, 16), (O_Data, p1, l), (if 16 + ucast l < (16 :: u64) then O_Start else O_Data, p2, l),
          (O_Complete, ps, ls)]"
  by (simp add: blk_backend_def blk_abi_ok_def)

lemma u64_no_wrap: "\<not> 16 + ucast (l :: u32) < (16 :: u64)"
proof -
  have "unat l < 2 ^ 32" using unsigned_less [of l] by simp
  then have "unat (16 + ucast l :: u64) = 16 + unat l"
    using unat_add_less_64 [of 16 "ucast l"] by simp
  then show ?thesis by (simp add: word_less_nat_alt)
qed

text \<open>A write request whose data comes in two descriptors is not written to consecutive sectors:
  every data descriptor starts at the sector of the header, so the second buffer lands on top of
  the first and the sectors behind it are left as they were, while the request is reported as
  successful.\<close>

theorem blk_segments_overwrite:
  assumes "blk_abi_ok B" "request_at B m ph (BLK_T_OUT B) sector" "in_image b sector l"
    and "unat p1 + unat l \<le> VIEW" "unat p2 + unat l \<le> VIEW" "unat ps < VIEW"
  shows "\<exists>b'. run_ops (blk_backend B) 0
                (chain_ops (queue_header_size (blk_backend B)) 0 [(ph, 16), (p1, l), (p2, l), (ps, ls)]) (b, m)
              = Inr (b', poke m (unat ps) [0])
     \<and> peek (mapped_data b') (512 * unat sector) (unat l) = peek m (unat p2) (unat l)
     \<and> same_on (- span (512 * unat sector) (unat l)) (mapped_data b) (mapped_data b')"
proof -
  let ?o = "512 * unat sector"
  let ?img = "poke (poke (mapped_data b) ?o (peek m (unat p1) (unat l))) ?o (peek m (unat p2) (unat l))"
  have "run_ops (blk_backend B) 0
          (chain_ops (queue_header_size (blk_backend B)) 0 [(ph, 16), (p1, l), (p2, l), (ps, ls)]) (b, m)
        = Inr (b\<lparr>req := Some ph, mapped_data := ?img\<rparr>, poke m (unat ps) [0])"
    unfolding blk_chain_ops2 [OF assms(1)] using assms(1-6) u64_no_wrap [of l]
    by (simp add: run_op_def blk_backend_def blk_start_def blk_data_def blk_complete_def Let_def
        request_at_def in_image_def sector_offset blk_abi_ok_def)
  moreover have "same_on (- span ?o (unat l)) (mapped_data b) ?img"
    by (auto simp: same_on_def poke_def)
  ultimately show ?thesis by (simp add: peek_poke_same)
qed

theorem blk_segments_overwrite_witness:
  "\<exists>b'. run_ops (blk_backend linux_blk_abi) 0
          (chain_ops (queue_header_size (blk_backend linux_blk_abi)) 0
             [(0x31300000, 16), (0x31301000, 512), (0x31303000, 512), (0x31302000, 1)])
          (sample_blk, sample_guest 1) = Inr (b', poke (sample_guest 1) 0x31302000 [0])
     \<and> mapped_data b' 2048 = 0"
proof -
  have r: "request_at linux_blk_abi (sample_guest 1) 0x31300000 (BLK_T_OUT linux_blk_abi) 3"
    by (simp add: request_at_def linux_blk_abi_def sample_guest_reads VIEW_def)
  have i: "in_image sample_blk 3 512"
    by (simp add: in_image_def sample_blk_def mapping_size_def PAGE_def)
  obtain b' where b': "run_ops (blk_backend linux_blk_abi) 0
          (chain_ops (queue_header_size (blk_backend linux_blk_abi)) 0
             [(0x31300000, 16), (0x31301000, 512), (0x31303000, 512), (0x31302000, 1)])
          (sample_blk, sample_guest 1) = Inr (b', poke (sample_guest 1) (unat (0x31302000 :: u64)) [0])"
    "same_on (- span (512 * unat (3 :: u64)) (unat (512 :: u32))) (mapped_data sample_blk) (mapped_data b')"
    using blk_segments_overwrite [OF blk_abi_ok_linux r i, of "0x31301000" "0x31303000" "0x31302000" 1]
    by (auto simp: VIEW_def)
  have "mapped_data b' 2048 = mapped_data sample_blk 2048"
    using b'(2) by (simp add: same_on_def)
  then show ?thesis using b'(1) by (simp add: sample_blk_def)
qed

text \<open>A request of a type the device does not know, a flush or an identification request for
  instance, is reported to the driver as successful: no byte of the image or of the data buffer
  changes, and the status byte is 0.\<close>

theorem blk_unknown_request_succeeds:
  assumes "blk_abi_ok B" "request_at B m ph ty sector" "ty \<noteq> BLK_T_IN B" "ty \<noteq> BLK_T_OUT B"
    and "unat ps < VIEW"
  shows "run_ops (blk_backend B) 0
           (chain_ops (queue_header_size (blk_backend B)) 0 [(ph, 16), (pd, l), (ps, ls)]) (b, m)
         = Inr (b\<lparr>req := Some ph\<rparr>, poke m (unat ps) [0])"
  unfolding blk_chain_ops [OF assms(1)] using assms
  by (simp add: run_op_def blk_backend_def blk_start_def blk_data_def blk_complete_def Let_def
      request_at_def blk_abi_ok_def)

theorem blk_unknown_request_succeeds_witness:
  "run_ops (blk_backend linux_blk_abi) 0
     (chain_ops (queue_header_size (blk_backend linux_blk_abi)) 0
        [(0x31300000, 16), (0x31301000, 20), (0x31302000, 1)]) (sample_blk, sample_guest 8)
   = Inr (sample_blk\<lparr>req := Some 0x31300000\<rparr>, poke (sample_guest 8) 0x31302000 [0])"
proof -
  have "request_at linux_blk_abi (sample_guest 8) 0x31300000 8 3"
    by (simp add: request_at_def linux_blk_abi_def sample_guest_reads VIEW_def)
  then show ?thesis
    using blk_unknown_request_succeeds [OF blk_abi_ok_linux, of "sample_guest 8" "0x31300000" 8 3
        "0x31302000" "0x31301000" 20 1 sample_blk]
    by (simp add: linux_blk_abi_T VIEW_def)
qed

section \<open>How long a walk takes\<close>

text \<open>C20: the walk needs at most as many steps as the table has descriptors. Over a chain that ends at all,
  however long one is ready to follow it, and whose buffers the device class keeps apart from the
  table, the \<open>while (true)\<close> loop with any fuel from 16384 on visits the chain's at most 16384
  descriptors, calls the class for the buffers in order, each as header, data or completion, stops at
  the first error of the class, and otherwise ends with the chain's byte count; it does not run out
  of fuel. This is so for every class that keeps the contract, as disk and network device do.\<close>

theorem walk_ends_within_table:
  assumes "virtio_backend bk reach" "abi_ok A" "table_mapped D"
    and "chain_at g A m start D i = Some ds"
    and "ops_apart reach q (table_region D) (chain_ops (queue_header_size bk) 0 ds)" "16384 \<le> f"
  shows "length ds \<le> 16384
     \<and> walk_chain f A bk start D q i 0 (b, m)
        = bindR (run_ops bk q (chain_ops (queue_header_size bk) 0 ds) (b, m)) (\<lambda>s. Inr (chain_len ds, s))"
proof -
  have len: "length ds \<le> 16384" by (rule chain_at_bound [OF assms(4)])
  then have "chain_at f A m start D i = Some ds" using chain_at_fuel [OF assms(4), of f] assms(6) by simp
  then show ?thesis
    using virtio_backend.walk_is_run [OF assms(1-3), of f m start i ds "(b, m)" 0 q] assms(5) len
    by (simp add: ops_apart_def)
qed

theorem walk_ends_within_table_witness:
  "\<exists>s. walk_chain 16384 linux_abi (blk_backend linux_blk_abi) 0x400030000000 0x31000000 0 0 0 (sample_blk, sample_guest 0)
     = Inr (528, s)"
proof -
  let ?bk = "blk_backend linux_blk_abi" and ?ds = "[(0x31300000, 16), (0x31301000, 512), (0x31302000, 0)] :: (u64 \<times> u32) list"
  have mapped: "table_mapped 0x31000000" by (simp add: table_mapped_def VIEW_def)
  have "span 0x31301000 512 \<inter> table_region 0x31000000 = {}" "span 0x31302000 1 \<inter> table_region 0x31000000 = {}"
    by (auto simp: table_region_def)
  then have "ops_apart blk_reach 0 (table_region 0x31000000) (chain_ops (queue_header_size ?bk) 0 ?ds)"
    unfolding blk_chain_ops [OF blk_abi_ok_linux] by (simp add: ops_apart_def blk_reach_def)
  note walk = walk_ends_within_table [OF blk.virtio_backend_axioms abi_ok_linux mapped sample_chain [of 0] this order_refl,
      where b = sample_blk]
  have "request_at linux_blk_abi (sample_guest 0) 0x31300000 (BLK_T_IN linux_blk_abi) 3" "in_image sample_blk 3 512"
    using sample_posted [of 0] by (simp_all add: posted_request_def sample_dev_def linux_blk_abi_T)
  from blk_ops_read [OF blk_abi_ok_linux this] show ?thesis
    using walk unfolding blk_chain_ops [OF blk_abi_ok_linux] by (simp add: VIEW_def)
qed

section \<open>A cyclic chain\<close>

text \<open>The walk trusts the driver to end its chains: a descriptor of the block queue that names
  itself as its successor, with a buffer apart from the descriptor table, is processed again and
  again and the walk never returns, whatever the bound on its steps.\<close>

theorem blk_self_loop_never_returns:
  assumes "abi_ok A" "table_mapped D" "chain_more A m D i" "chain_next A m D i = i"
    and "span (unat (guest_offset start (val64 m (desc_at A D i + desc_addr A))))
           (max 1 (unat (val32 m (desc_at A D i + desc_len A)))) \<inter> table_region D = {}"
  shows "walk_chain f A (blk_backend B) start D 0 i 0 (b, m) \<noteq> Inr r"
proof -
  have "blk_reach c 0 p (ucast l) \<subseteq> span (unat p) (max 1 (unat l))" for c p and l :: u32
    by (cases c) (auto simp: blk_reach_def)
  then have "blk_reach c 0 (guest_offset start (val64 m (desc_at A D i + desc_addr A)))
      (ucast (val32 m (desc_at A D i + desc_len A))) \<inter> table_region D = {}" for c
    using assms(5) by blast
  then show ?thesis
    using assms(1-4) by (intro blk.self_loop_never_returns [where i = i and m = m]) simp_all
qed

theorem blk_self_loop_never_returns_witness:
  "\<not> ok (walk_chain 100000 linux_abi (blk_backend linux_blk_abi) 0x400030000000 0x31000000 0 0 0
     (sample_blk, poke (poke (sample_guest 0) 0x3100000E (bytes16 0)) 0x31000000 (bytes64 0x400031301000)))"
proof -
  let ?m = "poke (poke (sample_guest 0) 0x3100000E (bytes16 0)) 0x31000000 (bytes64 0x400031301000)"
  have at: "desc_at linux_abi 0x31000000 0 = 0x31000000" by (simp add: desc_at_def)
  have "walk_chain 100000 linux_abi (blk_backend linux_blk_abi) 0x400030000000 0x31000000 0 0 0
     (sample_blk, ?m) \<noteq> Inr r" for r
    by (rule blk_self_loop_never_returns)
      (auto simp: abi_ok_linux table_mapped_def VIEW_def chain_more_def chain_next_def at
        guest_offset_def table_region_def, simp_all add: linux_abi_def mem_simps sample_guest_reads)
  then show ?thesis by (simp only: ok_iff) blast
qed

end
