(* ===== verification/Disk_Run.thy ===== *)
theory Disk_Run
  imports Virtio_Blk
begin

text \<open>
  The block device as a disk (\<^verbatim>\<open>console/disk.hpp\<close> under \<^verbatim>\<open>device_loop\<close>): an abstract disk executes a
  list of requests one after the other on image and guest memory; the loop, run for as many rounds
  as requests are posted, does the same, without a fault.
\<close>

section \<open>The abstract disk\<close>

record disk_request =
  rq_type :: u32
  rq_sector :: u64
  rq_header :: u64
  rq_data :: u64
  rq_len :: u32
  rq_status :: u64
  rq_status_len :: u32

definition disk_exec :: "blk_abi \<Rightarrow> disk_request \<Rightarrow> mem \<times> mem \<Rightarrow> mem \<times> mem" where
  "disk_exec B r s =
     (let img = fst s; m = snd s; at = 512 * unat (rq_sector r); n = unat (rq_len r);
          success = \<lambda>m. poke m (unat (rq_status r)) [0]
      in if rq_type r = BLK_T_IN B then (img, success (poke m (unat (rq_data r)) (peek img at n)))
         else if rq_type r = BLK_T_OUT B then (poke img at (peek m (unat (rq_data r)) n), success m)
         else (img, success m))"

text \<open>The chain of a request, and the guest bytes its service may change.\<close>

definition rq_chain :: "disk_request \<Rightarrow> (u64 \<times> u32) list" where
  "rq_chain r = [(rq_header r, 16), (rq_data r, rq_len r), (rq_status r, rq_status_len r)]"

definition rq_buffers :: "disk_request \<Rightarrow> nat set" where
  "rq_buffers r = span (unat (rq_data r)) (unat (rq_len r)) \<union> span (unat (rq_status r)) 1"

definition request_ok :: "blk_abi \<Rightarrow> blk \<Rightarrow> mem \<Rightarrow> disk_request \<Rightarrow> bool" where
  "request_ok B b m r \<longleftrightarrow>
     request_at B m (rq_header r) (rq_type r) (rq_sector r)
     \<and> (rq_type r = BLK_T_IN B \<or> rq_type r = BLK_T_OUT B \<longrightarrow> in_image b (rq_sector r) (rq_len r))
     \<and> unat (rq_data r) + unat (rq_len r) \<le> VIEW \<and> unat (rq_status r) < VIEW"

lemma blk_ops_exec:
  assumes B: "blk_abi_ok B" and r: "request_ok B b m r"
  shows "run_ops (blk_backend B) 0 (chain_ops (queue_header_size (blk_backend B)) 0 (rq_chain r)) (b, m)
     = Inr (b\<lparr>req := Some (rq_header r), mapped_data := fst (disk_exec B r (mapped_data b, m))\<rparr>,
            snd (disk_exec B r (mapped_data b, m)))"
proof -
  note R = r [unfolded request_ok_def]
  have id: "b\<lparr>req := x, mapped_data := mapped_data b\<rparr> = b\<lparr>req := x\<rparr>" for x by simp
  consider (rd) "rq_type r = BLK_T_IN B" | (wr) "rq_type r = BLK_T_OUT B" "rq_type r \<noteq> BLK_T_IN B"
    | (other) "rq_type r \<noteq> BLK_T_IN B" "rq_type r \<noteq> BLK_T_OUT B" by blast
  then show ?thesis
    unfolding rq_chain_def blk_chain_ops [OF B]
  proof cases
    case rd
    then show "run_ops (blk_backend B) 0 [(O_Start, rq_header r, 16), (O_Data, rq_data r, rq_len r),
          (O_Complete, rq_status r, rq_status_len r)] (b, m) = Inr (b\<lparr>req := Some (rq_header r),
          mapped_data := fst (disk_exec B r (mapped_data b, m))\<rparr>, snd (disk_exec B r (mapped_data b, m)))"
      using R blk_ops_read [OF B, of m "rq_header r" "rq_sector r" b "rq_len r" "rq_data r" "rq_status r" "rq_status_len r"]
      by (simp add: disk_exec_def Let_def id)
  next
    case wr
    then show "run_ops (blk_backend B) 0 [(O_Start, rq_header r, 16), (O_Data, rq_data r, rq_len r),
          (O_Complete, rq_status r, rq_status_len r)] (b, m) = Inr (b\<lparr>req := Some (rq_header r),
          mapped_data := fst (disk_exec B r (mapped_data b, m))\<rparr>, snd (disk_exec B r (mapped_data b, m)))"
      using R blk_ops_write [OF B, of m "rq_header r" "rq_sector r" b "rq_len r" "rq_data r" "rq_status r" "rq_status_len r"]
      by (simp add: disk_exec_def Let_def)
  next
    case other
    then show "run_ops (blk_backend B) 0 [(O_Start, rq_header r, 16), (O_Data, rq_data r, rq_len r),
          (O_Complete, rq_status r, rq_status_len r)] (b, m) = Inr (b\<lparr>req := Some (rq_header r),
          mapped_data := fst (disk_exec B r (mapped_data b, m))\<rparr>, snd (disk_exec B r (mapped_data b, m)))"
      using R B
      by (simp add: disk_exec_def Let_def id run_op_def blk_backend_def blk_start_def blk_data_def
          blk_complete_def request_at_def blk_abi_ok_def)
  qed
qed

text \<open>The abstract disk changes only the buffers of the request, and sees nothing of memory but them.\<close>

lemma disk_exec_frame: "same_on (- rq_buffers r) m (snd (disk_exec B r (img, m)))"
  by (auto simp: disk_exec_def Let_def rq_buffers_def same_on_def poke_def)

lemma disk_exec_cong:
  assumes "same_on (- U) m m'" "rq_buffers r \<inter> U = {}"
  shows "fst (disk_exec B r (img, m')) = fst (disk_exec B r (img, m))"
    "same_on (- U) (snd (disk_exec B r (img, m))) (snd (disk_exec B r (img, m')))"
proof -
  have "span (unat (rq_data r)) (unat (rq_len r)) \<subseteq> - U" using assms(2) by (auto simp: rq_buffers_def)
  then have "peek m' (unat (rq_data r)) (unat (rq_len r)) = peek m (unat (rq_data r)) (unat (rq_len r))"
    by (rule same_on_peek [OF assms(1)])
  then show "fst (disk_exec B r (img, m')) = fst (disk_exec B r (img, m))"
    "same_on (- U) (snd (disk_exec B r (img, m))) (snd (disk_exec B r (img, m')))"
    using assms(1) by (auto simp: disk_exec_def Let_def same_on_def poke_def)
qed

section \<open>Requests that wait\<close>

text \<open>The heads that wait are those of the requests \<open>rqs\<close>, in order; the buffers of every request lie
  outside the rings and outside every header, and so does the used ring.\<close>

definition waiting_requests :: "vring_abi \<Rightarrow> blk_abi \<Rightarrow> devcfg \<Rightarrow> blk dev \<Rightarrow> disk_request list \<Rightarrow> bool" where
  "waiting_requests A B cfg d rqs \<longleftrightarrow>
     list_all2 (\<lambda>i r. chain_of 16384 A cfg 0 (memory d) i = Some (rq_chain r)) (waiting A cfg 0 d) rqs
     \<and> (\<forall>r \<in> set rqs. request_ok B (dclass d) (memory d) r \<and> rq_buffers r \<inter> ring_region cfg 0 = {}
           \<and> span (unat (rq_header r)) 16 \<inter> used_region (used cfg ! 0) = {}
           \<and> (\<forall>r' \<in> set rqs. rq_buffers r' \<inter> span (unat (rq_header r)) 16 = {}))"

lemma request_ok_frame:
  assumes B: "blk_abi_ok B" and "request_ok B b m r" "same_on (span (unat (rq_header r)) 16) m m'"
    and "mapping_size b' = mapping_size b"
  shows "request_ok B b' m' r"
proof -
  have "span (unat (rq_header r) + 0) 4 \<subseteq> span (unat (rq_header r)) 16"
    "span (unat (rq_header r) + 8) 8 \<subseteq> span (unat (rq_header r)) 16"
    by (intro span_mono; simp)+
  then have "val32 m' (unat (rq_header r) + 0) = val32 m (unat (rq_header r) + 0)"
    "val64 m' (unat (rq_header r) + 8) = val64 m (unat (rq_header r) + 8)"
    using same_on_vals(2,3) [OF assms(3)] by blast+
  then show ?thesis
    using assms(2,4) B by (simp add: request_ok_def request_at_def in_image_def blk_abi_ok_def)
qed

text \<open>One round: the oldest request is executed, its head goes into the used ring, the others wait on.\<close>

lemma disk_round:
  assumes A: "abi_ok A" and B: "blk_abi_ok B" and apart: "rings_apart cfg 1" and len: "0 < length (processed d)"
    and w: "waiting_requests A B cfg d (r # rqs)"
  obtains i d' where "service_all 16384 A (blk_backend B) cfg [0..<1] d = Inr d'"
    "delivers A cfg 0 d [(i, 16 + rq_len r + rq_status_len r)] d'"
    "mapped_data (dclass d') = fst (disk_exec B r (mapped_data (dclass d), memory d))"
    "same_on (- used_region (used cfg ! 0)) (snd (disk_exec B r (mapped_data (dclass d), memory d))) (memory d')"
    "waiting_requests A B cfg d' rqs" "length (processed d') = length (processed d)"
    "interrupt_register d' = interrupt_register d @ [push_bit (interrupt_number cfg - 5) 1, 0]"
proof -
  let ?bk = "blk_backend B" and ?U = "used_region (used cfg ! 0)"
  let ?s = "(dclass d)\<lparr>req := Some (rq_header r), mapped_data := fst (disk_exec B r (mapped_data (dclass d), memory d))\<rparr>"
  let ?m = "snd (disk_exec B r (mapped_data (dclass d), memory d))"
  note W = w [unfolded waiting_requests_def]
  obtain i "is" where i: "waiting A cfg 0 d = i # is" "chain_of 16384 A cfg 0 (memory d) i = Some (rq_chain r)"
    "list_all2 (\<lambda>i r. chain_of 16384 A cfg 0 (memory d) i = Some (rq_chain r)) is rqs"
    using W by (auto simp: list_all2_Cons2)
  have ok: "rings_ok cfg 0" by (rule rings_apart_ok [OF apart]) simp
  have r: "request_ok B (dclass d) (memory d) r" "rq_buffers r \<inter> ring_region cfg 0 = {}" using W by simp_all
  have run: "run_ops ?bk 0 (chain_ops (queue_header_size ?bk) 0 (rq_chain r)) (dclass d, memory d) = Inr (?s, ?m)"
    by (rule blk_ops_exec [OF B r(1)])
  have ap: "ops_apart blk_reach 0 (ring_region cfg 0) (chain_ops (queue_header_size ?bk) 0 (rq_chain r))"
    unfolding rq_chain_def blk_chain_ops [OF B] using r(2)
    by (auto simp: ops_apart_def blk_reach_def rq_buffers_def)
  define d' where "d' = served A cfg 0 i (rq_chain r) (?s, ?m) d"
  have data: "queue_has_data ?bk 0 (dclass d)" by (simp add: blk_backend_def blk_has_data_def)
  have "service_queue 16384 A ?bk cfg 0 d = Inr d'"
    using blk.service_queue_serves [OF A ok len i(1) [unfolded waiting_def] data i(2) [unfolded chain_of_def] ap] run
    by (simp add: d'_def)
  then have "service_all 16384 A ?bk cfg [0..<1] d = Inr d'" by simp
  moreover have del: "delivers A cfg 0 d [(i, 16 + rq_len r + rq_status_len r)] d'"
    using blk.served_delivers [OF A ok len i(1) ap run] ucast_chain_len [of "rq_header r" "rq_data r" "rq_len r" "rq_status r" "rq_status_len r"]
    by (simp only: d'_def rq_chain_def)
  moreover have pub: "same_on (- ?U) ?m (memory d')"
    using publish_reads(4) [OF A] by (simp add: d'_def served_def set_interrupt_def)
  moreover have dc: "dclass d' = ?s" by (simp add: d'_def served_def set_interrupt_def)
  moreover have "length (processed d') = length (processed d)"
    "interrupt_register d' = interrupt_register d @ [push_bit (interrupt_number cfg - 5) 1, 0]"
    by (simp_all add: d'_def served_def set_interrupt_def)
  moreover have "waiting_requests A B cfg d' rqs"
  proof -
    have same: "same_on (- (rq_buffers r \<union> ?U)) (memory d) (memory d')"
      using disk_exec_frame [of r "memory d" B] pub by (simp add: same_on_def)
    have "table_region (desc cfg ! 0) \<subseteq> - (rq_buffers r \<union> ?U)"
      using r(2) ring_regions(1) [of cfg 0] rings_apart_table [OF apart zero_less_one zero_less_one] by blast
    then have tab: "chain_of 16384 A cfg 0 (memory d') j = chain_of 16384 A cfg 0 (memory d) j" for j
      using chain_at_same [OF A same_on_subset [OF same]] by (simp add: chain_of_def)
    have "request_ok B (dclass d') (memory d') r'" if "r' \<in> set rqs" for r'
    proof (rule request_ok_frame [OF B])
      show "request_ok B (dclass d) (memory d) r'" using W that by simp
      have "rq_buffers r \<inter> span (unat (rq_header r')) 16 = {}" "span (unat (rq_header r')) 16 \<inter> ?U = {}"
        using W that by simp_all
      then have "span (unat (rq_header r')) 16 \<subseteq> - (rq_buffers r \<union> ?U)" by blast
      then show "same_on (span (unat (rq_header r')) 16) (memory d) (memory d')" by (rule same_on_subset [OF same])
      show "mapping_size (dclass d') = mapping_size (dclass d)" unfolding dc by simp
    qed
    moreover have "waiting A cfg 0 d' = is" using del i(1) by (simp add: delivers_def)
    ultimately show ?thesis using W i(3) by (simp add: waiting_requests_def tab)
  qed
  ultimately show thesis by (intro that) simp_all
qed

section \<open>As many rounds as requests\<close>

definition completion :: "disk_request \<Rightarrow> u32" where
  "completion r = 16 + rq_len r + rq_status_len r"

lemma num_queues_blk [simp]: "num_queues (blk_backend B) = 1"
  by (simp add: blk_backend_def)

lemma disk_rounds:
  assumes A: "abi_ok A" and B: "blk_abi_ok B" and apart: "rings_apart cfg 1"
  shows "waiting_requests A B cfg d rqs \<Longrightarrow> 0 < length (processed d) \<Longrightarrow>
     same_on (- used_region (used cfg ! 0)) m (memory d) \<Longrightarrow>
     \<exists>d'. device_rounds 16384 A (blk_backend B) cfg (replicate (length rqs) quiet) d = Inr (Inr d')
        \<and> mapped_data (dclass d') = fst (fold (disk_exec B) rqs (mapped_data (dclass d), m))
        \<and> same_on (- used_region (used cfg ! 0)) (snd (fold (disk_exec B) rqs (mapped_data (dclass d), m))) (memory d')
        \<and> delivers A cfg 0 d (zip (waiting A cfg 0 d) (map completion rqs)) d' \<and> waiting A cfg 0 d' = []
        \<and> interrupt_register d'
            = interrupt_register d @ concat (replicate (length rqs) [push_bit (interrupt_number cfg - 5) 1, 0])"
proof (induction rqs arbitrary: d m)
  case Nil
  then have "waiting A cfg 0 d = []" by (simp add: waiting_requests_def)
  then show ?case using Nil(3) delivers_refl by simp
next
  case (Cons r rqs)
  obtain i d1 where d1: "service_all 16384 A (blk_backend B) cfg [0..<1] d = Inr d1"
    "delivers A cfg 0 d [(i, 16 + rq_len r + rq_status_len r)] d1"
    "mapped_data (dclass d1) = fst (disk_exec B r (mapped_data (dclass d), memory d))"
    "same_on (- used_region (used cfg ! 0)) (snd (disk_exec B r (mapped_data (dclass d), memory d))) (memory d1)"
    "waiting_requests A B cfg d1 rqs" "length (processed d1) = length (processed d)"
    "interrupt_register d1 = interrupt_register d @ [push_bit (interrupt_number cfg - 5) 1, 0]"
    by (rule disk_round [OF A B apart Cons.prems(2,1)])
  let ?s = "disk_exec B r (mapped_data (dclass d), m)"
  have "rq_buffers r \<inter> used_region (used cfg ! 0) = {}"
    using Cons.prems(1) ring_regions(3) [of cfg 0] by (auto simp: waiting_requests_def)
  note cong = disk_exec_cong [OF Cons.prems(3) this, of B "mapped_data (dclass d)"]
  have "same_on (- used_region (used cfg ! 0)) (snd ?s) (memory d1)"
    using same_on_trans [OF cong(2) d1(4)] .
  from Cons.IH [OF d1(5) _ this] obtain d' where d':
    "device_rounds 16384 A (blk_backend B) cfg (replicate (length rqs) quiet) d1 = Inr (Inr d')"
    "mapped_data (dclass d') = fst (fold (disk_exec B) rqs (mapped_data (dclass d1), snd ?s))"
    "same_on (- used_region (used cfg ! 0)) (snd (fold (disk_exec B) rqs (mapped_data (dclass d1), snd ?s))) (memory d')"
    "delivers A cfg 0 d1 (zip (waiting A cfg 0 d1) (map completion rqs)) d'" "waiting A cfg 0 d' = []"
    "interrupt_register d' = interrupt_register d1 @ concat (replicate (length rqs) [push_bit (interrupt_number cfg - 5) 1, 0])"
    using Cons.prems(2) d1(6) by auto
  have s: "(mapped_data (dclass d1), snd ?s) = ?s" using d1(3) cong(1) by (simp add: prod_eq_iff)
  have "waiting A cfg 0 d = i # waiting A cfg 0 d1" using d1(2) by (simp add: delivers_def)
  then have "delivers A cfg 0 d (zip (waiting A cfg 0 d) (map completion (r # rqs))) d'"
    using delivers_trans [OF d1(2) d'(4)] by (simp add: completion_def)
  moreover have "device_rounds 16384 A (blk_backend B) cfg (replicate (length (r # rqs)) quiet) d = Inr (Inr d')"
    using d1(1) d'(1) by (simp add: device_rounds_Cons del: device_rounds.simps)
  ultimately show ?case
    using d'(2,3,5,6) d1(7) unfolding s by (intro exI [of _ d']) simp
qed

text \<open>C4: the device loop is a disk. Run for as many rounds as requests wait, it returns without a
  fault from each of them, and image and guest memory (the used ring apart) are what executing the
  requests one after the other on an abstract disk makes of them; every head is then in the used
  ring, in order and with its byte count, none waits, and the interrupt was raised once for each.\<close>

theorem disk_serves_requests:
  assumes "abi_ok A" "blk_abi_ok B" "rings_apart cfg 1" "0 < length (processed d)"
    and "waiting_requests A B cfg d rqs"
  shows "\<exists>d'. device_rounds 16384 A (blk_backend B) cfg (replicate (length rqs) quiet) d = Inr (Inr d')
     \<and> (let s = fold (disk_exec B) rqs (mapped_data (dclass d), memory d)
        in mapped_data (dclass d') = fst s \<and> same_on (- used_region (used cfg ! 0)) (snd s) (memory d'))
     \<and> waiting A cfg 0 d' = []
     \<and> published A (memory d') (used cfg ! 0) (used_count A (memory d) (used cfg ! 0))
          (zip (map ucast (waiting A cfg 0 d)) (map completion rqs))
     \<and> interrupt_register d'
         = interrupt_register d @ concat (replicate (length rqs) [push_bit (interrupt_number cfg - 5) 1, 0])"
proof -
  obtain d' where d': "device_rounds 16384 A (blk_backend B) cfg (replicate (length rqs) quiet) d = Inr (Inr d')"
    "mapped_data (dclass d') = fst (fold (disk_exec B) rqs (mapped_data (dclass d), memory d))"
    "same_on (- used_region (used cfg ! 0)) (snd (fold (disk_exec B) rqs (mapped_data (dclass d), memory d))) (memory d')"
    "delivers A cfg 0 d (zip (waiting A cfg 0 d) (map completion rqs)) d'" "waiting A cfg 0 d' = []"
    "interrupt_register d'
       = interrupt_register d @ concat (replicate (length rqs) [push_bit (interrupt_number cfg - 5) 1, 0])"
    using disk_rounds [OF assms(1-3,5,4), of "memory d"] by auto
  have "published A (memory d) (used cfg ! 0) (used_count A (memory d) (used cfg ! 0)) []"
    by (simp add: published_def)
  with d'(4) have "published A (memory d') (used cfg ! 0) (used_count A (memory d) (used cfg ! 0))
      (zip (map ucast (waiting A cfg 0 d)) (map completion rqs))"
    unfolding delivers_def by (fastforce simp: zip_map1)
  then show ?thesis using d' by (simp add: Let_def)
qed

section \<open>Two concrete requests\<close>

text \<open>A write of 512 bytes to sector 3 and a read of the same sector into another buffer.\<close>

definition two_guest :: mem where
  "two_guest =
     poke (poke (poke (poke (poke (poke (poke (poke (poke (poke (poke (poke (poke (poke (poke (poke (poke
     (poke (poke (poke (poke (poke (\<lambda>_. 0)
       0x31301000 (replicate 512 7))
       0x31100002 (bytes16 2)) 0x31100006 (bytes16 3))
       0x31000000 (bytes64 0x400031300000)) 0x31000008 (bytes32 16)) 0x3100000C (bytes16 1)) 0x3100000E (bytes16 1))
       0x31000010 (bytes64 0x400031301000)) 0x31000018 (bytes32 512)) 0x3100001C (bytes16 1)) 0x3100001E (bytes16 2))
       0x31000020 (bytes64 0x400031302000))
       0x31000030 (bytes64 0x400031310000)) 0x31000038 (bytes32 16)) 0x3100003C (bytes16 1)) 0x3100003E (bytes16 4))
       0x31000040 (bytes64 0x400031311000)) 0x31000048 (bytes32 512)) 0x3100004C (bytes16 1)) 0x3100004E (bytes16 5))
       0x31000050 (bytes64 0x400031312000))
       0x31300000 (bytes32 1)"

definition two_guest' :: mem where
  "two_guest' = poke (poke two_guest 0x31300008 (bytes64 3)) 0x31310008 (bytes64 3)"

definition two_dev :: "blk dev" where
  "two_dev =
     \<lparr>memory = two_guest', dclass = sample_blk, processed = [0], interrupt_status = 0, interrupt_register = []\<rparr>"

definition two_requests :: "disk_request list" where
  "two_requests =
     [\<lparr>rq_type = 1, rq_sector = 3, rq_header = 0x31300000, rq_data = 0x31301000, rq_len = 512,
       rq_status = 0x31302000, rq_status_len = 0\<rparr>,
      \<lparr>rq_type = 0, rq_sector = 3, rq_header = 0x31310000, rq_data = 0x31311000, rq_len = 512,
       rq_status = 0x31312000, rq_status_len = 0\<rparr>]"

lemma two_guest_reads:
  "val16 two_guest' 0x31100002 = 2" "val16 two_guest' 0x31100004 = 0" "val16 two_guest' 0x31100006 = 3"
  "val64 two_guest' 0x31000000 = 0x400031300000" "val32 two_guest' 0x31000008 = 16"
  "val16 two_guest' 0x3100000C = 1" "val16 two_guest' 0x3100000E = 1"
  "val64 two_guest' 0x31000010 = 0x400031301000" "val32 two_guest' 0x31000018 = 512"
  "val16 two_guest' 0x3100001C = 1" "val16 two_guest' 0x3100001E = 2"
  "val64 two_guest' 0x31000020 = 0x400031302000" "val32 two_guest' 0x31000028 = 0" "val16 two_guest' 0x3100002C = 0"
  "val64 two_guest' 0x31000030 = 0x400031310000" "val32 two_guest' 0x31000038 = 16"
  "val16 two_guest' 0x3100003C = 1" "val16 two_guest' 0x3100003E = 4"
  "val64 two_guest' 0x31000040 = 0x400031311000" "val32 two_guest' 0x31000048 = 512"
  "val16 two_guest' 0x3100004C = 1" "val16 two_guest' 0x3100004E = 5"
  "val64 two_guest' 0x31000050 = 0x400031312000" "val32 two_guest' 0x31000058 = 0" "val16 two_guest' 0x3100005C = 0"
  "val32 two_guest' 0x31300000 = 1" "val64 two_guest' 0x31300008 = 3"
  "val32 two_guest' 0x31310000 = 0" "val64 two_guest' 0x31310008 = 3"
  "peek two_guest' 0x31301000 512 = replicate 512 7"
  by (simp_all add: two_guest_def two_guest'_def mem_simps)

lemma two_waiting: "waiting linux_abi sample_cfg 0 two_dev = [0, 3]"
  by (simp add: waiting_def two_dev_def todo_def avail_at_def sample_cfg_def linux_abi_def two_guest_reads
      queue_size_def upt_rec)

lemma two_chains:
  "chain_of 16384 linux_abi sample_cfg 0 two_guest' 0 = Some [(0x31300000, 16), (0x31301000, 512), (0x31302000, 0)]"
  "chain_of 16384 linux_abi sample_cfg 0 two_guest' 3 = Some [(0x31310000, 16), (0x31311000, 512), (0x31312000, 0)]"
proof -
  have "chain_of (Suc (Suc (Suc 0))) linux_abi sample_cfg 0 two_guest' 0 = Some [(0x31300000, 16), (0x31301000, 512), (0x31302000, 0)]"
    "chain_of (Suc (Suc (Suc 0))) linux_abi sample_cfg 0 two_guest' 3 = Some [(0x31310000, 16), (0x31311000, 512), (0x31312000, 0)]"
    by (simp_all add: chain_of_def chain_at_Suc chain_more_def chain_next_def desc_at_def linux_abi_def
        two_guest_reads queue_size_def guest_offset_def Let_def sample_cfg_def)
  then show
    "chain_of 16384 linux_abi sample_cfg 0 two_guest' 0 = Some [(0x31300000, 16), (0x31301000, 512), (0x31302000, 0)]"
    "chain_of 16384 linux_abi sample_cfg 0 two_guest' 3 = Some [(0x31310000, 16), (0x31311000, 512), (0x31312000, 0)]"
    unfolding chain_of_def by (auto elim: chain_at_fuel)
qed

lemma two_waiting_requests: "waiting_requests linux_abi linux_blk_abi sample_cfg two_dev two_requests"
proof -
  have "request_ok linux_blk_abi sample_blk two_guest' r" if "r \<in> set two_requests" for r
    using that
    by (auto simp: request_ok_def request_at_def two_requests_def linux_blk_abi_def two_guest_reads VIEW_def
        in_image_def sample_blk_def mapping_size_def PAGE_def)
  moreover have "rq_buffers r \<inter> ring_region sample_cfg 0 = {}
      \<and> span (unat (rq_header r)) 16 \<inter> used_region (used sample_cfg ! 0) = {}" if "r \<in> set two_requests" for r
    using that by (auto simp: two_requests_def rq_buffers_def ring_region_def table_region_def avail_region_def
        used_region_def sample_cfg_def)
  moreover have "rq_buffers r' \<inter> span (unat (rq_header r)) 16 = {}"
    if "r \<in> set two_requests" "r' \<in> set two_requests" for r r'
    using that by (auto simp: two_requests_def rq_buffers_def)
  moreover have "list_all2 (\<lambda>i r. chain_of 16384 linux_abi sample_cfg 0 two_guest' i = Some (rq_chain r)) [0, 3] two_requests"
    by (simp add: two_requests_def rq_chain_def two_chains)
  ultimately show ?thesis
    using two_waiting by (simp add: waiting_requests_def two_dev_def)
qed

theorem disk_serves_requests_witness:
  "\<exists>d'. device_rounds 16384 linux_abi (blk_backend linux_blk_abi) sample_cfg (replicate 2 quiet) two_dev = Inr (Inr d')
     \<and> peek (memory d') 0x31311000 512 = replicate 512 7
     \<and> used_elem linux_abi (memory d') (used sample_cfg ! 0) 1 = (3, 528)"
proof -
  let ?s = "fold (disk_exec linux_blk_abi) two_requests (mapped_data sample_blk, two_guest')"
  have len: "length two_requests = 2" by (simp add: two_requests_def)
  obtain d' where d': "device_rounds 16384 linux_abi (blk_backend linux_blk_abi) sample_cfg (replicate 2 quiet) two_dev = Inr (Inr d')"
    "same_on (- used_region (used sample_cfg ! 0)) (snd ?s) (memory d')"
    "published linux_abi (memory d') (used sample_cfg ! 0) (used_count linux_abi two_guest' (used sample_cfg ! 0))
          (zip (map ucast [0, 3 :: u16]) (map completion two_requests))"
    using disk_serves_requests [OF abi_ok_linux blk_abi_ok_linux sample_rings_apart(1) _ two_waiting_requests] two_waiting
    by (auto simp: len Let_def two_dev_def)
  have count: "used_count linux_abi two_guest' (used sample_cfg ! 0) = 0"
    by (simp add: used_count_def sample_cfg_def linux_abi_def two_guest'_def two_guest_def mem_simps)
  have "span 0x31311000 512 \<subseteq> - used_region (used sample_cfg ! 0)"
    by (auto simp: used_region_def sample_cfg_def)
  then have "peek (memory d') 0x31311000 512 = peek (snd ?s) 0x31311000 512"
    by (rule same_on_peek [OF d'(2)])
  also have "\<dots> = replicate 512 7"
    by (simp add: two_requests_def disk_exec_def linux_blk_abi_def Let_def two_guest_reads mem_simps)
  finally have data: "peek (memory d') 0x31311000 512 = replicate 512 7" .
  have "used_elem linux_abi (memory d') (used sample_cfg ! 0) (0 + of_nat 1) = (3, 528)"
    using d'(3) unfolding published_def count by (auto simp: two_requests_def completion_def dest: spec [of _ 1])
  then show ?thesis using d'(1) data by auto
qed

section \<open>Any request at all\<close>

lemma sector_bytes: "unat (sector_size * s) = 512 * unat (take_bit 55 s)"
proof -
  have "(2 ^ 64 :: nat) = 512 * 2 ^ 55" by simp
  then have "unat (sector_size * s) = 512 * (unat s mod 2 ^ 55)"
    by (simp add: sector_size_def unat_word_ariths mult_mod_right)
  moreover have "unat (take_bit 55 s) = unat s mod 2 ^ 55" 
    by (metis take_bit_eq_mod unsigned_take_bit_eq)
  ultimately show ?thesis by (simp only:)
qed

text \<open>Where a request moves its bytes from and to, as the code computes it: the product of sector and sector
  size wraps, so only the low 55 bits of the sector count.\<close>

definition low_sector :: "disk_request \<Rightarrow> disk_request" where
  "low_sector r = r\<lparr>rq_sector := take_bit 55 (rq_sector r)\<rparr>"

definition stays_inside :: "blk_abi \<Rightarrow> blk \<Rightarrow> disk_request \<Rightarrow> bool" where
  "stays_inside B b r \<longleftrightarrow>
     (rq_type r \<in> {BLK_T_IN B, BLK_T_OUT B} \<longrightarrow>
        512 * unat (rq_sector (low_sector r)) + unat (rq_len r) \<le> mapping_size b
        \<and> unat (rq_data r) + unat (rq_len r) \<le> VIEW)
     \<and> unat (rq_status r) < VIEW"

lemma blk_ops_outcome:
  assumes B: "blk_abi_ok B" and r: "request_at B m (rq_header r) (rq_type r) (rq_sector r)"
  shows "run_ops (blk_backend B) 0 (chain_ops (queue_header_size (blk_backend B)) 0 (rq_chain r)) (b, m)
     = (if stays_inside B b r
        then Inr (b\<lparr>req := Some (rq_header r), mapped_data := fst (disk_exec B (low_sector r) (mapped_data b, m))\<rparr>,
                  snd (disk_exec B (low_sector r) (mapped_data b, m)))
        else Inl Wild_Access)"
proof -
  have id: "b\<lparr>req := x, mapped_data := mapped_data b\<rparr> = b\<lparr>req := x\<rparr>" for x by simp
  note defs = run_op_def blk_backend_def blk_start_def blk_data_def blk_complete_def Let_def request_at_def blk_abi_ok_def
    sector_bytes stays_inside_def disk_exec_def low_sector_def fetch_def store_def
  consider (rd) "rq_type r = BLK_T_IN B" | (wr) "rq_type r = BLK_T_OUT B" "rq_type r \<noteq> BLK_T_IN B"
    | (other) "rq_type r \<noteq> BLK_T_IN B" "rq_type r \<noteq> BLK_T_OUT B" by blast
  then show ?thesis
    unfolding rq_chain_def blk_chain_ops [OF B] by cases (use r B in \<open>auto simp: defs id\<close>)
qed

text \<open>C35: what becomes of any request the driver posts, also of one the device should refuse. A request of
  a header, one data buffer and a status byte, of any type, sector and length, is executed as on the
  abstract disk, at the sector given by the low 55 bits, and completed, if its bytes lie inside the
  mapped pages of the image and inside the view; if they do not, the host accesses memory outside its
  mappings. There is no third outcome, and no request is answered with an error.\<close>

theorem disk_request_outcome:
  assumes A: "abi_ok A" and B: "blk_abi_ok B" and ok: "rings_ok cfg 0" "0 < length (processed d)"
    and i: "waiting A cfg 0 d = i # is" and chain: "chain_of 16384 A cfg 0 (memory d) i = Some (rq_chain r)"
    and r: "request_at B (memory d) (rq_header r) (rq_type r) (rq_sector r)" "rq_buffers r \<inter> ring_region cfg 0 = {}"
  shows "service_queue 16384 A (blk_backend B) cfg 0 d =
    (let (img, m) = disk_exec B (low_sector r) (mapped_data (dclass d), memory d)
     in if stays_inside B (dclass d) r
        then Inr (served A cfg 0 i (rq_chain r) ((dclass d)\<lparr>req := Some (rq_header r), mapped_data := img\<rparr>, m) d)
        else Inl Wild_Access)"
proof -
  have ap: "ops_apart blk_reach 0 (ring_region cfg 0) (chain_ops (queue_header_size (blk_backend B)) 0 (rq_chain r))"
    unfolding rq_chain_def blk_chain_ops [OF B] using r(2)
    by (auto simp: ops_apart_def blk_reach_def rq_buffers_def)
  have data: "queue_has_data (blk_backend B) 0 (dclass d)" by (simp add: blk_backend_def blk_has_data_def)
  show ?thesis
    unfolding blk.service_queue_serves [OF A ok i [unfolded waiting_def] data chain [unfolded chain_of_def] ap]
      blk_ops_outcome [OF B r(1)]
    by (simp add: case_prod_beta Let_def)
qed

text \<open>A read of sector \<open>s\<close> of the sample disk, whose image has 128 sectors.\<close>

definition far_dev :: "u64 \<Rightarrow> blk dev" where
  "far_dev s = (sample_dev 0)\<lparr>memory := poke (sample_guest 0) 0x31300008 (bytes64 s)\<rparr>"

definition far_request :: "u64 \<Rightarrow> disk_request" where
  "far_request s =
     \<lparr>rq_type = 0, rq_sector = s, rq_header = 0x31300000, rq_data = 0x31301000, rq_len = 512, rq_status = 0x31302000,
      rq_status_len = 0\<rparr>"

lemma far_posted:
  "waiting linux_abi sample_cfg 0 (far_dev s) = [0]"
  "chain_of 16384 linux_abi sample_cfg 0 (memory (far_dev s)) 0 = Some (rq_chain (far_request s))"
  "request_at linux_blk_abi (memory (far_dev s)) 0x31300000 0 s"
proof -
  have "same_on (ring_region sample_cfg 0) (memory (sample_dev 0)) (memory (far_dev s))"
    by (auto simp: far_dev_def sample_dev_def same_on_def poke_def ring_region_def table_region_def avail_region_def
        used_region_def sample_cfg_def)
  note same = this same_on_subset [OF this ring_regions(1)]
  have "waiting linux_abi sample_cfg 0 (sample_dev 0) = [0]"
    using sample_todo [of 0] by (simp add: waiting_def sample_dev_def)
  then show "waiting linux_abi sample_cfg 0 (far_dev s) = [0]"
    using waiting_frame [OF abi_ok_linux same(1)] by (simp add: far_dev_def)
  have "desc sample_cfg ! 0 = 0x31000000" "starting_address_of sample_cfg = 0x400030000000" by (simp_all add: sample_cfg_def)
  then show "chain_of 16384 linux_abi sample_cfg 0 (memory (far_dev s)) 0 = Some (rq_chain (far_request s))"
    using chain_at_same [OF abi_ok_linux same(2), of 16384 "0x400030000000" 0] sample_chain [of 0]
    by (simp add: chain_of_def sample_dev_def rq_chain_def far_request_def)
  show "request_at linux_blk_abi (memory (far_dev s)) 0x31300000 0 s"
    by (simp add: request_at_def linux_blk_abi_def far_dev_def VIEW_def mem_simps sample_guest_reads)
qed

theorem disk_request_outcome_witness:
  "service_queue 16384 linux_abi (blk_backend linux_blk_abi) sample_cfg 0 (far_dev 128) = Inl Wild_Access
   \<and> (\<exists>d'. service_queue 16384 linux_abi (blk_backend linux_blk_abi) sample_cfg 0 (far_dev (2 ^ 55 + 3)) = Inr d'
        \<and> dclass d' = sample_blk\<lparr>req := Some 0x31300000\<rparr>)"
proof -
  have d: "0 < length (processed (far_dev s))" "dclass (far_dev s) = sample_blk" for s
    by (simp_all add: far_dev_def sample_dev_def)
  have apart: "rq_buffers (far_request s) \<inter> ring_region sample_cfg 0 = {}" for s
    by (auto simp: rq_buffers_def far_request_def ring_region_def table_region_def avail_region_def used_region_def
        sample_cfg_def)
  have at: "request_at linux_blk_abi (memory (far_dev s)) (rq_header (far_request s)) (rq_type (far_request s))
      (rq_sector (far_request s))" for s using far_posted(3) by (simp add: far_request_def)
  have size: "mapping_size sample_blk = 65536" by (simp add: sample_blk_def mapping_size_def PAGE_def)
  have low: "take_bit 55 (128 :: u64) = 128" "take_bit 55 (2 ^ 55 + 3 :: u64) = 3" by simp_all
  note out = disk_request_outcome [OF abi_ok_linux blk_abi_ok_linux sample_rings(1) d(1) far_posted(1,2) at apart,
      unfolded d(2)]
  have "\<not> stays_inside linux_blk_abi sample_blk (far_request 128)"
    "stays_inside linux_blk_abi sample_blk (far_request (2 ^ 55 + 3))"
    by (simp_all add: stays_inside_def low_sector_def far_request_def linux_blk_abi_def size VIEW_def low)
  then show ?thesis
    unfolding out
    by (simp add: case_prod_beta served_def set_interrupt_def disk_exec_def low_sector_def far_request_def linux_blk_abi_def
        Let_def)
qed

end
