(* ===== verification/Virtio_Net.thy ===== *)
theory Virtio_Net
  imports Device_Run
begin

text \<open>
  The network device (\<^verbatim>\<open>console/network.hpp\<close>): receive queue 0 and transmit queue 1, between guest
  memory and the user-mode network stack libslirp. libslirp and the header layout of Linux's
  \<^verbatim>\<open>virtio_net.h\<close> are outside the repository and are the parameters \<open>slirp\<close> and \<open>net_abi\<close>.
\<close>

section \<open>Parameters and state\<close>

record net_abi =
  net_hdr_size :: u64
  hdr_flags :: nat
  hdr_gso_type :: nat
  hdr_gso_size :: nat
  hdr_num_buffers :: nat
  ID_NET :: u32
  F_GUEST_CSUM :: nat
  NET_F_VERSION_1 :: nat

definition net_abi_ok :: "net_abi \<Rightarrow> bool" where
  "net_abi_ok N \<longleftrightarrow>
     net_hdr_size N = 12 \<and> hdr_flags N = 0 \<and> hdr_gso_type N = 1 \<and> hdr_gso_size N = 4
     \<and> hdr_num_buffers N = 10 \<and> ID_NET N = 1 \<and> F_GUEST_CSUM N = 1 \<and> NET_F_VERSION_1 N = 32"

definition linux_net_abi :: net_abi where
  "linux_net_abi =
     \<lparr>net_hdr_size = 12, hdr_flags = 0, hdr_gso_type = 1, hdr_gso_size = 4, hdr_num_buffers = 10,
      ID_NET = 1, F_GUEST_CSUM = 1, NET_F_VERSION_1 = 32\<rparr>"

lemma net_abi_ok_linux: "net_abi_ok linux_net_abi"
  by (simp add: net_abi_ok_def linux_net_abi_def)

text \<open>The network stack with a state of its own: \<open>recv s n\<close> is the packet of at most \<open>n\<close> bytes that
  \<open>vdeslirp_recv\<close> returns (\<open>None\<close>: nothing, or an error), \<open>send\<close> takes a frame, \<open>ready\<close> is the
  \<open>select\<close> on its descriptor.\<close>

record 's slirp =
  recv :: "'s \<Rightarrow> nat \<Rightarrow> u8 list option \<times> 's"
  send :: "'s \<Rightarrow> u8 list \<Rightarrow> int \<times> 's"
  ready :: "'s \<Rightarrow> bool"

definition PACKET_SIZE :: nat where "PACKET_SIZE = 1514"

record 's net =
  myslirp :: 's
  buffer :: "u8 list"
  header_processed :: bool

record net_setup =
  net_device_id :: u32
  net_features_list :: "u32 list"
  net_num_queues :: nat
  net_header_size :: u64
  forwarded_port :: int

text \<open>The constructor: the buffer is uninitialised storage of \<open>PACKET_SIZE\<close> bytes; ssh of the guest
  is forwarded to a host port that depends on card and tile.\<close>

definition VirtioNet_new :: "net_abi \<Rightarrow> 's \<Rightarrow> u8 list \<Rightarrow> int \<Rightarrow> int \<Rightarrow> 's net \<times> net_setup" where
  "VirtioNet_new N s garbage ttdevice l2cpu_idx =
     (\<lparr>myslirp = s, buffer = garbage, header_processed = False\<rparr>,
      \<lparr>net_device_id = ID_NET N,
       net_features_list = [push_bit (F_GUEST_CSUM N) 1, push_bit (NET_F_VERSION_1 N - 32) 1],
       net_num_queues = 2, net_header_size = net_hdr_size N,
       forwarded_port = 2222 + l2cpu_idx + 4 * ttdevice\<rparr>)"

section \<open>The virtual functions\<close>

definition write_hdr :: "net_abi \<Rightarrow> nat \<Rightarrow> mem \<Rightarrow> mem res" where
  "write_hdr N p m =
     bindR (store VIEW m (p + hdr_flags N) [0]) (\<lambda>m1.
     bindR (store VIEW m1 (p + hdr_num_buffers N) (bytes16 1)) (\<lambda>m2.
     bindR (store VIEW m2 (p + hdr_gso_type N) [0]) (\<lambda>m3.
       store VIEW m3 (p + hdr_gso_size N) (bytes16 0))))"

definition net_start :: "net_abi \<Rightarrow> nat \<Rightarrow> u64 \<Rightarrow> u64 \<Rightarrow> 's net \<times> mem \<Rightarrow> ('s net \<times> mem) res" where
  "net_start N q addr len s =
     (let b = (fst s)\<lparr>header_processed := True\<rparr>
      in if q = 0 then bindR (write_hdr N (unat addr) (snd s)) (\<lambda>m. Inr (b, m)) else Inr (b, snd s))"

definition net_data :: "nat \<Rightarrow> u64 \<Rightarrow> u64 \<Rightarrow> 's net \<times> mem \<Rightarrow> ('s net \<times> mem) res" where
  "net_data q addr len s = Inr s"

definition net_receive :: "'s slirp \<Rightarrow> u64 \<Rightarrow> 's net \<times> mem \<Rightarrow> ('s net \<times> mem) res" where
  "net_receive S addr s =
     (case recv S (myslirp (fst s)) PACKET_SIZE of
        (None, st) \<Rightarrow> Inr ((fst s)\<lparr>myslirp := st\<rparr>, snd s)
      | (Some pkt, st) \<Rightarrow>
          bindR (require Buffer_Overflow (length pkt \<le> PACKET_SIZE)) (\<lambda>_.
          let b = (fst s)\<lparr>myslirp := st, buffer := pkt @ drop (length pkt) (buffer (fst s))\<rparr> in
          if pkt = [] then Inr (b, snd s)
          else bindR (store VIEW (snd s) (unat addr) pkt) (\<lambda>m. Inr (b, m))))"

definition net_transmit :: "'s slirp \<Rightarrow> u64 \<Rightarrow> u64 \<Rightarrow> 's net \<times> mem \<Rightarrow> ('s net \<times> mem) res" where
  "net_transmit S addr len s =
     bindR (require Buffer_Overflow (unat len \<le> PACKET_SIZE)) (\<lambda>_.
     bindR (fetch VIEW (snd s) (unat addr) (unat len)) (\<lambda>bs.
       Inr ((fst s)\<lparr>myslirp := snd (send S (myslirp (fst s)) bs),
                    buffer := bs @ drop (unat len) (buffer (fst s))\<rparr>, snd s)))"

definition net_complete :: "net_abi \<Rightarrow> 's slirp \<Rightarrow> nat \<Rightarrow> u64 \<Rightarrow> u64 \<Rightarrow> 's net \<times> mem \<Rightarrow> ('s net \<times> mem) res" where
  "net_complete N S q addr len s =
     bindR (if \<not> header_processed (fst s)
            then bindR (net_start N q addr len s) (\<lambda>s1. Inr (addr + net_hdr_size N, s1))
            else Inr (addr, s)) (\<lambda>(addr1, s1).
     bindR (if q = 0 then net_receive S addr1 s1
            else if q = 1 then net_transmit S addr1 len s1 else Inr s1) (\<lambda>s2.
       Inr ((fst s2)\<lparr>header_processed := False\<rparr>, snd s2)))"

definition net_has_data :: "'s slirp \<Rightarrow> nat \<Rightarrow> 's net \<Rightarrow> bool" where
  "net_has_data S q b = (if q = 0 then ready S (myslirp b) else True)"

definition net_backend :: "net_abi \<Rightarrow> 's slirp \<Rightarrow> 's net backend" where
  "net_backend N S =
     \<lparr>process_queue_start = net_start N, process_queue_data = net_data,
      process_queue_complete = net_complete N S, queue_has_data = net_has_data S,
      queue_header_size = net_hdr_size N, num_queues = 2\<rparr>"

text \<open>What the functions may change of guest memory: on the receive queue the header and the largest
  packet behind it, whatever the length of the buffer; on the transmit queue nothing. Under
  another header layout than the documented one nothing is promised.\<close>

definition net_reach :: "net_abi \<Rightarrow> chain_op \<Rightarrow> nat \<Rightarrow> u64 \<Rightarrow> u64 \<Rightarrow> nat set" where
  "net_reach N c q p l =
     (if \<not> net_abi_ok N then UNIV
      else if q \<noteq> 0 then {}
      else case c of O_Start \<Rightarrow> span (unat p) 12 | O_Data \<Rightarrow> {} | O_Complete \<Rightarrow> span (unat p) (12 + PACKET_SIZE))"

text \<open>The header as \<open>process_queue_start\<close> leaves it: four fields set, the rest as it was.\<close>

definition hdr_bytes :: "u8 list \<Rightarrow> u8 list" where
  "hdr_bytes old =
     [0, 0, old ! 2, old ! 3, 0, 0, old ! 6, old ! 7, old ! 8, old ! 9, 1, 0]"

lemma length_hdr_bytes [simp]: "length (hdr_bytes old) = 12"
  by (simp add: hdr_bytes_def)

lemma hdr_pokes:
  "poke (poke (poke (poke m p [0]) (p + 10) [1, 0]) (Suc p) [0]) (p + 4) [0, 0]
     = poke m p (hdr_bytes (peek m p 12))"
proof
  fix x
  show "poke (poke (poke (poke m p [0]) (p + 10) [1, 0]) (Suc p) [0]) (p + 4) [0, 0] x
      = poke m p (hdr_bytes (peek m p 12)) x"
  proof (cases "p \<le> x \<and> x < p + 12")
    case True
    then obtain k where k: "x = p + k" "k < 12" using le_Suc_ex by auto
    then have "k \<in> set [0..<12]" by simp
    then show ?thesis
      by (auto simp: k(1) upt_rec poke_def hdr_bytes_def peek_def)
  next
    case False
    then show ?thesis by (auto simp: poke_def hdr_bytes_def)
  qed
qed

lemma write_hdr_ok:
  assumes "net_abi_ok N" "p + 12 \<le> VIEW"
  shows "write_hdr N p m = Inr (poke m p (hdr_bytes (peek m p 12)))"
proof -
  have "bytes16 1 = [1, 0]" "bytes16 0 = [0, 0]"
    by (simp_all add: bytes16_def numeral_2_eq_2)
  then show ?thesis
    using assms hdr_pokes [of m p] by (simp add: write_hdr_def net_abi_ok_def)
qed

lemma write_hdr_Inr:
  assumes "net_abi_ok N" "write_hdr N p m = Inr m'"
  shows "p + 12 \<le> VIEW" "m' = poke m p (hdr_bytes (peek m p 12))"
proof -
  show "p + 12 \<le> VIEW"
    using assms by (auto simp: write_hdr_def net_abi_ok_def res_simps)
  then show "m' = poke m p (hdr_bytes (peek m p 12))"
    using assms write_hdr_ok by simp
qed

lemma net_receive_frame:
  "net_receive S addr (b, m) = Inr (b', m') \<Longrightarrow> same_on (- span (unat addr) PACKET_SIZE) m m'"
  by (auto simp: net_receive_def res_simps Let_def split: prod.splits option.splits if_splits
      intro!: same_on_poke)

lemma net_transmit_frame: "net_transmit S addr len (b, m) = Inr (b', m') \<Longrightarrow> m' = m"
  by (auto simp: net_transmit_def res_simps)

lemma net_start_frame:
  assumes "net_abi_ok N" "net_start N q p l (b, m) = Inr (b', m')"
  shows "if q = 0 then unat p + 12 \<le> VIEW \<and> same_on (- span (unat p) 12) m m' else m' = m"
  using assms write_hdr_Inr [OF assms(1), of "unat p" m m']
  by (auto simp: net_start_def Let_def res_simps intro!: same_on_poke)

lemma unat_addr_12: "unat (p :: u64) + 12 \<le> VIEW \<Longrightarrow> unat (p + 12) = unat p + 12"
  using unat_add_less_64 [of p 12] by (simp add: VIEW_def)

lemma net_complete_frame:
  assumes N: "net_abi_ok N" and c: "net_complete N S q p l (b, m) = Inr (b', m')"
  shows "if q = 0 then same_on (- span (unat p) (12 + PACKET_SIZE)) m m' else m' = m"
proof -
  obtain a1 b1 m1 b2 where
    s1: "(if \<not> header_processed b then bindR (net_start N q p l (b, m)) (\<lambda>s1. Inr (p + net_hdr_size N, s1))
          else Inr (p, b, m)) = Inr (a1, b1, m1)"
    and s2: "(if q = 0 then net_receive S a1 (b1, m1)
             else if q = 1 then net_transmit S a1 l (b1, m1) else Inr (b1, m1)) = Inr (b2, m')"
    using c by (fastforce simp: net_complete_def bindR_Inr_iff)
  have hdr: "net_hdr_size N = 12" using N by (simp add: net_abi_ok_def)
  show ?thesis
  proof (cases "q = 0")
    case False
    then have "m1 = m"
      using s1 net_start_frame [OF N, of q p l b m] by (auto simp: bindR_Inr_iff split: if_splits)
    then show ?thesis using False s2 net_transmit_frame by (auto split: if_splits)
  next
    case True
    have "same_on (- span (unat p) 12) m m1 \<and> (unat a1 = unat p \<or> unat a1 = unat p + 12)"
      using s1 True net_start_frame [OF N, of 0 p l b m] unat_addr_12 [of p]
      by (auto simp: bindR_Inr_iff hdr split: if_splits)
    moreover have "same_on (- span (unat a1) PACKET_SIZE) m1 m'"
      using s2 True net_receive_frame by simp
    ultimately show ?thesis using True by (auto simp: same_on_def)
  qed
qed

lemma net_frame:
  assumes "run_op (net_backend N S) c q p l (b, m) = Inr (b', m')"
  shows "same_on (- net_reach N c q p l) m m'"
proof (cases "net_abi_ok N")
  case False
  then show ?thesis by (simp add: net_reach_def same_on_def)
next
  case True
  show ?thesis
    using assms net_start_frame [OF True, of q p l b m b' m'] net_complete_frame [OF True, of S q p l b m b' m']
    by (cases c) (auto simp: run_op_def net_backend_def net_data_def net_reach_def True split: if_splits)
qed

interpretation net: virtio_backend "net_backend N S" "net_reach N" for N S
  by unfold_locales (rule net_frame)

section \<open>Receiving\<close>

lemma poke_append: "poke (poke m p a) (p + length a) b = poke m p (a @ b)"
  by (rule ext) (auto simp: poke_def nth_append)

lemma ucast_u32_id: "ucast (ucast (l :: u32) :: u64) = l"
  by transfer simp

lemma net_single_op:
  "run_ops (net_backend N S) q (chain_ops h n [(p, l)]) s = net_complete N S q p (ucast l) s"
  by (simp add: run_op_def net_backend_def bindR_def split: sum.splits)

lemma net_rx_op:
  assumes N: "net_abi_ok N" and idle: "\<not> header_processed b"
    and pkt: "recv S (myslirp b) PACKET_SIZE = (Some pkt, st)" "pkt \<noteq> []" "length pkt \<le> PACKET_SIZE"
    and room: "unat p + 12 + length pkt \<le> VIEW"
  shows "net_complete N S 0 p l (b, m) =
     Inr (b\<lparr>header_processed := False, myslirp := st, buffer := pkt @ drop (length pkt) (buffer b)\<rparr>,
          poke m (unat p) (hdr_bytes (peek m (unat p) 12) @ pkt))"
proof -
  have hdr: "net_hdr_size N = 12" using N by (simp add: net_abi_ok_def)
  have a: "unat (p + 12) = unat p + 12" using room by (intro unat_addr_12) simp
  have "poke (poke m (unat p) (hdr_bytes (peek m (unat p) 12))) (unat p + 12) pkt
      = poke m (unat p) (hdr_bytes (peek m (unat p) 12) @ pkt)"
    using poke_append [of m "unat p" "hdr_bytes (peek m (unat p) 12)" pkt] by simp
  then show ?thesis
    using assms(2-6) write_hdr_ok [OF N, of "unat p" m]
    by (simp add: net_complete_def net_start_def net_receive_def Let_def hdr a)
qed

lemma net_receive_lemma:
  assumes A: "abi_ok A" and N: "net_abi_ok N" and ok: "rings_ok cfg 0" "0 < length (processed d)"
    and todo: "todo A (memory d) (avail cfg ! 0) (processed d ! 0) = i # is"
    and chain: "chain_at 16384 A (memory d) (starting_address_of cfg) (desc cfg ! 0) i = Some [(p, l)]"
    and apart: "span (unat p) (12 + PACKET_SIZE) \<inter> ring_region cfg 0 = {}"
    and ready: "ready S (myslirp (dclass d))" "\<not> header_processed (dclass d)"
    and pkt: "recv S (myslirp (dclass d)) PACKET_SIZE = (Some pkt, st)" "pkt \<noteq> []" "length pkt \<le> PACKET_SIZE"
    and room: "unat p + 12 + length pkt \<le> VIEW"
  shows "\<exists>d'. service_queue 16384 A (net_backend N S) cfg 0 d = Inr d'
     \<and> peek (memory d') (unat p) (12 + length pkt) = hdr_bytes (peek (memory d) (unat p) 12) @ pkt
     \<and> same_on (- (span (unat p) (12 + length pkt) \<union> used_region (used cfg ! 0))) (memory d) (memory d')
     \<and> ring_advanced A cfg 0 d i l d'
     \<and> myslirp (dclass d') = st \<and> \<not> header_processed (dclass d')"
proof -
  let ?hp = "hdr_bytes (peek (memory d) (unat p) 12) @ pkt"
  let ?m = "poke (memory d) (unat p) ?hp"
  let ?h = "queue_header_size (net_backend N S)"
  obtain b where run: "run_ops (net_backend N S) 0 (chain_ops ?h 0 [(p, l)]) (dclass d, memory d) = Inr (b, ?m)"
    and b: "myslirp b = st" "\<not> header_processed b"
    unfolding net_single_op net_rx_op [OF N ready(2) pkt room] by auto
  have ap: "ops_apart (net_reach N) 0 (ring_region cfg 0) (chain_ops ?h 0 [(p, l)])"
    using apart N by (simp add: ops_apart_def net_reach_def)
  have data: "queue_has_data (net_backend N S) 0 (dclass d)"
    using ready(1) by (simp add: net_backend_def net_has_data_def)
  define d' where "d' = served A cfg 0 i [(p, l)] (b, ?m) d"
  have "service_queue 16384 A (net_backend N S) cfg 0 d = Inr d'"
    using net.service_queue_serves [OF A ok todo data chain ap] run by (simp add: d'_def)
  moreover have "ring_advanced A cfg 0 d i l d'"
    using net.served_rings(1-3,5) [OF A ok todo ap run] todo
    by (simp add: ring_advanced_def d'_def ucast_u32_id)
  moreover have pub: "same_on (- used_region (used cfg ! 0)) ?m (memory d')"
    using publish_reads(4) [OF A] by (simp add: d'_def served_def set_interrupt_def)
  moreover have "span (unat p) (12 + length pkt) \<subseteq> - used_region (used cfg ! 0)"
  proof -
    have "span (unat p) (12 + length pkt) \<subseteq> span (unat p) (12 + PACKET_SIZE)"
      using pkt(3) by (intro span_mono) simp_all
    then show ?thesis using apart ring_regions(3) [of cfg 0] by blast
  qed
  then have "peek (memory d') (unat p) (12 + length pkt) = ?hp"
    using same_on_peek [OF pub, of "unat p" "12 + length pkt"] by (simp add: peek_poke_same)
  moreover have "same_on (- (span (unat p) (12 + length pkt) \<union> used_region (used cfg ! 0))) (memory d) (memory d')"
    using pub by (auto simp: same_on_def poke_def)
  moreover have "dclass d' = b" by (simp add: d'_def served_def set_interrupt_def)
  ultimately show ?thesis using b by blast
qed

text \<open>A packet from the network stack reaches the driver: the buffer of the posted descriptor holds
  the header with its four fields set and then the packet, the rest of guest memory outside the
  used ring is unchanged, the head is in the used ring and one interrupt was raised; but the
  length reported is that of the descriptor, whatever the length of the packet.\<close>

theorem net_receive_served:
  assumes A: "abi_ok A" and N: "net_abi_ok N" and ok: "rings_ok cfg 0" "0 < length (processed d)"
    and todo: "todo A (memory d) (avail cfg ! 0) (processed d ! 0) = i # is"
    and chain: "chain_at 16384 A (memory d) (starting_address_of cfg) (desc cfg ! 0) i = Some [(p, l)]"
    and apart: "span (unat p) (12 + PACKET_SIZE) \<inter> ring_region cfg 0 = {}"
    and ready: "ready S (myslirp (dclass d))" "\<not> header_processed (dclass d)"
    and pkt: "recv S (myslirp (dclass d)) PACKET_SIZE = (Some pkt, st)" "pkt \<noteq> []" "length pkt \<le> PACKET_SIZE"
    and room: "unat p + 12 + length pkt \<le> VIEW"
  shows "\<exists>d'. service_queue 16384 A (net_backend N S) cfg 0 d = Inr d'
     \<and> peek (memory d') (unat p) (12 + length pkt) = hdr_bytes (peek (memory d) (unat p) 12) @ pkt
     \<and> same_on (- (span (unat p) (12 + length pkt) \<union> used_region (used cfg ! 0))) (memory d) (memory d')
     \<and> ring_advanced A cfg 0 d i l d'
     \<and> myslirp (dclass d') = st \<and> \<not> header_processed (dclass d')"
  using assms by (rule net_receive_lemma)

section \<open>Transmitting\<close>

lemma ucast_sum12: "ucast (12 + ucast (a :: u32) :: u64) = 12 + a"
proof -
  have "(12 + x mod n) mod n = (12 + x) mod n" for x n :: int
    by (rule mod_add_right_eq)
  then show ?thesis by transfer (simp add: take_bit_eq_mod)
qed

lemma net_tx_ops:
  assumes N: "net_abi_ok N" and "unat l \<le> PACKET_SIZE" "unat p + unat l \<le> VIEW"
  shows "run_ops (net_backend N S) 1 (chain_ops (queue_header_size (net_backend N S)) 0 [(ph, 12), (p, l)]) (b, m)
    = Inr (b\<lparr>header_processed := False, myslirp := snd (send S (myslirp b) (peek m (unat p) (unat l))),
             buffer := peek m (unat p) (unat l) @ drop (unat l) (buffer b)\<rparr>, m)"
  using assms
  by (simp add: run_op_def net_backend_def net_start_def net_complete_def net_transmit_def Let_def
      net_abi_ok_def)

lemma net_transmit_lemma:
  assumes A: "abi_ok A" and N: "net_abi_ok N" and ok: "rings_ok cfg 1" "1 < length (processed d)"
    and todo: "todo A (memory d) (avail cfg ! 1) (processed d ! 1) = i # is"
    and chain: "chain_at 16384 A (memory d) (starting_address_of cfg) (desc cfg ! 1) i = Some [(ph, 12), (p, l)]"
    and room: "unat l \<le> PACKET_SIZE" "unat p + unat l \<le> VIEW"
  shows "\<exists>d'. service_queue 16384 A (net_backend N S) cfg 1 d = Inr d'
     \<and> myslirp (dclass d') = snd (send S (myslirp (dclass d)) (peek (memory d) (unat p) (unat l)))
     \<and> same_on (- used_region (used cfg ! 1)) (memory d) (memory d')
     \<and> ring_advanced A cfg 1 d i (12 + l) d' \<and> \<not> header_processed (dclass d')"
proof -
  let ?ds = "[(ph, 12), (p, l)]" and ?h = "queue_header_size (net_backend N S)"
  obtain b where run: "run_ops (net_backend N S) 1 (chain_ops ?h 0 ?ds) (dclass d, memory d) = Inr (b, memory d)"
    and b: "myslirp b = snd (send S (myslirp (dclass d)) (peek (memory d) (unat p) (unat l)))"
      "\<not> header_processed b"
    unfolding net_tx_ops [OF N room] by auto
  have ap: "ops_apart (net_reach N) 1 (ring_region cfg 1) (chain_ops ?h 0 ?ds)"
    using N by (simp add: ops_apart_def net_reach_def)
  have data: "queue_has_data (net_backend N S) 1 (dclass d)"
    by (simp add: net_backend_def net_has_data_def)
  define d' where "d' = served A cfg 1 i ?ds (b, memory d) d"
  have "service_queue 16384 A (net_backend N S) cfg 1 d = Inr d'"
    using net.service_queue_serves [OF A ok todo data chain ap] run by (simp add: d'_def)
  moreover have "ucast (chain_len ?ds) = 12 + l"
    using ucast_sum12 [of l] by simp
  then have "ring_advanced A cfg 1 d i (12 + l) d'"
    using net.served_rings(1-3,5) [OF A ok todo ap run] todo
    unfolding ring_advanced_def d'_def by (simp del: chain_len_simps)
  moreover have "same_on (- used_region (used cfg ! 1)) (memory d) (memory d')"
    using publish_reads(4) [OF A] by (simp add: d'_def served_def set_interrupt_def)
  moreover have "dclass d' = b" by (simp add: d'_def served_def set_interrupt_def)
  ultimately show ?thesis using b by blast
qed

text \<open>A frame the driver posts behind a header descriptor of its own is handed to the network
  stack byte for byte, guest memory outside the used ring is not touched, and the head is in the
  used ring.\<close>

theorem net_transmit_served:
  assumes A: "abi_ok A" and N: "net_abi_ok N" and ok: "rings_ok cfg 1" "1 < length (processed d)"
    and todo: "todo A (memory d) (avail cfg ! 1) (processed d ! 1) = i # is"
    and chain: "chain_at 16384 A (memory d) (starting_address_of cfg) (desc cfg ! 1) i = Some [(ph, 12), (p, l)]"
    and room: "unat l \<le> PACKET_SIZE" "unat p + unat l \<le> VIEW"
  shows "\<exists>d'. service_queue 16384 A (net_backend N S) cfg 1 d = Inr d'
     \<and> myslirp (dclass d') = snd (send S (myslirp (dclass d)) (peek (memory d) (unat p) (unat l)))
     \<and> same_on (- used_region (used cfg ! 1)) (memory d) (memory d')
     \<and> ring_advanced A cfg 1 d i (12 + l) d' \<and> \<not> header_processed (dclass d')"
  using assms by (rule net_transmit_lemma)

text \<open>C38: a frame posted with its header in one single descriptor is sent wrongly: the first 12 of its
  bytes are skipped but the length is not reduced, so 12 bytes from behind the descriptor's buffer
  are sent at the end of the frame; and if the descriptor is longer than 1514 bytes, as one with a
  full frame and its header is, the copy overruns the 1514-byte buffer on the host.\<close>

theorem net_transmit_single_descriptor:
  assumes N: "net_abi_ok N" and idle: "\<not> header_processed b" and room: "unat p + 12 + unat l \<le> VIEW"
  shows "run_ops (net_backend N S) 1 (chain_ops (queue_header_size (net_backend N S)) 0 [(p, l)]) (b, m)
    = (if PACKET_SIZE < unat l then Inl Buffer_Overflow
       else Inr (b\<lparr>header_processed := False,
                   myslirp := snd (send S (myslirp b) (peek m (unat p + 12) (unat l))),
                   buffer := peek m (unat p + 12) (unat l) @ drop (unat l) (buffer b)\<rparr>, m))"
proof -
  have "unat (p + 12) = unat p + 12" using room by (intro unat_addr_12) simp
  moreover have "net_hdr_size N = 12" using N by (simp add: net_abi_ok_def)
  ultimately show ?thesis
    unfolding net_single_op using idle room
    by (simp add: net_complete_def net_start_def net_transmit_def Let_def add.commute)
qed

text \<open>Both queues of the network device, whatever the interleaving of the driver and the arrival
  of packets with the device's rounds, serve every posted head exactly once and in order, and the
  used ring holds the completed ones.\<close>

theorem net_queue_exactly_once:
  assumes "abi_ok A" "rings_ok cfg q" "q < length (processed d)"
    and "(queue_step fuel A (net_backend N S) (net_reach N) cfg q)\<^sup>*\<^sup>* (queue_start A cfg q d) s"
  shows "posted s = map fst (completed s) @ todo A (memory (q_dev s)) (avail cfg ! q) (processed (q_dev s) ! q)
         \<and> published A (memory (q_dev s)) (used cfg ! q) (used_count A (memory d) (used cfg ! q))
             (used_entries (completed s))"
  using assms by (rule net.exactly_once)

section \<open>A concrete network\<close>

text \<open>A stack that hands out the packets of a list and records what it is sent.\<close>

definition sample_slirp :: "(u8 list list \<times> u8 list list) slirp" where
  "sample_slirp =
     \<lparr>recv = (\<lambda>(ins, outs) n. case ins of [] \<Rightarrow> (None, ins, outs) | p # ps \<Rightarrow> (Some (take n p), ps, outs)),
      send = (\<lambda>(ins, outs) bs. (int (length bs), ins, outs @ [bs])),
      ready = (\<lambda>(ins, outs). ins \<noteq> [])\<rparr>"

text \<open>A receive buffer of 1526 bytes at queue 0, a frame of 64 bytes behind a header at queue 1.\<close>

definition sample_net_guest :: mem where
  "sample_net_guest =
     poke (poke (poke (poke (poke (poke (poke (poke (poke (poke (\<lambda>_. 0)
       0x31100002 (bytes16 1)) 0x31000000 (bytes64 0x400031300000)) 0x31000008 (bytes32 1526))
       0x32100002 (bytes16 1)) 0x32000000 (bytes64 0x400032300000)) 0x32000008 (bytes32 12))
       0x3200000C (bytes16 1)) 0x3200000E (bytes16 1))
       0x32000010 (bytes64 0x400032301000)) 0x32000018 (bytes32 64)"

definition sample_net_dev :: "(u8 list list \<times> u8 list list) net dev" where
  "sample_net_dev =
     \<lparr>memory = sample_net_guest,
      dclass = \<lparr>myslirp = ([[1, 2, 3]], []), buffer = replicate 1514 0, header_processed = False\<rparr>,
      processed = [0, 0], interrupt_status = 0, interrupt_register = []\<rparr>"

lemma sample_net_reads:
  "val16 sample_net_guest 0x31100002 = 1" "val16 sample_net_guest 0x31100004 = 0"
  "val64 sample_net_guest 0x31000000 = 0x400031300000" "val32 sample_net_guest 0x31000008 = 1526"
  "val16 sample_net_guest 0x3100000C = 0"
  "val16 sample_net_guest 0x32100002 = 1" "val16 sample_net_guest 0x32100004 = 0"
  "val64 sample_net_guest 0x32000000 = 0x400032300000" "val32 sample_net_guest 0x32000008 = 12"
  "val16 sample_net_guest 0x3200000C = 1" "val16 sample_net_guest 0x3200000E = 1"
  "val64 sample_net_guest 0x32000010 = 0x400032301000" "val32 sample_net_guest 0x32000018 = 64"
  "val16 sample_net_guest 0x3200001C = 0"
  by (simp_all add: sample_net_guest_def mem_simps)

lemma sample_net_todo:
  "todo linux_abi (memory sample_net_dev) (avail sample_cfg ! 0) (processed sample_net_dev ! 0) = [0]"
  "todo linux_abi (memory sample_net_dev) (avail sample_cfg ! 1) (processed sample_net_dev ! 1) = [0]"
  by (simp_all add: todo_def avail_at_def sample_cfg_def linux_abi_def sample_net_reads queue_size_def
      sample_net_dev_def)

lemma sample_net_chains:
  "chain_at 16384 linux_abi (memory sample_net_dev) (starting_address_of sample_cfg) (desc sample_cfg ! 0) 0
     = Some [(0x31300000, 1526)]"
  "chain_at 16384 linux_abi (memory sample_net_dev) (starting_address_of sample_cfg) (desc sample_cfg ! 1) 0
     = Some [(0x32300000, 12), (0x32301000, 64)]"
proof -
  have "chain_at (Suc 0) linux_abi (memory sample_net_dev) (starting_address_of sample_cfg) (desc sample_cfg ! 0) 0
     = Some [(0x31300000, 1526)]"
    "chain_at (Suc (Suc 0)) linux_abi (memory sample_net_dev) (starting_address_of sample_cfg) (desc sample_cfg ! 1) 0
     = Some [(0x32300000, 12), (0x32301000, 64)]"
    by (simp_all add: chain_at_Suc chain_more_def chain_next_def desc_at_def linux_abi_def
        sample_net_reads queue_size_def guest_offset_def Let_def sample_net_dev_def sample_cfg_def)
  then show "chain_at 16384 linux_abi (memory sample_net_dev) (starting_address_of sample_cfg) (desc sample_cfg ! 0) 0
     = Some [(0x31300000, 1526)]"
    "chain_at 16384 linux_abi (memory sample_net_dev) (starting_address_of sample_cfg) (desc sample_cfg ! 1) 0
     = Some [(0x32300000, 12), (0x32301000, 64)]"
    by (auto elim: chain_at_fuel)
qed

theorem net_receive_served_witness:
  "\<exists>d'. service_queue 16384 linux_abi (net_backend linux_net_abi sample_slirp) sample_cfg 0 sample_net_dev = Inr d'
     \<and> drop 12 (peek (memory d') 0x31300000 15) = [1, 2, 3]
     \<and> used_elem linux_abi (memory d') (used sample_cfg ! 0) 0 = (0, 1526)"
proof -
  have ap: "span (unat (0x31300000 :: u64)) (12 + PACKET_SIZE) \<inter> ring_region sample_cfg 0 = {}"
    by (auto simp: ring_region_def table_region_def avail_region_def used_region_def sample_cfg_def PACKET_SIZE_def)
  have c: "used_count linux_abi (memory sample_net_dev) (used sample_cfg ! 0) = 0"
    by (simp add: used_count_def sample_cfg_def linux_abi_def sample_net_dev_def sample_net_guest_def mem_simps)
  obtain d' where d': "service_queue 16384 linux_abi (net_backend linux_net_abi sample_slirp) sample_cfg 0 sample_net_dev = Inr d'"
    "peek (memory d') (unat (0x31300000 :: u64)) (12 + length [1, 2, 3 :: u8])
       = hdr_bytes (peek (memory sample_net_dev) (unat (0x31300000 :: u64)) 12) @ [1, 2, 3]"
    "ring_advanced linux_abi sample_cfg 0 sample_net_dev 0 1526 d'"
    using net_receive_served [OF abi_ok_linux net_abi_ok_linux sample_rings(1) _ sample_net_todo(1)
        sample_net_chains(1) ap, of sample_slirp "[1, 2, 3]" "([], [])"]
    by (auto simp: sample_net_dev_def sample_slirp_def PACKET_SIZE_def VIEW_def)
  have "drop 12 (peek (memory d') 0x31300000 15) = [1, 2, 3]" using d'(2) by simp
  then show ?thesis using d'(1,3) c by (auto simp: ring_advanced_def)
qed

theorem net_transmit_served_witness:
  "\<exists>d'. service_queue 16384 linux_abi (net_backend linux_net_abi sample_slirp) sample_cfg 1 sample_net_dev = Inr d'
     \<and> snd (myslirp (dclass d')) = [peek sample_net_guest 0x32301000 64]"
  using net_transmit_served [OF abi_ok_linux net_abi_ok_linux sample_rings(2) _ sample_net_todo(2)
      sample_net_chains(2), of sample_slirp]
  by (fastforce simp: sample_net_dev_def sample_slirp_def PACKET_SIZE_def VIEW_def)

theorem net_transmit_single_descriptor_witness:
  "run_ops (net_backend linux_net_abi sample_slirp) 1
     (chain_ops (queue_header_size (net_backend linux_net_abi sample_slirp)) 0 [(0x32300000, 1526)])
     (dclass sample_net_dev, sample_net_guest) = Inl Buffer_Overflow"
  using net_transmit_single_descriptor [OF net_abi_ok_linux, of "dclass sample_net_dev" "0x32300000" 1526
      sample_slirp sample_net_guest]
  by (simp add: sample_net_dev_def PACKET_SIZE_def VIEW_def)

theorem net_queue_exactly_once_witness:
  "\<exists>s. (queue_step 16384 linux_abi (net_backend linux_net_abi sample_slirp) (net_reach linux_net_abi) sample_cfg 1)\<^sup>*\<^sup>*
          (queue_start linux_abi sample_cfg 1 sample_net_dev) s
     \<and> posted s = map fst (completed s)
         @ todo linux_abi (memory (q_dev s)) (avail sample_cfg ! 1) (processed (q_dev s) ! 1)"
  using net_queue_exactly_once [OF abi_ok_linux sample_rings(2), of sample_net_dev 16384 linux_net_abi
      sample_slirp "queue_start linux_abi sample_cfg 1 sample_net_dev"]
  by (auto simp: sample_net_dev_def)

end
