(* ===== verification/Net_Run.thy ===== *)
theory Net_Run
  imports Virtio_Net
begin

text \<open>
  The network device under \<^verbatim>\<open>device_loop\<close>: receive and transmit queue in one loop, over any number of
  rounds, with the driver and the arrival of packets in between.
\<close>

lemma num_queues_net [simp]: "num_queues (net_backend N S) = 2"
  by (simp add: net_backend_def)

section \<open>One round\<close>

text \<open>What \<open>ring_advanced\<close> says of a queue, as a delivery.\<close>

lemma ring_advanced_waiting:
  "ring_advanced A cfg q d i n d' \<Longrightarrow> waiting A cfg q d' = tl (waiting A cfg q d)"
  by (simp add: ring_advanced_def waiting_def)

lemma net_round_lemma:
  assumes A: "abi_ok A" and N: "net_abi_ok N" and apart: "rings_apart cfg 2" and len: "2 \<le> length (processed d)"
    and idle: "\<not> header_processed (dclass d)"
    and rx: "waiting A cfg 0 d = i # is" "chain_of 16384 A cfg 0 (memory d) i = Some [(p, l)]"
      "span (unat p) (12 + PACKET_SIZE) \<inter> (all_rings cfg 2 \<union> span (unat f) (unat fl)) = {}"
    and pkt: "ready S (myslirp (dclass d))" "recv S (myslirp (dclass d)) PACKET_SIZE = (Some pkt, st)"
      "pkt \<noteq> []" "length pkt \<le> PACKET_SIZE" "unat p + 12 + length pkt \<le> VIEW"
    and tx: "waiting A cfg 1 d = j # js" "chain_of 16384 A cfg 1 (memory d) j = Some [(ph, 12), (f, fl)]"
      "unat fl \<le> PACKET_SIZE" "unat f + unat fl \<le> VIEW" "span (unat f) (unat fl) \<inter> all_rings cfg 2 = {}"
  shows "\<exists>d'. service_all 16384 A (net_backend N S) cfg [0..<2] d = Inr d'
     \<and> peek (memory d') (unat p) (12 + length pkt) = hdr_bytes (peek (memory d) (unat p) 12) @ pkt
     \<and> myslirp (dclass d') = snd (send S st (peek (memory d) (unat f) (unat fl)))
     \<and> waiting A cfg 0 d' = is \<and> waiting A cfg 1 d' = js
     \<and> used_elem A (memory d') (used cfg ! 0) (used_count A (memory d) (used cfg ! 0)) = (ucast i, l)
     \<and> used_elem A (memory d') (used cfg ! 1) (used_count A (memory d) (used cfg ! 1)) = (ucast j, 12 + fl)
     \<and> interrupt_register d' = interrupt_register d
          @ [push_bit (interrupt_number cfg - 5) 1, 0, push_bit (interrupt_number cfg - 5) 1, 0]"
proof -
  have l0: "0 < length (processed d)" using len by linarith
  have ok: "rings_ok cfg 0" "rings_ok cfg 1" using rings_apart_ok [OF apart] by simp_all
  let ?rx = "span (unat p) (12 + length pkt)" and ?U = "\<lambda>q. used_region (used cfg ! q)"
  have big: "?rx \<subseteq> span (unat p) (12 + PACKET_SIZE)" using pkt(4) by (intro span_mono) simp_all
  have rings: "ring_region cfg 0 \<subseteq> all_rings cfg 2" "ring_region cfg 1 \<subseteq> all_rings cfg 2"
    by (simp_all add: ring_in_all)
  have ap: "span (unat p) (12 + PACKET_SIZE) \<inter> ring_region cfg 0 = {}" using rx(3) rings(1) by blast
  obtain d1 where d1: "service_queue 16384 A (net_backend N S) cfg 0 d = Inr d1"
    "peek (memory d1) (unat p) (12 + length pkt) = hdr_bytes (peek (memory d) (unat p) 12) @ pkt"
    "same_on (- (?rx \<union> ?U 0)) (memory d) (memory d1)" "ring_advanced A cfg 0 d i l d1"
    "myslirp (dclass d1) = st"
    using net_receive_lemma [OF A N ok(1) l0 rx(1) [unfolded waiting_def] rx(2) [unfolded chain_of_def] ap
        pkt(1) idle pkt(2-5)] by blast
  have keep: "length (processed d1) = length (processed d)" "processed d1 ! 1 = processed d ! 1"
    using service_queue_others [OF d1(1)] by simp_all
  have "ring_region cfg 1 \<inter> ?U 0 = {}" using apart by (simp add: rings_apart_def less_2_cases_iff)
  then have "ring_region cfg 1 \<subseteq> - (?rx \<union> ?U 0)" using rx(3) big rings(2) by blast
  then have ring1: "same_on (ring_region cfg 1) (memory d) (memory d1)" by (rule same_on_subset [OF d1(3)])
  have "waiting A cfg 1 d1 = j # js" using waiting_frame [OF A ring1 keep(2)] tx(1) by simp
  moreover have "chain_of 16384 A cfg 1 (memory d1) j = Some [(ph, 12), (f, fl)]"
    using chain_at_same [OF A same_on_subset [OF ring1 ring_regions(1)]] tx(2) by (simp add: chain_of_def)
  ultimately obtain d' where d': "service_queue 16384 A (net_backend N S) cfg 1 d1 = Inr d'"
    "myslirp (dclass d') = snd (send S st (peek (memory d1) (unat f) (unat fl)))"
    "same_on (- ?U 1) (memory d1) (memory d')" "ring_advanced A cfg 1 d1 j (12 + fl) d'"
    using net_transmit_lemma [OF A N ok(2), of d1 j js ph f fl S] len d1(5) keep(1) tx(3,4)
    by (auto simp: waiting_def chain_of_def)
  have "span (unat f) (unat fl) \<subseteq> - (?rx \<union> ?U 0)"
    using rx(3) tx(5) big rings(1) ring_regions(3) [of cfg 0] by blast
  then have frame: "peek (memory d1) (unat f) (unat fl) = peek (memory d) (unat f) (unat fl)"
    by (rule same_on_peek [OF d1(3)])
  have "?rx \<subseteq> - ?U 1" using rx(3) big rings(2) ring_regions(3) [of cfg 1] by blast
  then have buf: "peek (memory d') (unat p) (12 + length pkt) = peek (memory d1) (unat p) (12 + length pkt)"
    by (rule same_on_peek [OF d'(3)])
  have all: "service_all 16384 A (net_backend N S) cfg [0..<2] d = Inr d'"
    using d1(1) d'(1) by (simp add: numeral_2_eq_2)
  have "ring_region cfg 0 \<inter> ?U 1 = {}" using apart by (simp add: rings_apart_def less_2_cases_iff)
  then have "same_on (ring_region cfg 0) (memory d1) (memory d')" by (intro same_on_subset [OF d'(3)]) blast
  note ring0 = this same_on_subset [OF this ring_regions(3)]
  have "waiting A cfg 0 d' = waiting A cfg 0 d1"
    by (rule waiting_frame [OF A ring0(1)]) (simp add: service_queue_others [OF d'(1)])
  moreover have "used_elem A (memory d1) (used cfg ! 0) (used_count A (memory d) (used cfg ! 0)) = (ucast i, l)"
    using d1(4) by (simp add: ring_advanced_def)
  ultimately show ?thesis
    using all buf d1(2) d'(2) frame d1(4) d'(4) rx(1) tx(1) \<open>waiting A cfg 1 d1 = j # js\<close>
      used_same [OF A ring0(2)] used_same(1) [OF A same_on_subset [OF ring1 ring_regions(3)]]
    by (intro exI [of _ d']) (simp add: ring_advanced_waiting, simp add: ring_advanced_def)
qed

text \<open>One round of the network device moves a packet each way: the packet that has arrived is in the
  posted receive buffer behind its header, the posted frame is with the network stack byte for byte,
  and each queue has put its head into its own used ring, with one interrupt for each.\<close>

theorem net_round_serves:
  assumes A: "abi_ok A" and N: "net_abi_ok N" and apart: "rings_apart cfg 2" and len: "2 \<le> length (processed d)"
    and idle: "\<not> header_processed (dclass d)"
    and rx: "waiting A cfg 0 d = i # is" "chain_of 16384 A cfg 0 (memory d) i = Some [(p, l)]"
      "span (unat p) (12 + PACKET_SIZE) \<inter> (all_rings cfg 2 \<union> span (unat f) (unat fl)) = {}"
    and pkt: "ready S (myslirp (dclass d))" "recv S (myslirp (dclass d)) PACKET_SIZE = (Some pkt, st)"
      "pkt \<noteq> []" "length pkt \<le> PACKET_SIZE" "unat p + 12 + length pkt \<le> VIEW"
    and tx: "waiting A cfg 1 d = j # js" "chain_of 16384 A cfg 1 (memory d) j = Some [(ph, 12), (f, fl)]"
      "unat fl \<le> PACKET_SIZE" "unat f + unat fl \<le> VIEW" "span (unat f) (unat fl) \<inter> all_rings cfg 2 = {}"
  shows "\<exists>d'. service_all 16384 A (net_backend N S) cfg [0..<2] d = Inr d'
     \<and> peek (memory d') (unat p) (12 + length pkt) = hdr_bytes (peek (memory d) (unat p) 12) @ pkt
     \<and> myslirp (dclass d') = snd (send S st (peek (memory d) (unat f) (unat fl)))
     \<and> waiting A cfg 0 d' = is \<and> waiting A cfg 1 d' = js
     \<and> used_elem A (memory d') (used cfg ! 0) (used_count A (memory d) (used cfg ! 0)) = (ucast i, l)
     \<and> used_elem A (memory d') (used cfg ! 1) (used_count A (memory d) (used cfg ! 1)) = (ucast j, 12 + fl)
     \<and> interrupt_register d' = interrupt_register d
          @ [push_bit (interrupt_number cfg - 5) 1, 0, push_bit (interrupt_number cfg - 5) 1, 0]"
  using assms by (rule net_round_lemma)

section \<open>Every run\<close>

text \<open>C7: in every run of the network device's loop, with a driver that posts well-formed chains and
  leaves the used rings alone, each of the two queues serves every posted head exactly once and in
  order: what was posted is what has been completed followed by what still waits, and the queue's
  used ring, read from where it stood at the start, holds the completed heads with their byte counts.
  Neither queue disturbs the other, whatever the packets that arrive.\<close>

theorem net_loop_exactly_once:
  assumes "abi_ok A" "rings_apart cfg 2" "q < 2"
    and "device_loop fuel A (net_backend N S) cfg rs d = Inr x"
    and "driver_ok fuel A (net_backend N S) (net_reach N) cfg rs (d\<lparr>processed := [0, 0]\<rparr>)"
  shows "\<exists>cs. waiting A cfg q (d\<lparr>processed := [0, 0]\<rparr>)
                @ posts fuel A (net_backend N S) cfg q rs (d\<lparr>processed := [0, 0]\<rparr>)
               = map fst cs @ waiting A cfg q (run_end x)
     \<and> published A (memory (run_end x)) (used cfg ! q) (used_count A (memory d) (used cfg ! q))
          (used_entries cs)"
proof -
  have "replicate 2 (0 :: u16) = [0, 0]" by (simp add: numeral_2_eq_2)
  then show ?thesis
    using net.loop_exactly_once [of A cfg N S q fuel rs d x] assms by auto
qed

section \<open>A concrete round\<close>

lemma sample_net_waiting:
  "waiting linux_abi sample_cfg 0 sample_net_dev = [0]" "waiting linux_abi sample_cfg 1 sample_net_dev = [0]"
  unfolding waiting_def by (rule sample_net_todo)+

lemma sample_net_chain_of:
  "chain_of 16384 linux_abi sample_cfg 0 (memory sample_net_dev) 0 = Some [(0x31300000, 1526)]"
  "chain_of 16384 linux_abi sample_cfg 1 (memory sample_net_dev) 0 = Some [(0x32300000, 12), (0x32301000, 64)]"
  unfolding chain_of_def by (rule sample_net_chains)+

lemma all_rings_2: "all_rings cfg 2 = ring_region cfg 0 \<union> ring_region cfg 1"
  by (auto simp: all_rings_def less_2_cases_iff)

lemma sample_net_apart:
  "span 0x31300000 (12 + PACKET_SIZE) \<inter> (all_rings sample_cfg 2 \<union> span 0x32301000 64) = {}"
  "span 0x32301000 64 \<inter> all_rings sample_cfg 2 = {}"
  by (auto simp: all_rings_2 ring_region_def table_region_def avail_region_def used_region_def sample_cfg_def
      PACKET_SIZE_def)

lemma sample_net_small: "2 \<le> length (processed sample_net_dev)" "\<not> header_processed (dclass sample_net_dev)"
  "ready sample_slirp (myslirp (dclass sample_net_dev))"
  "recv sample_slirp (myslirp (dclass sample_net_dev)) PACKET_SIZE = (Some [1, 2, 3], [], [])"
  by (simp_all add: sample_net_dev_def sample_slirp_def PACKET_SIZE_def)

theorem net_round_serves_witness:
  "\<exists>d'. service_all 16384 linux_abi (net_backend linux_net_abi sample_slirp) sample_cfg [0..<2] sample_net_dev = Inr d'
     \<and> snd (myslirp (dclass d')) = [peek sample_net_guest 0x32301000 64]
     \<and> waiting linux_abi sample_cfg 0 d' = [] \<and> waiting linux_abi sample_cfg 1 d' = []"
proof -
  have "\<exists>d'. service_all 16384 linux_abi (net_backend linux_net_abi sample_slirp) sample_cfg [0..<2] sample_net_dev = Inr d'
     \<and> myslirp (dclass d') = snd (send sample_slirp ([], []) (peek (memory sample_net_dev) 0x32301000 64))
     \<and> waiting linux_abi sample_cfg 0 d' = [] \<and> waiting linux_abi sample_cfg 1 d' = []"
    using net_round_serves [OF abi_ok_linux net_abi_ok_linux sample_rings_apart(2) sample_net_small(1,2)
        sample_net_waiting(1) sample_net_chain_of(1) _ sample_net_small(3,4) _ _ _ sample_net_waiting(2)
        sample_net_chain_of(2)] sample_net_apart
    by (auto simp: PACKET_SIZE_def VIEW_def)
  then show ?thesis by (auto simp: sample_net_dev_def sample_slirp_def)
qed

lemma sample_net_chains_ok:
  "chains_ok 16384 linux_abi (net_backend linux_net_abi sample_slirp) (net_reach linux_net_abi) sample_cfg 2 sample_net_dev"
proof -
  let ?ok = "\<lambda>q. chain_ok 16384 linux_abi (net_backend linux_net_abi sample_slirp) (net_reach linux_net_abi) sample_cfg 2 q
      (memory sample_net_dev) 0"
  have "span 0x31300000 (12 + PACKET_SIZE) \<inter> all_rings sample_cfg 2 = {}" using sample_net_apart(1) by blast
  then have "?ok 0"
    using net_abi_ok_linux unfolding chain_ok_def sample_net_chain_of(1)
    by (simp add: ops_apart_def net_reach_def)
  moreover have "?ok 1"
    using net_abi_ok_linux unfolding chain_ok_def sample_net_chain_of(2)
    by (simp add: ops_apart_def net_reach_def)
  ultimately have "?ok q" if "q < 2" for q using that by (auto simp: less_2_cases_iff)
  then show ?thesis using sample_net_waiting by (auto simp: chains_ok_def less_2_cases_iff)
qed

lemma driver_act_refl: "driver_act A cfg n d d"
  by (simp add: driver_act_def)

lemma sample_net_run:
  obtains d' where
    "device_loop 16384 linux_abi (net_backend linux_net_abi sample_slirp) sample_cfg [quiet] sample_net_dev = Inr (Inr d')"
    "service_all 16384 linux_abi (net_backend linux_net_abi sample_slirp) sample_cfg [0..<2] sample_net_dev = Inr d'"
    "waiting linux_abi sample_cfg 1 d' = []"
proof -
  let ?bk = "net_backend linux_net_abi sample_slirp"
  obtain d' where d': "service_all 16384 linux_abi ?bk sample_cfg [0..<2] sample_net_dev = Inr d'"
    "waiting linux_abi sample_cfg 1 d' = []"
    using net_round_lemma [OF abi_ok_linux net_abi_ok_linux sample_rings_apart(2) sample_net_small(1,2)
        sample_net_waiting(1) sample_net_chain_of(1) _ sample_net_small(3,4) _ _ _ sample_net_waiting(2)
        sample_net_chain_of(2)] sample_net_apart
    by (auto simp: PACKET_SIZE_def VIEW_def)
  have zero: "sample_net_dev\<lparr>processed := [0, 0]\<rparr> = sample_net_dev" by (simp add: sample_net_dev_def)
  have two: "replicate 2 (0 :: u16) = [0, 0]" by (simp add: numeral_2_eq_2)
  have run: "device_loop 16384 linux_abi ?bk sample_cfg [quiet] sample_net_dev = Inr (Inr d')"
    using d'(1) unfolding device_loop_def device_rounds_Cons by (simp add: two zero)
  show thesis by (rule that [OF run d'])
qed

theorem net_loop_exactly_once_witness:
  "\<exists>x. device_loop 16384 linux_abi (net_backend linux_net_abi sample_slirp) sample_cfg [quiet] sample_net_dev = Inr x
     \<and> (\<exists>cs. map fst cs = [0 :: u16] \<and> published linux_abi (memory (run_end x)) (used sample_cfg ! 1)
             (used_count linux_abi (memory sample_net_dev) (used sample_cfg ! 1)) (used_entries cs))"
proof -
  let ?bk = "net_backend linux_net_abi sample_slirp"
  have zero: "sample_net_dev\<lparr>processed := [0, 0]\<rparr> = sample_net_dev" by (simp add: sample_net_dev_def)
  obtain d' where run: "device_loop 16384 linux_abi ?bk sample_cfg [quiet] sample_net_dev = Inr (Inr d')"
    and d': "service_all 16384 linux_abi ?bk sample_cfg [0..<2] sample_net_dev = Inr d'"
      "waiting linux_abi sample_cfg 1 d' = []"
    by (rule sample_net_run)
  have drv: "driver_ok 16384 linux_abi ?bk (net_reach linux_net_abi) sample_cfg [quiet] (sample_net_dev\<lparr>processed := [0, 0]\<rparr>)"
    using d'(1) sample_net_chains_ok by (simp add: zero driver_act_refl)
  have posts: "posts 16384 linux_abi ?bk sample_cfg 1 [quiet] sample_net_dev = []"
    using d'(1) by (simp add: new_heads_def)
  have "1 < (2 :: nat)" by simp
  from net_loop_exactly_once [OF abi_ok_linux sample_rings_apart(2) this run drv] obtain cs where cs:
    "waiting linux_abi sample_cfg 1 sample_net_dev @ posts 16384 linux_abi ?bk sample_cfg 1 [quiet] sample_net_dev
       = map fst cs @ waiting linux_abi sample_cfg 1 (run_end (Inr d'))"
    "published linux_abi (memory (run_end (Inr d'))) (used sample_cfg ! 1)
       (used_count linux_abi (memory sample_net_dev) (used sample_cfg ! 1)) (used_entries cs)"
    unfolding zero by blast
  have "map fst cs = [0]" using cs(1) unfolding posts run_end_simps d'(2) sample_net_waiting(2) by simp
  then show ?thesis using run cs(2) by (intro exI [of _ "Inr d'"] conjI exI [of _ cs])
qed

end
