(* ===== verification/Concurrent_Driver.thy ===== *)
theory Concurrent_Driver
  imports Live_Queue Disk_Run Net_Run
begin

text \<open>
  Disk and network device beside a running driver (\<^verbatim>\<open>console/disk.hpp\<close>, \<^verbatim>\<open>console/network.hpp\<close> under
  \<^verbatim>\<open>device_loop\<close>): the classes keep to the memory they are given, so that a service taken access by
  access (\<open>Service_Steps\<close>) is a service at once.
\<close>

section \<open>The two device classes\<close>

text \<open>What each function of the disk looks at and changes: the data of a request is moved by what its
  header says.\<close>

definition blk_needs :: "blk_abi \<Rightarrow> blk \<Rightarrow> chain_op \<Rightarrow> nat \<Rightarrow> u64 \<Rightarrow> u64 \<Rightarrow> nat set" where
  "blk_needs B b c q p l =
     (case c of
        O_Start \<Rightarrow> {}
      | O_Data \<Rightarrow> span (unat p) (unat l)
          \<union> (case req b of None \<Rightarrow> {}
             | Some r \<Rightarrow> span (unat r + hdr_type B) 4 \<union> span (unat r + hdr_sector B) 8)
      | O_Complete \<Rightarrow> span (unat p) 1)"

lemma blk_local:
  assumes op: "run_op (blk_backend B) c q p l (b, m) = Inr (b', m1)" and same: "same_on (blk_needs B b c q p l) m m'"
  shows "\<exists>m1'. run_op (blk_backend B) c q p l (b, m') = Inr (b', m1') \<and> same_on (blk_reach c q p l) m1 m1'"
proof (cases c)
  case O_Start
  then show ?thesis using op
    by (auto simp: run_op_def blk_backend_def blk_start_def blk_reach_def res_simps same_on_def)
next
  case O_Complete
  then show ?thesis using op
    by (auto simp: run_op_def blk_backend_def blk_complete_def blk_reach_def res_simps same_on_def poke_def)
next
  case O_Data
  note op = op [unfolded O_Data, simplified run_op_def blk_backend_def, simplified]
  obtain r where r: "req b = Some r" using op by (cases "req b") (auto simp: blk_data_def Let_def res_simps)
  have sub: "span (unat p) (unat l) \<subseteq> blk_needs B b c q p l" "span (unat r + hdr_type B) 4 \<subseteq> blk_needs B b c q p l"
    "span (unat r + hdr_sector B) 8 \<subseteq> blk_needs B b c q p l"
    by (auto simp: blk_needs_def O_Data r)
  note v = same_on_peek [OF same sub(1)] same_on_vals(2) [OF same sub(2)] same_on_vals(3) [OF same sub(3)]
  have "same_on (span (unat p) (unat l)) m m'" by (rule same_on_subset [OF same sub(1)])
  then show ?thesis using op r v
    by (auto simp: O_Data run_op_def blk_backend_def blk_data_def blk_reach_def Let_def res_simps bindR_Inr_iff
        same_on_def poke_def split: if_splits)
qed

lemma blk_reach_needed: "blk_reach c q p l \<subseteq> blk_needs B b c q p l"
  by (cases c) (auto simp: blk_reach_def blk_needs_def)

interpretation blk_live: local_backend "blk_backend B" blk_reach "blk_needs B" for B
  by unfold_locales (rule blk_reach_needed, rule blk_local)

text \<open>The network device: on the transmit queue it looks at the frame, behind the header when that is in
  the same buffer.\<close>

definition net_needs :: "net_abi \<Rightarrow> 's net \<Rightarrow> chain_op \<Rightarrow> nat \<Rightarrow> u64 \<Rightarrow> u64 \<Rightarrow> nat set" where
  "net_needs N b c q p l =
     (if \<not> net_abi_ok N then UNIV
      else if q = 0 then net_reach N c q p l
      else if c = O_Complete then span (unat (if header_processed b then p else p + net_hdr_size N)) (unat l)
      else {})"

lemma net_start_local:
  assumes N: "net_abi_ok N" and op: "net_start N q p l (b, m) = Inr (b', m1)"
    and same: "q = 0 \<Longrightarrow> same_on (span (unat p) 12) m m'"
  obtains bs where "m1 = poke m (unat p) bs" "net_start N q p l (b, m') = Inr (b', poke m' (unat p) bs)"
proof (cases "q = 0")
  case False
  then show thesis using op that [of "[]"] by (simp add: net_start_def Let_def)
next
  case True
  then have b: "write_hdr N (unat p) m = Inr m1" "b' = b\<lparr>header_processed := True\<rparr>"
    using op by (auto simp: net_start_def Let_def res_simps)
  note w = write_hdr_Inr [OF N b(1)]
  have "peek m' (unat p) 12 = peek m (unat p) 12" by (rule same_on_peek [OF same [OF True]]) simp
  then show thesis using that [of "hdr_bytes (peek m (unat p) 12)"] w b(2) write_hdr_ok [OF N w(1), of m'] True
    by (simp add: net_start_def Let_def)
qed

lemma net_receive_local:
  assumes "net_receive S p (b, m) = Inr (b', m1)"
  obtains bs where "m1 = poke m (unat p) bs" "net_receive S p (b, m') = Inr (b', poke m' (unat p) bs)"
proof (cases "recv S (myslirp b) PACKET_SIZE")
  case (Pair o' st)
  show thesis
  proof (cases "o' = None \<or> o' = Some []")
    case True
    then show thesis using that [of "[]"] assms Pair by (auto simp: net_receive_def Let_def res_simps)
  next
    case False
    then obtain pkt where "o' = Some pkt" "pkt \<noteq> []" by auto
    then show thesis using that [of pkt] assms Pair by (auto simp: net_receive_def Let_def res_simps)
  qed
qed

lemma net_complete_local:
  assumes N: "net_abi_ok N" and op: "net_complete N S q p l (b, m) = Inr (b', m1)"
    and same: "same_on (net_needs N b O_Complete q p l) m m'"
  shows "\<exists>m1'. net_complete N S q p l (b, m') = Inr (b', m1') \<and> same_on (net_reach N O_Complete q p l) m1 m1'"
proof -
  let ?start = "\<lambda>m. if \<not> header_processed b then bindR (net_start N q p l (b, m)) (\<lambda>s1. Inr (p + net_hdr_size N, s1))
          else Inr (p, b, m)"
  let ?run = "\<lambda>a s. if q = 0 then net_receive S a s else if q = 1 then net_transmit S a l s else Inr s"
  have compl: "net_complete N S q p l (b, m) = bindR (?start m) (\<lambda>(a, s). bindR (?run a s) (\<lambda>s2.
      Inr ((fst s2)\<lparr>header_processed := False\<rparr>, snd s2)))" for m by (simp add: net_complete_def)
  obtain a b1 m2 b2 where s1: "?start m = Inr (a, b1, m2)" and s2: "?run a (b1, m2) = Inr (b2, m1)"
    and b': "b' = b2\<lparr>header_processed := False\<rparr>"
    using op unfolding compl by (fastforce simp: bindR_Inr_iff split: prod.splits)
  have hdr: "q = 0 \<Longrightarrow> same_on (span (unat p) 12) m m'"
    by (rule same_on_subset [OF same]) (use N in \<open>auto simp: net_needs_def net_reach_def\<close>)
  have a: "a = (if header_processed b then p else p + net_hdr_size N)" using s1 by (auto simp: bindR_Inr_iff split: if_splits)
  obtain bs where bs: "m2 = poke m (unat p) bs" "?start m' = Inr (a, b1, poke m' (unat p) bs)" "q \<noteq> 0 \<Longrightarrow> m2 = m"
  proof (cases "header_processed b")
    case True
    then show thesis using s1 that [of "[]"] by simp
  next
    case False
    then have st: "net_start N q p l (b, m) = Inr (b1, m2)" using s1 by (auto simp: bindR_Inr_iff)
    from net_start_local [OF N st hdr] obtain bs where
      "m2 = poke m (unat p) bs" "net_start N q p l (b, m') = Inr (b1, poke m' (unat p) bs)" by blast
    then show thesis using False a net_start_frame [OF N st] by (intro that [of bs]) (auto split: if_splits)
  qed
  show ?thesis
  proof (cases "q = 0")
    case True
    then obtain bs' where "m1 = poke m2 (unat a) bs'"
      "net_receive S a (b1, poke m' (unat p) bs) = Inr (b2, poke (poke m' (unat p) bs) (unat a) bs')"
      using net_receive_local s2 by (metis (no_types, lifting))
    then show ?thesis unfolding compl bs(2) using True same N bs(1) b'
      by (simp add: same_on_poke2 net_needs_def)
  next
    case False
    have "?run a (b1, poke m' (unat p) bs) = Inr (b2, poke m' (unat p) bs)"
    proof (cases "q = 1")
      case True
      have "same_on (net_needs N b O_Complete q p l) m (poke m' (unat p) bs)"
        using same same_on_poke2 [OF same, of "unat p" bs] bs(1) bs(3) [OF False] by simp
      then have "peek (poke m' (unat p) bs) (unat a) (unat l) = peek m (unat a) (unat l)"
        by (rule same_on_peek) (use False N a in \<open>simp add: net_needs_def\<close>)
      then show ?thesis using s2 True bs(3) by (auto simp: net_transmit_def res_simps)
    next
      case False
      with \<open>q \<noteq> 0\<close> show ?thesis using s2 by simp
    qed
    then show ?thesis unfolding compl bs(2) using False N b' by (auto simp: net_reach_def same_on_def)
  qed
qed

lemma net_local:
  assumes op: "run_op (net_backend N S) c q p l (b, m) = Inr (b', m1)" and same: "same_on (net_needs N b c q p l) m m'"
  shows "\<exists>m1'. run_op (net_backend N S) c q p l (b, m') = Inr (b', m1') \<and> same_on (net_reach N c q p l) m1 m1'"
proof (cases "net_abi_ok N")
  case False
  then have "m' = m" using same by (auto simp: net_needs_def same_on_def)
  then show ?thesis using op by auto
next
  case N: True
  show ?thesis
  proof (cases c)
    case O_Start
    then have start: "net_start N q p l (b, m) = Inr (b', m1)" using op by (simp add: run_op_def net_backend_def)
    have "q = 0 \<Longrightarrow> same_on (span (unat p) 12) m m'" using same N O_Start by (simp add: net_needs_def net_reach_def)
    from net_start_local [OF N start this] obtain bs where
      "m1 = poke m (unat p) bs" "net_start N q p l (b, m') = Inr (b', poke m' (unat p) bs)" by blast
    then show ?thesis using same N O_Start
      by (auto simp: run_op_def net_backend_def net_needs_def net_reach_def intro!: same_on_poke2 split: if_splits)
  next
    case O_Data
    then show ?thesis using op N by (auto simp: run_op_def net_backend_def net_data_def net_reach_def same_on_def)
  next
    case O_Complete
    then show ?thesis using net_complete_local [OF N] op same by (simp add: run_op_def net_backend_def)
  qed
qed

lemma net_reach_needed: "net_reach N c q p l \<subseteq> net_needs N b c q p l"
  by (auto simp: net_reach_def net_needs_def)

interpretation net_live: local_backend "net_backend N S" "net_reach N" "net_needs N" for N S
  by unfold_locales (rule net_reach_needed, rule net_local)

section \<open>A disk request beside the driver\<close>

text \<open>The bytes the driver has handed over with a request: its three descriptors, its header and its
  buffers, its slot of the available ring, and the used ring.\<close>

definition request_bytes :: "vring_abi \<Rightarrow> devcfg \<Rightarrow> blk dev \<Rightarrow> u16 \<Rightarrow> disk_request \<Rightarrow> nat set" where
  "request_bytes A cfg d i r =
     chain_descs 3 A (memory d) (desc cfg ! 0) i \<union> span (unat (rq_header r)) 16 \<union> rq_buffers r
     \<union> span (avail_slot A (avail cfg ! 0) (processed d ! 0)) 2 \<union> used_region (used cfg ! 0)"

definition handed_over :: "vring_abi \<Rightarrow> blk_abi \<Rightarrow> devcfg \<Rightarrow> blk dev \<Rightarrow> u16 \<Rightarrow> disk_request \<Rightarrow> bool" where
  "handed_over A B cfg d i r \<longleftrightarrow>
     abi_ok A \<and> blk_abi_ok B \<and> rings_ok cfg 0 \<and> 0 < length (processed d)
     \<and> waiting A cfg 0 d \<noteq> [] \<and> hd (waiting A cfg 0 d) = i
     \<and> chain_of 16384 A cfg 0 (memory d) i = Some (rq_chain r)
     \<and> request_ok B (dclass d) (memory d) r \<and> rq_buffers r \<inter> ring_region cfg 0 = {}"

lemma disk_handed:
  assumes h: "handed_over A B cfg d i r"
  shows "chain_handed 16384 A (blk_backend B) blk_reach (blk_needs B) cfg 0 (request_bytes A cfg d i r) d i (rq_chain r)"
proof -
  let ?bk = "blk_backend B" and ?H = "request_bytes A cfg d i r"
  note h = h [unfolded handed_over_def]
  have B: "blk_abi_ok B" and r: "request_ok B (dclass d) (memory d) r" using h by simp_all
  have ops: "chain_ops (queue_header_size ?bk) 0 (rq_chain r)
      = [(O_Start, rq_header r, 16), (O_Data, rq_data r, rq_len r), (O_Complete, rq_status r, rq_status_len r)]"
    unfolding rq_chain_def by (rule blk_chain_ops [OF B])
  have len: "length (rq_chain r) = 3" by (simp add: rq_chain_def)
  have sub: "span (unat (rq_header r)) 16 \<subseteq> ?H" "rq_buffers r \<subseteq> ?H" by (auto simp: request_bytes_def)
  have start: "run_op ?bk O_Start 0 (rq_header r) 16 (dclass d, memory d) = Inr ((dclass d)\<lparr>req := Some (rq_header r)\<rparr>, memory d)"
    by (simp add: run_op_def blk_backend_def blk_start_def)
  have "span (unat (rq_header r) + hdr_type B) 4 \<subseteq> span (unat (rq_header r)) 16"
    "span (unat (rq_header r) + hdr_sector B) 8 \<subseteq> span (unat (rq_header r)) 16"
    using B by (intro span_mono; simp add: blk_abi_ok_def)+
  then have "ops_within ?bk (blk_needs B) 0 ?H (chain_ops (queue_header_size ?bk) 0 (rq_chain r)) (dclass d, memory d)"
    unfolding ops using sub start
    by (auto simp: blk_needs_def rq_buffers_def subset_iff split: sum.splits)
  moreover have "ops_apart blk_reach 0 (ring_region cfg 0) (chain_ops (queue_header_size ?bk) 0 (rq_chain r))"
    unfolding ops using h by (auto simp: ops_apart_def blk_reach_def rq_buffers_def)
  moreover have "queue_has_data ?bk 0 (dclass d)" by (simp add: blk_backend_def blk_has_data_def)
  moreover have "chain_descs (length (rq_chain r)) A (memory d) (desc cfg ! 0) i \<subseteq> ?H"
    "span (avail_slot A (avail cfg ! 0) (processed d ! 0)) 2 \<subseteq> ?H" "used_region (used cfg ! 0) \<subseteq> ?H"
    unfolding len by (auto simp: request_bytes_def)
  ultimately show ?thesis using h blk_ops_exec [OF B r] unfolding chain_handed_def by blast
qed

lemma disk_ahead:
  assumes h: "handed_over A B cfg d i r"
  defines "e \<equiv> disk_exec B r (mapped_data (dclass d), memory d)"
  shows "ahead A (blk_backend B) (blk_needs B) cfg 0 (processed d ! 0) (request_bytes A cfg d i r)
      ((dclass d)\<lparr>req := Some (rq_header r), mapped_data := fst e\<rparr>,
       publish A (used cfg ! 0) i (chain_len (rq_chain r)) (snd e)) 3 Load_Idx (dclass d, memory d)"
proof -
  note H = h [unfolded handed_over_def]
  have A: "abi_ok A" and B: "blk_abi_ok B" and ok: "rings_ok cfg 0" "0 < length (processed d)"
    and r: "request_ok B (dclass d) (memory d) r" using H by simp_all
  have "length (rq_chain r) = 3" by (simp add: rq_chain_def)
  then show ?thesis
    using blk_live.handed_ahead [OF A ok disk_handed [OF h]] blk_ops_exec [OF B r] by (auto simp: e_def)
qed

lemma handed_over_idx:
  "handed_over A B cfg d i r \<Longrightarrow> val16 (memory d) (unat (avail cfg ! 0) + avail_idx A) \<noteq> processed d ! 0"
  using todo_Nil_iff by (auto simp: handed_over_def waiting_def)

lemma request_bytes_used: "used_region (used cfg ! 0) \<subseteq> request_bytes A cfg d i r"
  by (auto simp: request_bytes_def)

lemma disk_run_completes:
  assumes h: "handed_over A B cfg d i r"
    and run: "svc_run A (blk_backend B) cfg 0 (processed d ! 0) (request_bytes A cfg d i r) (dclass d, memory d) k (c, b, m)"
  shows "\<exists>k' b' m'. svc_run A (blk_backend B) cfg 0 (processed d ! 0) (request_bytes A cfg d i r)
      (dclass d, memory d) k' (Finished, b', m') \<and> same_on (- request_bytes A cfg d i r) m m'"
  by (rule blk_live.svc_run_completes [OF _ request_bytes_used handed_over_idx [OF h] disk_ahead [OF h] run])
    (use h in \<open>simp add: handed_over_def\<close>)

text \<open>What every run of the disk's service and the driver comes to.\<close>

lemma disk_beside_driver:
  assumes h: "handed_over A B cfg d i r"
    and run: "svc_run A (blk_backend B) cfg 0 (processed d ! 0) (request_bytes A cfg d i r) (dclass d, memory d) k (c, b, m)"
  defines "e \<equiv> disk_exec B r (mapped_data (dclass d), memory d)" and "u \<equiv> used_count A (memory d) (used cfg ! 0)"
  shows "k \<le> 20" "c \<noteq> Nothing_To_Do"
    "c \<noteq> Finished \<Longrightarrow> \<exists>c' b' m'. access A (blk_backend B) cfg 0 (processed d ! 0) c (b, m) = Inr (c', b', m')
       \<and> same_on (- request_bytes A cfg d i r) m m'"
    "c = Finished \<Longrightarrow> mapped_data b = fst e \<and> same_on (rq_buffers r) (snd e) m
       \<and> used_count A m (used cfg ! 0) = u + 1 \<and> used_elem A m (used cfg ! 0) u = (ucast i, completion r)"
proof -
  let ?H = "request_bytes A cfg d i r" and ?U = "used cfg ! 0"
  have A: "abi_ok A" and B: "blk_abi_ok B" and apart: "rq_buffers r \<inter> ring_region cfg 0 = {}"
    using h by (simp_all add: handed_over_def)
  note safe = blk_live.svc_run_safe [OF A request_bytes_used handed_over_idx [OF h] disk_ahead [OF h] run]
  have sub: "rq_buffers r \<subseteq> ?H" by (auto simp: request_bytes_def)
  note pub = publish_reads [OF A, where U = ?U and i = i and n = "chain_len (rq_chain r)" and m = "snd e"]
  have "same_on (used_region ?U) (memory d) (snd e)"
    by (rule same_on_subset [OF disk_exec_frame [of r "memory d" B "mapped_data (dclass d)", folded e_def]])
      (use apart ring_regions(3) [of cfg 0] in blast)
  then have u: "used_count A (snd e) ?U = u" using used_same(1) [OF A] by (simp add: u_def)
  show "mapped_data b = fst e \<and> same_on (rq_buffers r) (snd e) m \<and> used_count A m ?U = u + 1
      \<and> used_elem A m ?U u = (ucast i, completion r)" if "c = Finished"
  proof -
    have F: "b = (dclass d)\<lparr>req := Some (rq_header r), mapped_data := fst e\<rparr>"
      "same_on ?H (publish A ?U i (chain_len (rq_chain r)) (snd e)) m"
      using safe(4) [OF that] by (simp_all add: e_def)
    have "rq_buffers r \<subseteq> - used_region ?U" using apart ring_regions(3) [of cfg 0] by blast
    then have "same_on (rq_buffers r) (snd e) m"
      using same_on_trans [OF same_on_subset [OF pub(4)] same_on_subset [OF F(2)]] sub by blast
    moreover note used_same [OF A same_on_subset [OF F(2) request_bytes_used]]
    moreover have "ucast (chain_len (rq_chain r)) = completion r"
      using ucast_chain_len by (simp only: rq_chain_def completion_def)
    ultimately show ?thesis using F(1) pub(1,3) u by simp
  qed
  show "\<exists>c' b' m'. access A (blk_backend B) cfg 0 (processed d ! 0) c (b, m) = Inr (c', b', m') \<and> same_on (- ?H) m m'"
    if "c \<noteq> Finished" using safe(3) [OF that] by force
  show "k \<le> 20" "c \<noteq> Nothing_To_Do" using safe(1,2) by simp_all
qed

text \<open>C5: a disk request is served beside a running driver. While the device serves a request that the
  driver has handed over, one load, store or call at a time, the driver may change the rest of
  guest memory between any two of them (post further requests, move the available index on, use its
  other buffers). Whatever it does, the device finds something to do, takes no more than 20 such steps,
  faults at none of them and changes nothing but the bytes handed over; when it is done, image and
  buffers are what the abstract disk makes of the request as it was posted, and the used ring has
  its head and byte count.\<close>

theorem disk_serves_beside_driver:
  assumes "handed_over A B cfg d i r"
    and "svc_run A (blk_backend B) cfg 0 (processed d ! 0) (request_bytes A cfg d i r) (dclass d, memory d) k (c, b, m)"
  defines "e \<equiv> disk_exec B r (mapped_data (dclass d), memory d)" and "u \<equiv> used_count A (memory d) (used cfg ! 0)"
  shows "k \<le> 20 \<and> c \<noteq> Nothing_To_Do
     \<and> (c \<noteq> Finished \<longrightarrow> (\<exists>c' b' m'. access A (blk_backend B) cfg 0 (processed d ! 0) c (b, m) = Inr (c', b', m')
          \<and> same_on (- request_bytes A cfg d i r) m m'))
     \<and> (c = Finished \<longrightarrow> mapped_data b = fst e \<and> same_on (rq_buffers r) (snd e) m
          \<and> used_count A m (used cfg ! 0) = u + 1 \<and> used_elem A m (used cfg ! 0) u = (ucast i, completion r))"
  using disk_beside_driver [OF assms(1,2)] unfolding e_def u_def by blast

text \<open>A write of 512 bytes, during which the driver posts a third head.\<close>

lemma chain_descs_table: "abi_ok A \<Longrightarrow> chain_descs f A m D i \<subseteq> table_region D"
proof (induction f arbitrary: i)
  case (Suc f)
  have "span (desc_at A D i) 16 \<subseteq> table_region D" using desc_region [OF Suc.prems, of 0 16 D i] by simp
  then show ?case using Suc by (simp add: Let_def)
qed simp

abbreviation first_request :: disk_request where
  "first_request \<equiv> hd two_requests"

lemma first_request_handed: "handed_over linux_abi linux_blk_abi sample_cfg two_dev 0 first_request"
proof -
  have "first_request \<in> set two_requests" by (simp add: two_requests_def)
  moreover have "chain_of 16384 linux_abi sample_cfg 0 (memory two_dev) 0 = Some (rq_chain first_request)"
    using two_chains(1) by (simp add: two_requests_def rq_chain_def two_dev_def)
  moreover have "rings_ok sample_cfg 0" by (rule rings_apart_ok [OF sample_rings_apart(1)]) simp
  moreover have "0 < length (processed two_dev)" by (simp add: two_dev_def)
  ultimately show ?thesis
    using two_waiting_requests two_waiting abi_ok_linux blk_abi_ok_linux
    by (simp add: handed_over_def waiting_requests_def)
qed

lemma first_request_bytes: "span 0x31100002 2 \<inter> request_bytes linux_abi sample_cfg two_dev 0 first_request = {}"
proof -
  have "span 0x31100002 2 \<inter> table_region (desc sample_cfg ! 0) = {}"
    by (auto simp: table_region_def sample_cfg_def)
  then have "span 0x31100002 2 \<inter> chain_descs 3 linux_abi (memory two_dev) (desc sample_cfg ! 0) 0 = {}"
    using chain_descs_table [OF abi_ok_linux] by blast
  moreover have "span 0x31100002 2 \<inter> span (avail_slot linux_abi (avail sample_cfg ! 0) (processed two_dev ! 0)) 2 = {}"
    by (auto simp: avail_slot_def sample_cfg_def linux_abi_def two_dev_def)
  ultimately show ?thesis
    by (auto simp: request_bytes_def two_requests_def rq_buffers_def used_region_def sample_cfg_def)
qed

text \<open>The write request, during which the driver posts the head 0 once more.\<close>

lemma posting_run:
  obtains k b m where
    "svc_run linux_abi (blk_backend linux_blk_abi) sample_cfg 0 (processed two_dev ! 0)
       (request_bytes linux_abi sample_cfg two_dev 0 first_request) (dclass two_dev, memory two_dev) k (Finished, b, m)"
    "val16 m 0x31100002 = 3" "todo linux_abi m (avail sample_cfg ! 0) (processed two_dev ! 0) = [0, 3, 0]"
proof -
  let ?H = "request_bytes linux_abi sample_cfg two_dev 0 first_request"
  let ?m = "poke (memory two_dev) 0x31100002 (bytes16 3)"
  let ?run = "svc_run linux_abi (blk_backend linux_blk_abi) sample_cfg 0 (processed two_dev ! 0) ?H (dclass two_dev, memory two_dev)"
  have at: "unat (avail sample_cfg ! 0) + avail_idx linux_abi = 0x31100002" "processed two_dev ! 0 = 0"
    by (simp_all add: sample_cfg_def linux_abi_def two_dev_def)
  have keep: "same_on ?H (memory two_dev) ?m" by (rule same_on_poke) (use first_request_bytes in simp)
  then have "driver_keeps linux_abi sample_cfg 0 (processed two_dev ! 0) ?H (memory two_dev) ?m"
    unfolding driver_keeps_def at by (simp add: mem_simps)
  then have "?run 0 (Load_Idx, dclass two_dev, ?m)" by (rule svc_driver [OF svc_start])
  from disk_run_completes [OF first_request_handed this] obtain k b m where
    run: "?run k (Finished, b, m)" and same: "same_on (- ?H) ?m m" by blast
  have "val16 m 0x31100002 = val16 ?m 0x31100002"
    by (rule same_on_vals(1) [OF same]) (use first_request_bytes in blast)
  then have idx: "val16 m 0x31100002 = 3" by (simp add: mem_simps)
  have ok: "rings_ok sample_cfg 0" "0 < length (processed two_dev)"
    using first_request_handed by (simp_all add: handed_over_def)
  have "same_on (avail_region (avail sample_cfg ! 0)) ?m m"
    by (rule same_after_driver [OF blk_live.handed_avail [OF abi_ok_linux ok disk_handed [OF first_request_handed] run] keep same])
  then have "todo linux_abi m (avail sample_cfg ! 0) (processed two_dev ! 0)
      = todo linux_abi ?m (avail sample_cfg ! 0) (processed two_dev ! 0)" by (rule todo_same [OF abi_ok_linux])
  also have "\<dots> = [0, 3, 0]"
  proof -
    have "val16 two_guest' 0x31100008 = 0" by (simp add: two_guest'_def two_guest_def mem_simps)
    then show ?thesis
      by (simp add: todo_def avail_at_def at sample_cfg_def linux_abi_def two_dev_def two_guest_reads queue_size_def
          upt_rec mem_simps)
  qed
  finally show thesis by (rule that [OF run idx])
qed

theorem disk_serves_beside_driver_witness:
  "\<exists>k b m. svc_run linux_abi (blk_backend linux_blk_abi) sample_cfg 0 (processed two_dev ! 0)
        (request_bytes linux_abi sample_cfg two_dev 0 first_request) (dclass two_dev, memory two_dev) k (Finished, b, m)
     \<and> k \<le> 20 \<and> val16 m 0x31100002 = 3 \<and> peek (mapped_data b) 1536 512 = replicate 512 7
     \<and> used_elem linux_abi m (used sample_cfg ! 0) 0 = (0, 528)"
proof -
  obtain k b m where run: "svc_run linux_abi (blk_backend linux_blk_abi) sample_cfg 0 (processed two_dev ! 0)
       (request_bytes linux_abi sample_cfg two_dev 0 first_request) (dclass two_dev, memory two_dev) k (Finished, b, m)"
    and idx: "val16 m 0x31100002 = 3" by (rule posting_run)
  have count: "used_count linux_abi (memory two_dev) (used sample_cfg ! 0) = 0"
    by (simp add: used_count_def sample_cfg_def linux_abi_def two_dev_def two_guest'_def two_guest_def mem_simps)
  have "fst (disk_exec linux_blk_abi first_request (mapped_data (dclass two_dev), memory two_dev))
      = poke (mapped_data sample_blk) 1536 (replicate 512 7)"
    by (simp add: two_requests_def disk_exec_def linux_blk_abi_def Let_def two_guest_reads two_dev_def)
  moreover have "completion first_request = 528" by (simp add: completion_def two_requests_def)
  ultimately show ?thesis
    using disk_serves_beside_driver [OF first_request_handed run] run idx
    unfolding count by (intro exI [of _ k] exI [of _ b] exI [of _ m]) (simp add: mem_simps)
qed

section \<open>A disk queue beside the driver\<close>

text \<open>The disk's queue is lossless at the grain of single accesses. Take any run in which the driver,
  between any two loads, stores or calls of the device, changes guest memory and posts further heads,
  and the device serves what has been handed over and skips its queue otherwise: every posted head
  is served exactly once and in order, the others still wait, and the used ring, read from where it
  stood at the start, holds the completed heads with their byte counts.\<close>

theorem disk_live_exactly_once:
  assumes "abi_ok A" "rings_ok cfg 0" "0 < length (processed d)"
    and "(live_step fuel A (blk_backend B) blk_reach (blk_needs B) cfg 0)\<^sup>*\<^sup>* (queue_start A cfg 0 d) s"
  shows "posted s = map fst (completed s) @ todo A (memory (q_dev s)) (avail cfg ! 0) (processed (q_dev s) ! 0)
         \<and> published A (memory (q_dev s)) (used cfg ! 0) (used_count A (memory d) (used cfg ! 0))
             (used_entries (completed s))"
  using assms by (rule blk_live.live_exactly_once)

theorem disk_live_exactly_once_witness:
  "\<exists>s. (live_step 16384 linux_abi (blk_backend linux_blk_abi) blk_reach (blk_needs linux_blk_abi) sample_cfg 0)\<^sup>*\<^sup>*
         (queue_start linux_abi sample_cfg 0 two_dev) s
     \<and> posted s = [0, 3, 0] \<and> completed s = [(0, 528)]
     \<and> published linux_abi (memory (q_dev s)) (used sample_cfg ! 0)
          (used_count linux_abi (memory two_dev) (used sample_cfg ! 0)) [(0, 528)]"
proof -
  let ?start = "queue_start linux_abi sample_cfg 0 two_dev"
  have start: "q_dev ?start = two_dev" "posted ?start = [0, 3]" "completed ?start = []"
    using two_waiting by (simp_all add: queue_start_def waiting_def)
  obtain k b m where run: "svc_run linux_abi (blk_backend linux_blk_abi) sample_cfg 0 (processed two_dev ! 0)
       (request_bytes linux_abi sample_cfg two_dev 0 first_request) (dclass two_dev, memory two_dev) k (Finished, b, m)"
    and todo: "todo linux_abi m (avail sample_cfg ! 0) (processed two_dev ! 0) = [0, 3, 0]"
    by (rule posting_run)
  have posts: "todo linux_abi m (avail sample_cfg ! 0) (processed (q_dev ?start) ! 0)
      = todo linux_abi (memory (q_dev ?start)) (avail sample_cfg ! 0) (processed (q_dev ?start) ! 0) @ [0]"
    using todo two_waiting start(1) by (simp add: waiting_def)
  let ?final = "?start\<lparr>q_dev := set_interrupt linux_abi sample_cfg ((q_dev ?start)\<lparr>memory := m, dclass := b,
        processed := (processed (q_dev ?start))[0 := processed (q_dev ?start) ! 0 + 1]\<rparr>),
      posted := posted ?start @ [0], completed := completed ?start @ [(0, ucast (chain_len (rq_chain first_request)))]\<rparr>"
  have step: "(live_step 16384 linux_abi (blk_backend linux_blk_abi) blk_reach (blk_needs linux_blk_abi) sample_cfg 0)\<^sup>*\<^sup>* ?start ?final"
    by (rule r_into_rtranclp, rule live_serve [OF _ _ posts], unfold start(1))
      (rule disk_handed [OF first_request_handed], rule run)
  have "ucast (chain_len (rq_chain first_request)) = completion first_request"
    using ucast_chain_len by (simp only: rq_chain_def completion_def)
  then have c: "completed ?final = [(0, 528)]" "posted ?final = [0, 3, 0]"
    using start by (simp_all add: completion_def two_requests_def)
  have ok: "rings_ok sample_cfg 0" "0 < length (processed two_dev)"
    using first_request_handed by (simp_all add: handed_over_def)
  have "published linux_abi (memory (q_dev ?final)) (used sample_cfg ! 0)
      (used_count linux_abi (memory two_dev) (used sample_cfg ! 0)) (used_entries (completed ?final))"
    by (rule conjunct2 [OF disk_live_exactly_once [OF abi_ok_linux ok step]])
  then have "published linux_abi (memory (q_dev ?final)) (used sample_cfg ! 0)
      (used_count linux_abi (memory two_dev) (used sample_cfg ! 0)) [(0, 528)]" unfolding c by simp
  with step c show ?thesis by blast
qed

section \<open>A receive buffer beside the driver\<close>

text \<open>The bytes handed over with a receive buffer at \<open>p\<close>: descriptor, slot and used ring, and of memory
  behind \<open>p\<close> the header and room for the largest packet, whatever the length in the descriptor.\<close>

definition receive_bytes :: "vring_abi \<Rightarrow> devcfg \<Rightarrow> 's net dev \<Rightarrow> u16 \<Rightarrow> u64 \<Rightarrow> nat set" where
  "receive_bytes A cfg d i p =
     chain_descs 1 A (memory d) (desc cfg ! 0) i \<union> span (unat p) (12 + PACKET_SIZE)
     \<union> span (avail_slot A (avail cfg ! 0) (processed d ! 0)) 2 \<union> used_region (used cfg ! 0)"

definition buffer_handed ::
  "vring_abi \<Rightarrow> net_abi \<Rightarrow> 's slirp \<Rightarrow> devcfg \<Rightarrow> 's net dev \<Rightarrow> u16 \<Rightarrow> u64 \<Rightarrow> u32 \<Rightarrow> u8 list \<Rightarrow> bool" where
  "buffer_handed A N S cfg d i p l pkt \<longleftrightarrow>
     abi_ok A \<and> net_abi_ok N \<and> rings_ok cfg 0 \<and> 0 < length (processed d)
     \<and> waiting A cfg 0 d \<noteq> [] \<and> hd (waiting A cfg 0 d) = i
     \<and> chain_of 16384 A cfg 0 (memory d) i = Some [(p, l)]
     \<and> span (unat p) (12 + PACKET_SIZE) \<inter> ring_region cfg 0 = {}
     \<and> ready S (myslirp (dclass d)) \<and> \<not> header_processed (dclass d)
     \<and> fst (recv S (myslirp (dclass d)) PACKET_SIZE) = Some pkt \<and> pkt \<noteq> [] \<and> length pkt \<le> PACKET_SIZE
     \<and> unat p + 12 + length pkt \<le> VIEW"

lemma receive_run:
  assumes h: "buffer_handed A N S cfg d i p l pkt"
  obtains b where "run_ops (net_backend N S) 0 (chain_ops (queue_header_size (net_backend N S)) 0 [(p, l)]) (dclass d, memory d)
      = Inr (b, poke (memory d) (unat p) (hdr_bytes (peek (memory d) (unat p) 12) @ pkt))"
    "myslirp b = snd (recv S (myslirp (dclass d)) PACKET_SIZE)" "\<not> header_processed b"
proof -
  note h = h [unfolded buffer_handed_def]
  let ?b = "(dclass d)\<lparr>header_processed := False, myslirp := snd (recv S (myslirp (dclass d)) PACKET_SIZE),
      buffer := pkt @ drop (length pkt) (buffer (dclass d))\<rparr>"
  have "recv S (myslirp (dclass d)) PACKET_SIZE = (Some pkt, snd (recv S (myslirp (dclass d)) PACKET_SIZE))"
    using h by (simp add: prod_eq_iff)
  then have "run_ops (net_backend N S) 0 (chain_ops (queue_header_size (net_backend N S)) 0 [(p, l)]) (dclass d, memory d)
      = Inr (?b, poke (memory d) (unat p) (hdr_bytes (peek (memory d) (unat p) 12) @ pkt))"
    unfolding net_single_op by (intro net_rx_op) (use h in simp_all)
  then show thesis by (rule that) simp_all
qed

lemma receive_handed:
  assumes h: "buffer_handed A N S cfg d i p l pkt"
  shows "chain_handed 16384 A (net_backend N S) (net_reach N) (net_needs N) cfg 0 (receive_bytes A cfg d i p) d i [(p, l)]"
proof -
  let ?bk = "net_backend N S" and ?H = "receive_bytes A cfg d i p"
  let ?ops = "chain_ops (queue_header_size ?bk) 0 [(p, l)]"
  note H = h [unfolded buffer_handed_def]
  have "ops_apart (net_reach N) 0 (ring_region cfg 0) ?ops" using H by (simp add: ops_apart_def net_reach_def)
  moreover have "queue_has_data ?bk 0 (dclass d)" using H by (simp add: net_backend_def net_has_data_def)
  moreover have "ops_within ?bk (net_needs N) 0 ?H ?ops (dclass d, memory d)"
    using H by (auto simp: net_needs_def net_reach_def receive_bytes_def split: sum.splits)
  moreover have len: "length [(p, l)] = 1" by simp
  have "chain_descs (length [(p, l)]) A (memory d) (desc cfg ! 0) i \<subseteq> ?H"
    "span (avail_slot A (avail cfg ! 0) (processed d ! 0)) 2 \<subseteq> ?H" "used_region (used cfg ! 0) \<subseteq> ?H"
    unfolding len by (auto simp: receive_bytes_def)
  ultimately show ?thesis using H receive_run [OF h] unfolding chain_handed_def by metis
qed

lemma receive_ahead:
  assumes h: "buffer_handed A N S cfg d i p l pkt"
  obtains b where "myslirp b = snd (recv S (myslirp (dclass d)) PACKET_SIZE)" "\<not> header_processed b"
    "ahead A (net_backend N S) (net_needs N) cfg 0 (processed d ! 0) (receive_bytes A cfg d i p)
        (b, publish A (used cfg ! 0) i (ucast l) (poke (memory d) (unat p) (hdr_bytes (peek (memory d) (unat p) 12) @ pkt)))
        1 Load_Idx (dclass d, memory d)"
proof -
  have A: "abi_ok A" "rings_ok cfg 0" "0 < length (processed d)" using h by (simp_all add: buffer_handed_def)
  obtain b where b: "run_ops (net_backend N S) 0 (chain_ops (queue_header_size (net_backend N S)) 0 [(p, l)]) (dclass d, memory d)
      = Inr (b, poke (memory d) (unat p) (hdr_bytes (peek (memory d) (unat p) 12) @ pkt))"
    "myslirp b = snd (recv S (myslirp (dclass d)) PACKET_SIZE)" "\<not> header_processed b" by (rule receive_run [OF h])
  from net_live.handed_ahead [OF A receive_handed [OF h]] show thesis
    using b by (intro that [of b]) auto
qed

text \<open>A packet that has arrived is delivered beside a running driver: in at most 10 steps, none of
  which faults or changes a byte that was not handed over, whatever the driver does to the rest of memory.\<close>

lemma net_receives_beside_driver:
  assumes h: "buffer_handed A N S cfg d i p l pkt"
    and run: "svc_run A (net_backend N S) cfg 0 (processed d ! 0) (receive_bytes A cfg d i p) (dclass d, memory d) k (c, b, m)"
  defines "u \<equiv> used_count A (memory d) (used cfg ! 0)"
  shows "k \<le> 10" "c \<noteq> Nothing_To_Do"
    "c \<noteq> Finished \<Longrightarrow> \<exists>x. access A (net_backend N S) cfg 0 (processed d ! 0) c (b, m) = Inr x
       \<and> fst x \<noteq> Nothing_To_Do \<and> same_on (- receive_bytes A cfg d i p) m (snd (snd x))"
    "c = Finished \<Longrightarrow> peek m (unat p) (12 + length pkt) = hdr_bytes (peek (memory d) (unat p) 12) @ pkt
       \<and> myslirp b = snd (recv S (myslirp (dclass d)) PACKET_SIZE)
       \<and> used_count A m (used cfg ! 0) = u + 1 \<and> used_elem A m (used cfg ! 0) u = (ucast i, l)"
proof -
  let ?H = "receive_bytes A cfg d i p" and ?U = "used cfg ! 0"
  let ?bs = "hdr_bytes (peek (memory d) (unat p) 12) @ pkt"
  let ?m = "poke (memory d) (unat p) ?bs"
  have A: "abi_ok A" and len: "length pkt \<le> PACKET_SIZE"
    and apart: "span (unat p) (12 + PACKET_SIZE) \<inter> ring_region cfg 0 = {}"
    using h by (simp_all add: buffer_handed_def)
  have U: "used_region ?U \<subseteq> ?H" by (simp add: receive_bytes_def)
  have idx: "val16 (memory d) (unat (avail cfg ! 0) + avail_idx A) \<noteq> processed d ! 0"
    using h todo_Nil_iff by (auto simp: buffer_handed_def waiting_def)
  obtain b' where b': "myslirp b' = snd (recv S (myslirp (dclass d)) PACKET_SIZE)"
    and ahd: "ahead A (net_backend N S) (net_needs N) cfg 0 (processed d ! 0) ?H
        (b', publish A ?U i (ucast l) ?m) 1 Load_Idx (dclass d, memory d)"
    by (rule receive_ahead [OF h])
  note safe = net_live.svc_run_safe [OF A U idx ahd run]
  show "k \<le> 10" "c \<noteq> Nothing_To_Do" using safe(1,2) by simp_all
  show "\<exists>x. access A (net_backend N S) cfg 0 (processed d ! 0) c (b, m) = Inr x
       \<and> fst x \<noteq> Nothing_To_Do \<and> same_on (- ?H) m (snd (snd x))" if "c \<noteq> Finished"
    by (rule safe(3) [OF that])
  have big: "span (unat p) (12 + length pkt) \<subseteq> span (unat p) (12 + PACKET_SIZE)" using len by (intro span_mono) simp_all
  have off: "span (unat p) (12 + PACKET_SIZE) \<subseteq> - used_region ?U" using apart ring_regions(3) [of cfg 0] by blast
  note pub = publish_reads [OF A, where U = ?U and i = i and n = "ucast l" and m = ?m]
  have "span (unat p) (length ?bs) \<inter> used_region ?U = {}" using big off by auto
  then have "used_count A ?m ?U = u" using used_same(1) [OF A same_on_poke] by (simp add: u_def)
  note pub = pub [unfolded this]
  show "peek m (unat p) (12 + length pkt) = ?bs \<and> myslirp b = snd (recv S (myslirp (dclass d)) PACKET_SIZE)
       \<and> used_count A m ?U = u + 1 \<and> used_elem A m ?U u = (ucast i, l)" if "c = Finished"
  proof -
    have F: "b = b'" "same_on ?H (publish A ?U i (ucast l) ?m) m" using safe(4) [OF that] by simp_all
    have "span (unat p) (12 + length pkt) \<subseteq> ?H" using big by (auto simp: receive_bytes_def)
    then have "peek m (unat p) (12 + length pkt) = peek (publish A ?U i (ucast l) ?m) (unat p) (12 + length pkt)"
      by (rule same_on_peek [OF F(2)])
    also have "\<dots> = peek ?m (unat p) (12 + length pkt)"
      by (rule same_on_peek [OF pub(4)]) (use big off in blast)
    also have "\<dots> = ?bs" by (rule peek_poke_same) simp
    finally show ?thesis
      using used_same [OF A same_on_subset [OF F(2) U]] pub(1,3) b' F(1) ucast_u32_id [of l] by simp
  qed
qed

end
