(* ===== verification/Two_Devices.thy ===== *)
theory Two_Devices
  imports Concurrent_Driver
begin

text \<open>
  Two device threads at once (\<^verbatim>\<open>disk_main\<close> and \<^verbatim>\<open>network_main\<close> of \<^verbatim>\<open>console/tt-bh-linux.cpp\<close>). Each
  services a queue of its own device in the memory they share with the driver; one access of any of the
  three follows another in any order. What one device guarantees, to change nothing but what was
  handed to it, is what the other relies on.
\<close>

section \<open>Runs of two services and the driver\<close>

inductive pair_run ::
  "vring_abi \<Rightarrow> 'a backend \<Rightarrow> devcfg \<Rightarrow> nat \<Rightarrow> u16 \<Rightarrow> nat set \<Rightarrow> 'b backend \<Rightarrow> devcfg \<Rightarrow> nat \<Rightarrow> u16 \<Rightarrow> nat set
     \<Rightarrow> 'a \<Rightarrow> 'b \<Rightarrow> mem \<Rightarrow> nat \<Rightarrow> nat \<Rightarrow> (svc_pc \<times> 'a) \<times> (svc_pc \<times> 'b) \<times> mem \<Rightarrow> bool"
  for A bk cfg q p H bk' cfg' q' p' H' a0 b0 m0 where
  pair_start: "pair_run A bk cfg q p H bk' cfg' q' p' H' a0 b0 m0 0 0 ((Load_Idx, a0), (Load_Idx, b0), m0)"
| pair_first: "pair_run A bk cfg q p H bk' cfg' q' p' H' a0 b0 m0 k k' ((c, a), y, m) \<Longrightarrow>
     c \<notin> {Finished, Nothing_To_Do} \<Longrightarrow> access A bk cfg q p c (a, m) = Inr (c1, a1, m1) \<Longrightarrow>
     pair_run A bk cfg q p H bk' cfg' q' p' H' a0 b0 m0 (Suc k) k' ((c1, a1), y, m1)"
| pair_second: "pair_run A bk cfg q p H bk' cfg' q' p' H' a0 b0 m0 k k' (x, (c, b), m) \<Longrightarrow>
     c \<notin> {Finished, Nothing_To_Do} \<Longrightarrow> access A bk' cfg' q' p' c (b, m) = Inr (c1, b1, m1) \<Longrightarrow>
     pair_run A bk cfg q p H bk' cfg' q' p' H' a0 b0 m0 k (Suc k') (x, (c1, b1), m1)"
| pair_driver: "pair_run A bk cfg q p H bk' cfg' q' p' H' a0 b0 m0 k k' (x, y, m) \<Longrightarrow>
     driver_keeps A cfg q p H m m1 \<Longrightarrow> driver_keeps A cfg' q' p' H' m m1 \<Longrightarrow>
     pair_run A bk cfg q p H bk' cfg' q' p' H' a0 b0 m0 k k' (x, y, m1)"

text \<open>The two have been given different bytes, and the available indices stay the driver's.\<close>

definition bytes_apart :: "vring_abi \<Rightarrow> devcfg \<Rightarrow> nat \<Rightarrow> nat set \<Rightarrow> devcfg \<Rightarrow> nat \<Rightarrow> nat set \<Rightarrow> bool" where
  "bytes_apart A cfg q H cfg' q' H' \<longleftrightarrow>
     H \<inter> H' = {} \<and> span (unat (avail cfg ! q) + avail_idx A) 2 \<inter> H' = {}
     \<and> span (unat (avail cfg' ! q') + avail_idx A) 2 \<inter> H = {}"

lemma bytes_apart_sym: "bytes_apart A cfg q H cfg' q' H' \<Longrightarrow> bytes_apart A cfg' q' H' cfg q H"
  by (auto simp: bytes_apart_def)

lemma others_keep:
  assumes "bytes_apart A cfg q H cfg' q' H'" "same_on (- H) m m1"
  shows "driver_keeps A cfg' q' p' H' m m1"
proof -
  have "same_on H' m m1" by (rule same_on_subset [OF assms(2)]) (use assms(1) in \<open>auto simp: bytes_apart_def\<close>)
  moreover have "val16 m1 (unat (avail cfg' ! q') + avail_idx A) = val16 m (unat (avail cfg' ! q') + avail_idx A)"
    by (rule same_on_vals(1) [OF assms(2)]) (use assms(1) in \<open>auto simp: bytes_apart_def\<close>)
  ultimately show ?thesis by (simp add: driver_keeps_def)
qed

section \<open>Each sees the other as a driver\<close>

text \<open>A service as far as its thread is concerned: started on what the driver has handed over, it would end in \<open>F\<close>.\<close>

definition started ::
  "vring_abi \<Rightarrow> 'b backend \<Rightarrow> ('b \<Rightarrow> chain_op \<Rightarrow> nat \<Rightarrow> u64 \<Rightarrow> u64 \<Rightarrow> nat set) \<Rightarrow> devcfg \<Rightarrow> nat \<Rightarrow> u16 \<Rightarrow> nat set
     \<Rightarrow> 'b \<times> mem \<Rightarrow> nat \<Rightarrow> 'b \<Rightarrow> mem \<Rightarrow> bool" where
  "started A bk needs cfg q p H F n b m \<longleftrightarrow>
     used_region (used cfg ! q) \<subseteq> H \<and> val16 m (unat (avail cfg ! q) + avail_idx A) \<noteq> p
     \<and> ahead A bk needs cfg q p H F n Load_Idx (b, m)"

context local_backend
begin

lemma started_safe:
  assumes "abi_ok A" "started A bk needs cfg q p H F n b0 m0" "svc_run A bk cfg q p H (b0, m0) k (c, b, m)"
  shows "k \<le> 5 * n + 5" "c \<noteq> Nothing_To_Do" "c = Finished \<Longrightarrow> b = fst F \<and> same_on H (snd F) m"
    "c \<noteq> Finished \<Longrightarrow> \<exists>c' b' m'. access A bk cfg q p c (b, m) = Inr (c', b', m') \<and> same_on (- H) m m'"
  using svc_run_safe [OF assms(1) _ _ _ assms(3), where F = F and fuel = n] assms(2)
  unfolding started_def by (blast, blast, blast, fastforce)

end

locale device_pair =
  fst: local_backend bk reach needs + snd: local_backend bk' reach' needs'
  for bk :: "'a backend" and reach needs and bk' :: "'b backend" and reach' needs'
begin

lemma pair_projects:
  assumes A: "abi_ok A" and ap: "bytes_apart A cfg q H cfg' q' H'"
    and st: "started A bk needs cfg q p H F n a0 m0" "started A bk' needs' cfg' q' p' H' F' n' b0 m0"
  shows "pair_run A bk cfg q p H bk' cfg' q' p' H' a0 b0 m0 k k' ((c, a), (c', b), m) \<Longrightarrow>
    svc_run A bk cfg q p H (a0, m0) k (c, a, m) \<and> svc_run A bk' cfg' q' p' H' (b0, m0) k' (c', b, m)"
proof (induction k k' "((c, a), (c', b), m)" arbitrary: c a c' b m rule: pair_run.induct)
  case pair_start
  show ?case by (intro conjI svc_start)
next
  case (pair_first k k' c a m c1 a1 m1)
  then have run: "svc_run A bk cfg q p H (a0, m0) k (c, a, m)" "svc_run A bk' cfg' q' p' H' (b0, m0) k' (c', b, m)" by blast+
  then have "same_on (- H) m m1" using fst.started_safe(4) [OF A st(1) run(1)] pair_first(3,4) by auto
  then show ?case
    using svc_device [OF run(1) pair_first(3,4)] svc_driver [OF run(2) others_keep [OF ap]] by blast
next
  case (pair_second k k' c' b m c1 b1 m1)
  then have run: "svc_run A bk cfg q p H (a0, m0) k (c, a, m)" "svc_run A bk' cfg' q' p' H' (b0, m0) k' (c', b, m)" by blast+
  then have "same_on (- H') m m1" using snd.started_safe(4) [OF A st(2) run(2)] pair_second(3,4) by auto
  then show ?case
    using svc_device [OF run(2) pair_second(3,4)] svc_driver [OF run(1) others_keep [OF bytes_apart_sym [OF ap]]] by blast
next
  case (pair_driver k k' m m1)
  then have "svc_run A bk cfg q p H (a0, m0) k (c, a, m)" "svc_run A bk' cfg' q' p' H' (b0, m0) k' (c', b, m)" by blast+
  from svc_driver [OF this(1)] svc_driver [OF this(2)] show ?case using pair_driver(3,4) by blast
qed

lemma pair_completes:
  assumes A: "abi_ok A" and ap: "bytes_apart A cfg q H cfg' q' H'"
    and st: "started A bk needs cfg q p H F n a0 m0" "started A bk' needs' cfg' q' p' H' F' n' b0 m0"
  shows "pair_run A bk cfg q p H bk' cfg' q' p' H' a0 b0 m0 k k' ((c, a), (c', b), m) \<Longrightarrow>
    \<exists>l l' a1 b1 m1. pair_run A bk cfg q p H bk' cfg' q' p' H' a0 b0 m0 l l' ((Finished, a1), (Finished, b1), m1)"
proof (induction "(5 * n + 5 - k) + (5 * n' + 5 - k')" arbitrary: k k' c a c' b m rule: less_induct)
  case less
  note run = pair_projects [OF A ap st less.prems]
  note s1 = fst.started_safe [OF A st(1) conjunct1 [OF run]]
  note s2 = snd.started_safe [OF A st(2) conjunct2 [OF run]]
  consider "c = Finished" "c' = Finished" | "c \<noteq> Finished" | "c' \<noteq> Finished" by blast
  then show ?case
  proof cases
    case 1
    then show ?thesis using less.prems by blast
  next
    case 2
    then obtain c1 a1 m1 where "access A bk cfg q p c (a, m) = Inr (c1, a1, m1)" using s1(4) by blast
    then have next1: "pair_run A bk cfg q p H bk' cfg' q' p' H' a0 b0 m0 (Suc k) k' ((c1, a1), (c', b), m1)"
      using pair_first [OF less.prems] 2 s1(2) by blast
    have "Suc k \<le> 5 * n + 5" using fst.started_safe(1) [OF A st(1) conjunct1 [OF pair_projects [OF A ap st next1]]] .
    then show ?thesis by (intro less.hyps [OF _ next1]) linarith
  next
    case 3
    then obtain c1 b1 m1 where "access A bk' cfg' q' p' c' (b, m) = Inr (c1, b1, m1)" using s2(4) by blast
    then have next1: "pair_run A bk cfg q p H bk' cfg' q' p' H' a0 b0 m0 k (Suc k') ((c, a), (c1, b1), m1)"
      using pair_second [OF less.prems] 3 s2(2) by blast
    have "Suc k' \<le> 5 * n' + 5" using snd.started_safe(1) [OF A st(2) conjunct2 [OF pair_projects [OF A ap st next1]]] .
    then show ?thesis by (intro less.hyps [OF _ next1]) linarith
  qed
qed

end

interpretation disk_net: device_pair "blk_backend B" blk_reach "blk_needs B" "net_backend N S" "net_reach N" "net_needs N"
  for B N S ..

lemma handed_over_abi: "handed_over A B cfg d i r \<Longrightarrow> abi_ok A"
  by (simp add: handed_over_def)

lemma disk_started:
  assumes "handed_over A B cfg d i r"
  shows "started A (blk_backend B) (blk_needs B) cfg 0 (processed d ! 0) (request_bytes A cfg d i r)
      ((dclass d)\<lparr>req := Some (rq_header r), mapped_data := fst (disk_exec B r (mapped_data (dclass d), memory d))\<rparr>,
       publish A (used cfg ! 0) i (chain_len (rq_chain r)) (snd (disk_exec B r (mapped_data (dclass d), memory d)))) 3
      (dclass d) (memory d)"
  unfolding started_def using request_bytes_used handed_over_idx [OF assms] disk_ahead [OF assms] by blast

lemma net_started:
  assumes h: "buffer_handed A N S cfg d i p l pkt"
  obtains F where "started A (net_backend N S) (net_needs N) cfg 0 (processed d ! 0) (receive_bytes A cfg d i p) F 1
      (dclass d) (memory d)"
proof -
  have "used_region (used cfg ! 0) \<subseteq> receive_bytes A cfg d i p" by (auto simp: receive_bytes_def)
  moreover have "val16 (memory d) (unat (avail cfg ! 0) + avail_idx A) \<noteq> processed d ! 0"
    using h todo_Nil_iff by (auto simp: buffer_handed_def waiting_def)
  ultimately show thesis using receive_ahead [OF h] that unfolding started_def by blast
qed

section \<open>Disk and network beside each other\<close>

text \<open>C6: disk and network serve beside each other. Both threads run over the same guest memory, with the
  driver; a request has been handed to the disk and a buffer to the network device, a packet is there,
  and the bytes handed to the two are apart. In whatever order the accesses of the three follow one
  another, neither device faults or sees the other's work: the disk takes no more than 20 steps and does what
  the abstract disk makes of the request as it was posted, the network device takes no more than 10 and
  delivers the packet behind its header, and each publishes its head with the byte count.\<close>

theorem devices_beside_each_other:
  assumes "handed_over A B cfg d i r" "buffer_handed A N S cfg' d' i' p l pkt" "memory d' = memory d"
    and "bytes_apart A cfg 0 (request_bytes A cfg d i r) cfg' 0 (receive_bytes A cfg' d' i' p)"
    and "pair_run A (blk_backend B) cfg 0 (processed d ! 0) (request_bytes A cfg d i r)
      (net_backend N S) cfg' 0 (processed d' ! 0) (receive_bytes A cfg' d' i' p)
      (dclass d) (dclass d') (memory d) k k' ((c, b), (c', b'), m)"
  defines "e \<equiv> disk_exec B r (mapped_data (dclass d), memory d)" and "u \<equiv> used_count A (memory d) (used cfg ! 0)"
    and "u' \<equiv> used_count A (memory d) (used cfg' ! 0)"
  shows "k \<le> 20 \<and> k' \<le> 10
     \<and> (c \<noteq> Finished \<longrightarrow> (\<exists>x. access A (blk_backend B) cfg 0 (processed d ! 0) c (b, m) = Inr x))
     \<and> (c' \<noteq> Finished \<longrightarrow> (\<exists>x. access A (net_backend N S) cfg' 0 (processed d' ! 0) c' (b', m) = Inr x))
     \<and> (c = Finished \<longrightarrow> mapped_data b = fst e \<and> same_on (rq_buffers r) (snd e) m
          \<and> used_count A m (used cfg ! 0) = u + 1 \<and> used_elem A m (used cfg ! 0) u = (ucast i, completion r))
     \<and> (c' = Finished \<longrightarrow> peek m (unat p) (12 + length pkt) = hdr_bytes (peek (memory d) (unat p) 12) @ pkt
          \<and> myslirp b' = snd (recv S (myslirp (dclass d')) PACKET_SIZE)
          \<and> used_count A m (used cfg' ! 0) = u' + 1 \<and> used_elem A m (used cfg' ! 0) u' = (ucast i', l))"
proof -
  obtain F where "started A (net_backend N S) (net_needs N) cfg' 0 (processed d' ! 0) (receive_bytes A cfg' d' i' p) F 1
      (dclass d') (memory d)"
    by (rule net_started [OF assms(2), unfolded assms(3)])
  then have run: "svc_run A (blk_backend B) cfg 0 (processed d ! 0) (request_bytes A cfg d i r) (dclass d, memory d) k (c, b, m)"
    "svc_run A (net_backend N S) cfg' 0 (processed d' ! 0) (receive_bytes A cfg' d' i' p) (dclass d', memory d') k' (c', b', m)"
    using disk_net.pair_projects [OF handed_over_abi [OF assms(1)] assms(4) disk_started [OF assms(1)] _ assms(5)] assms(3)
    by simp_all
  note disk = disk_beside_driver [OF assms(1) run(1), folded e_def u_def]
    and net = net_receives_beside_driver [OF assms(2) run(2), unfolded assms(3), folded u'_def]
  show ?thesis using disk(1,3,4) net(1,3,4) by blast
qed

text \<open>The guest of \<open>two_dev\<close>, with a receive buffer posted to a network device of its own.\<close>

definition shared_guest :: mem where
  "shared_guest =
     poke (poke (poke two_guest' 0x33100002 (bytes16 1)) 0x33000000 (bytes64 0x400033300000)) 0x33000008 (bytes32 1526)"

definition nic_cfg :: devcfg where
  "nic_cfg = \<lparr>starting_address_of = 0x400030000000, interrupt_number = 34, desc = [0x33000000, 0x34000000],
     avail = [0x33100000, 0x34100000], used = [0x33200000, 0x34200000]\<rparr>"

definition shared_net :: "(u8 list list \<times> u8 list list) net dev" where
  "shared_net = \<lparr>memory = shared_guest, dclass = dclass sample_net_dev, processed = [0], interrupt_status = 0,
     interrupt_register = []\<rparr>"

lemma handed_over_same:
  assumes h: "handed_over A B cfg d i r"
    and same: "same_on (avail_region (avail cfg ! 0) \<union> table_region (desc cfg ! 0) \<union> span (unat (rq_header r)) 16) (memory d) m"
  shows "handed_over A B cfg (d\<lparr>memory := m\<rparr>) i r"
proof -
  note H = h [unfolded handed_over_def]
  have A: "abi_ok A" and B: "blk_abi_ok B" using H by simp_all
  have "waiting A cfg 0 (d\<lparr>memory := m\<rparr>) = waiting A cfg 0 d"
    unfolding waiting_def using todo_same [OF A same_on_subset [OF same]] by (simp add: Un_assoc)
  moreover have "chain_of 16384 A cfg 0 m i = Some (rq_chain r)"
    unfolding chain_of_def
    by (rule chain_at_held [OF A same]) (use H chain_descs_table [OF A] in \<open>force simp: chain_of_def\<close>)+
  moreover have "request_ok B (dclass d) m r"
  proof -
    have "span (unat (rq_header r) + hdr_type B) 4 \<subseteq> span (unat (rq_header r)) 16"
      "span (unat (rq_header r) + hdr_sector B) 8 \<subseteq> span (unat (rq_header r)) 16"
      using B by (intro span_mono; simp add: blk_abi_ok_def)+
    then have "val32 m (unat (rq_header r) + hdr_type B) = val32 (memory d) (unat (rq_header r) + hdr_type B)"
      "val64 m (unat (rq_header r) + hdr_sector B) = val64 (memory d) (unat (rq_header r) + hdr_sector B)"
      by (intro same_on_vals(2,3) [OF same]; blast)+
    then show ?thesis using H by (simp add: request_ok_def request_at_def)
  qed
  ultimately show ?thesis using H by (simp add: handed_over_def)
qed

lemma shared_request: "handed_over linux_abi linux_blk_abi sample_cfg (two_dev\<lparr>memory := shared_guest\<rparr>) 0 first_request"
proof (rule handed_over_same [OF first_request_handed])
  show "same_on (avail_region (avail sample_cfg ! 0) \<union> table_region (desc sample_cfg ! 0) \<union> span (unat (rq_header first_request)) 16)
      (memory two_dev) shared_guest"
    unfolding shared_guest_def two_dev_def dev.simps
    by (auto simp: same_on_def poke_def avail_region_def table_region_def span_def two_requests_def sample_cfg_def)
qed

lemma shared_buffer:
  "buffer_handed linux_abi linux_net_abi sample_slirp nic_cfg shared_net 0 0x33300000 1526 [1, 2, 3]"
proof -
  have reads: "val16 shared_guest 0x33100002 = 1" "val16 shared_guest 0x33100004 = 0" "val64 shared_guest 0x33000000 = 0x400033300000"
    "val32 shared_guest 0x33000008 = 1526" "val16 shared_guest 0x3300000C = 0"
    by (simp_all add: shared_guest_def two_guest'_def two_guest_def mem_simps)
  have w: "waiting linux_abi nic_cfg 0 shared_net = [0]"
    by (simp add: waiting_def shared_net_def todo_def avail_at_def nic_cfg_def linux_abi_def reads queue_size_def upt_rec)
  have "chain_of (Suc 0) linux_abi nic_cfg 0 shared_guest 0 = Some [(0x33300000, 1526)]"
    by (simp add: chain_of_def chain_at_Suc chain_more_def desc_at_def linux_abi_def reads queue_size_def guest_offset_def
        Let_def nic_cfg_def)
  then have c: "chain_of 16384 linux_abi nic_cfg 0 shared_guest 0 = Some [(0x33300000, 1526)]"
    unfolding chain_of_def by (auto elim: chain_at_fuel)
  have "rings_ok nic_cfg 0" by (auto simp: rings_ok_def nic_cfg_def VIEW_def used_region_def avail_region_def)
  then show ?thesis
    using w c abi_ok_linux net_abi_ok_linux
    by (auto simp: buffer_handed_def shared_net_def sample_net_dev_def sample_slirp_def PACKET_SIZE_def VIEW_def
        ring_region_def table_region_def avail_region_def used_region_def nic_cfg_def)
qed

lemma shared_bytes:
  "request_bytes linux_abi sample_cfg (two_dev\<lparr>memory := shared_guest\<rparr>) 0 first_request \<subseteq> {0x31000000..<0x32000000}"
  "receive_bytes linux_abi nic_cfg shared_net 0 0x33300000 \<subseteq> {0x33000000..<0x34000000}"
proof -
  have "chain_descs 3 linux_abi shared_guest (desc sample_cfg ! 0) 0 \<subseteq> {0x31000000..<0x32000000}"
    using chain_descs_table [OF abi_ok_linux] by (rule subset_trans) (auto simp: table_region_def sample_cfg_def)
  then show "request_bytes linux_abi sample_cfg (two_dev\<lparr>memory := shared_guest\<rparr>) 0 first_request \<subseteq> {0x31000000..<0x32000000}"
    by (auto simp: request_bytes_def two_dev_def avail_slot_def linux_abi_def sample_cfg_def two_requests_def rq_buffers_def
        used_region_def)
  have "chain_descs 1 linux_abi shared_guest (desc nic_cfg ! 0) 0 \<subseteq> {0x33000000..<0x34000000}"
    using chain_descs_table [OF abi_ok_linux] by (rule subset_trans) (auto simp: table_region_def nic_cfg_def)
  then show "receive_bytes linux_abi nic_cfg shared_net 0 0x33300000 \<subseteq> {0x33000000..<0x34000000}"
    by (auto simp: receive_bytes_def shared_net_def avail_slot_def linux_abi_def nic_cfg_def used_region_def PACKET_SIZE_def)
qed

lemma shared_apart:
  "bytes_apart linux_abi sample_cfg 0 (request_bytes linux_abi sample_cfg (two_dev\<lparr>memory := shared_guest\<rparr>) 0 first_request)
     nic_cfg 0 (receive_bytes linux_abi nic_cfg shared_net 0 0x33300000)"
proof -
  have "span (unat (avail sample_cfg ! 0) + avail_idx linux_abi) 2 \<subseteq> {0x31000000..<0x32000000}"
    "span (unat (avail nic_cfg ! 0) + avail_idx linux_abi) 2 \<subseteq> {0x33000000..<0x34000000}"
    by (auto simp: sample_cfg_def nic_cfg_def linux_abi_def)
  moreover have "{0x31000000..<0x32000000 :: nat} \<inter> {0x33000000..<0x34000000} = {}" by auto
  ultimately show ?thesis using shared_bytes unfolding bytes_apart_def by blast
qed

theorem devices_beside_each_other_witness:
  "\<exists>k k' b b' m. pair_run linux_abi (blk_backend linux_blk_abi) sample_cfg 0 0
        (request_bytes linux_abi sample_cfg (two_dev\<lparr>memory := shared_guest\<rparr>) 0 first_request)
        (net_backend linux_net_abi sample_slirp) nic_cfg 0 0 (receive_bytes linux_abi nic_cfg shared_net 0 0x33300000)
        (dclass two_dev) (dclass shared_net) shared_guest k k' ((Finished, b), (Finished, b'), m)
     \<and> used_elem linux_abi m (used sample_cfg ! 0) 0 = (0, 528) \<and> used_elem linux_abi m (used nic_cfg ! 0) 0 = (0, 1526)
     \<and> drop 12 (peek m 0x33300000 15) = [1, 2, 3]"
proof -
  let ?d = "two_dev\<lparr>memory := shared_guest\<rparr>"
  have at: "memory ?d = shared_guest" "dclass ?d = dclass two_dev" "processed ?d ! 0 = 0" "memory shared_net = shared_guest"
    "processed shared_net ! 0 = 0" by (simp_all add: two_dev_def shared_net_def)
  obtain F where st: "started linux_abi (net_backend linux_net_abi sample_slirp) (net_needs linux_net_abi) nic_cfg 0 0
      (receive_bytes linux_abi nic_cfg shared_net 0 0x33300000) F 1 (dclass shared_net) shared_guest"
    using net_started [OF shared_buffer] unfolding at by blast
  from disk_net.pair_completes [OF abi_ok_linux shared_apart disk_started [OF shared_request, unfolded at] st pair_start]
  obtain k k' b b' m where run: "pair_run linux_abi (blk_backend linux_blk_abi) sample_cfg 0 0
        (request_bytes linux_abi sample_cfg ?d 0 first_request)
        (net_backend linux_net_abi sample_slirp) nic_cfg 0 0 (receive_bytes linux_abi nic_cfg shared_net 0 0x33300000)
        (dclass two_dev) (dclass shared_net) shared_guest k k' ((Finished, b), (Finished, b'), m)" by blast
  have counts: "used_count linux_abi shared_guest (used sample_cfg ! 0) = 0" "used_count linux_abi shared_guest (used nic_cfg ! 0) = 0"
    by (simp_all add: used_count_def sample_cfg_def nic_cfg_def linux_abi_def shared_guest_def two_guest'_def two_guest_def mem_simps)
  have done': "completion first_request = 528" by (simp add: completion_def two_requests_def)
  have "memory shared_net = memory ?d" by (simp add: at)
  from devices_beside_each_other [OF shared_request shared_buffer this shared_apart, unfolded at, OF run] counts done'
  have "used_elem linux_abi m (used sample_cfg ! 0) 0 = (0, 528)" "used_elem linux_abi m (used nic_cfg ! 0) 0 = (0, 1526)"
    "peek m 0x33300000 15 = hdr_bytes (peek shared_guest 0x33300000 12) @ [1, 2, 3]" by simp_all
  then show ?thesis using run by (intro exI [of _ k] exI [of _ k'] exI [of _ b] exI [of _ b'] exI [of _ m]) simp
qed

end
