(* ===== verification/Thread_System.thy ===== *)
theory Thread_System
  imports Two_Devices
begin

text \<open>
  All device threads of the tool at once. Each runs \<open>device_loop\<close> (\<^verbatim>\<open>console/virtiodevice.hpp\<close>) over the
  queues of its own device, in the memory that all of them share with the driver; the loads, stores and
  calls of the threads and the driver's changes follow one another in any order. Seen from a single
  queue such a run is one of \<open>live_step\<close>: the other threads are part of the driver.
\<close>

section \<open>The threads\<close>

text \<open>The local state of a thread: its device class, \<open>processed\<close>, \<open>queue_idx\<close>, and, inside the
  body of the loop, the bytes handed over, \<open>desc_idx_first\<close>, its chain and the next access. What the
  driver has posted and the thread has completed, queue by queue, is recorded.\<close>

record 'b worker =
  w_class :: 'b
  w_processed :: "u16 list"
  w_queue :: nat
  w_busy :: "(nat set \<times> u16 \<times> (u64 \<times> u32) list \<times> svc_pc) option"
  w_posted :: "nat \<Rightarrow> u16 list"
  w_completed :: "nat \<Rightarrow> (u16 \<times> u32) list"

definition worker_dev :: "mem \<Rightarrow> 'b worker \<Rightarrow> 'b dev" where
  "worker_dev m w = \<lparr>memory = m, dclass = w_class w, processed = w_processed w, interrupt_status = 0, interrupt_register = []\<rparr>"

text \<open>The thread enters \<open>device_loop\<close>; it turns to the next queue, behind the last one to the first.\<close>

definition enter_loop :: "vring_abi \<Rightarrow> devcfg \<Rightarrow> mem \<Rightarrow> 'b backend \<Rightarrow> 'b \<Rightarrow> 'b worker" where
  "enter_loop A cfg m bk b =
     \<lparr>w_class = b, w_processed = replicate (num_queues bk) 0, w_queue = 0, w_busy = None,
      w_posted = (\<lambda>q. todo A m (avail cfg ! q) 0), w_completed = (\<lambda>_. [])\<rparr>"

definition next_queue :: "'b backend \<Rightarrow> 'b worker \<Rightarrow> 'b worker" where
  "next_queue bk w = w\<lparr>w_queue := (if w_queue w + 1 < num_queues bk then w_queue w + 1 else 0), w_busy := None\<rparr>"

definition finish_queue :: "'b backend \<Rightarrow> u16 \<Rightarrow> (u64 \<times> u32) list \<Rightarrow> 'b worker \<Rightarrow> 'b worker" where
  "finish_queue bk i ds w =
     next_queue bk
       (w\<lparr>w_processed := (w_processed w)[w_queue w := w_processed w ! w_queue w + 1],
          w_completed := (w_completed w)(w_queue w := w_completed w (w_queue w) @ [(i, ucast (chain_len ds))])\<rparr>)"

text \<open>The bytes of a chain lie in the view, apart from the rings of every other queue and from what
  the other threads hold.\<close>

definition held_apart :: "nat \<Rightarrow> (nat \<Rightarrow> 'b backend) \<Rightarrow> (nat \<Rightarrow> devcfg) \<Rightarrow> (nat \<Rightarrow> 'b worker) \<Rightarrow> nat \<Rightarrow> nat set \<Rightarrow> bool" where
  "held_apart n bk cfg w t H \<longleftrightarrow>
     H \<subseteq> {..<VIEW}
     \<and> (\<forall>u < n. \<forall>r < num_queues (bk u). (u, r) \<noteq> (t, w_queue (w t)) \<longrightarrow> H \<inter> ring_region (cfg u) r = {})
     \<and> (\<forall>u < n. \<forall>H' i ds c. u \<noteq> t \<longrightarrow> w_busy (w u) = Some (H', i, ds, c) \<longrightarrow> H \<inter> H' = {})"

text \<open>The driver posts heads to any queue of any device and changes memory as it likes, except the
  used rings and what is held; a packet may arrive at a device that is not at work.\<close>

definition driver_moves ::
  "vring_abi \<Rightarrow> 'b backend \<Rightarrow> devcfg \<Rightarrow> mem \<Rightarrow> mem \<Rightarrow> (nat \<Rightarrow> u16 list) \<Rightarrow> 'b worker \<Rightarrow> 'b worker \<Rightarrow> bool" where
  "driver_moves A bk cfg m m' hs w w' \<longleftrightarrow>
     (\<forall>q < num_queues bk. same_on (used_region (used cfg ! q)) m m'
        \<and> todo A m' (avail cfg ! q) (w_processed w ! q) = todo A m (avail cfg ! q) (w_processed w ! q) @ hs q)
     \<and> (case w_busy w of
          None \<Rightarrow> (\<exists>b. w' = w\<lparr>w_class := b, w_posted := (\<lambda>q. w_posted w q @ hs q)\<rparr>)
        | Some (H, _) \<Rightarrow> same_on H m m' \<and> w' = w\<lparr>w_posted := (\<lambda>q. w_posted w q @ hs q)\<rparr>)"

text \<open>The first load of a queue's body finds nothing to do (\<open>sys_pass\<close>), or a chain, which the driver has handed
  over whole (\<open>sys_take\<close>; a driver that posts anything else has no run here). Interrupts, which are raised
  on registers outside guest memory, are the subject of \<open>Interrupt_Line\<close>; the checks between two rounds only end the
  loop.\<close>

inductive system_step ::
  "nat \<Rightarrow> nat \<Rightarrow> vring_abi \<Rightarrow> (nat \<Rightarrow> 'b backend) \<Rightarrow> (nat \<Rightarrow> chain_op \<Rightarrow> nat \<Rightarrow> u64 \<Rightarrow> u64 \<Rightarrow> nat set)
     \<Rightarrow> (nat \<Rightarrow> 'b \<Rightarrow> chain_op \<Rightarrow> nat \<Rightarrow> u64 \<Rightarrow> u64 \<Rightarrow> nat set) \<Rightarrow> (nat \<Rightarrow> devcfg)
     \<Rightarrow> mem \<times> (nat \<Rightarrow> 'b worker) \<Rightarrow> mem \<times> (nat \<Rightarrow> 'b worker) \<Rightarrow> bool"
  for n fuel A bk reach needs cfg where
  sys_pass: "t < n \<Longrightarrow> w_busy (w t) = None \<Longrightarrow>
     access A (bk t) (cfg t) (w_queue (w t)) (w_processed (w t) ! w_queue (w t)) Load_Idx (w_class (w t), m)
       = Inr (Nothing_To_Do, s) \<Longrightarrow>
     system_step n fuel A bk reach needs cfg (m, w) (m, w(t := next_queue (bk t) (w t)))"
| sys_take: "t < n \<Longrightarrow> w_busy (w t) = None \<Longrightarrow>
     chain_handed fuel A (bk t) (reach t) (needs t) (cfg t) (w_queue (w t)) H (worker_dev m (w t)) i ds \<Longrightarrow>
     held_apart n bk cfg w t H \<Longrightarrow>
     system_step n fuel A bk reach needs cfg (m, w) (m, w(t := (w t)\<lparr>w_busy := Some (H, i, ds, Load_Idx)\<rparr>))"
| sys_access: "t < n \<Longrightarrow> w_busy (w t) = Some (H, i, ds, c) \<Longrightarrow> c \<noteq> Finished \<Longrightarrow>
     access A (bk t) (cfg t) (w_queue (w t)) (w_processed (w t) ! w_queue (w t)) c (w_class (w t), m) = Inr (c', b', m') \<Longrightarrow>
     system_step n fuel A bk reach needs cfg (m, w)
       (m', w(t := (w t)\<lparr>w_class := b', w_busy := Some (H, i, ds, c')\<rparr>))"
| sys_finish: "t < n \<Longrightarrow> w_busy (w t) = Some (H, i, ds, Finished) \<Longrightarrow>
     system_step n fuel A bk reach needs cfg (m, w) (m, w(t := finish_queue (bk t) i ds (w t)))"
| sys_driver: "(\<And>t. t < n \<Longrightarrow> driver_moves A (bk t) (cfg t) m m' (hs t) (w t) (w' t)) \<Longrightarrow>
     system_step n fuel A bk reach needs cfg (m, w) (m', w')"

section \<open>The device leaves its available ring alone\<close>

text \<open>What an operation needs, with the promise that it stays off \<open>R\<close>.\<close>

definition needs_off ::
  "(chain_op \<Rightarrow> nat \<Rightarrow> u64 \<Rightarrow> u64 \<Rightarrow> nat set) \<Rightarrow> ('b \<Rightarrow> chain_op \<Rightarrow> nat \<Rightarrow> u64 \<Rightarrow> u64 \<Rightarrow> nat set) \<Rightarrow> nat set
     \<Rightarrow> 'b \<Rightarrow> chain_op \<Rightarrow> nat \<Rightarrow> u64 \<Rightarrow> u64 \<Rightarrow> nat set" where
  "needs_off reach needs R b c q p l = needs b c q p l \<union> (if reach c q p l \<inter> R = {} then {} else UNIV)"

lemma needs_off_within:
  "H \<noteq> UNIV \<Longrightarrow> needs_off reach needs R b c q p l \<subseteq> H \<longleftrightarrow> needs b c q p l \<subseteq> H \<and> reach c q p l \<inter> R = {}"
  by (auto simp: needs_off_def)

lemma ops_within_off:
  "ops_within bk needs q H ops s \<Longrightarrow> ops_apart reach q R ops \<Longrightarrow> ops_within bk (needs_off reach needs R) q H ops s"
  by (induction bk needs q H ops s rule: ops_within.induct)
    (auto simp: ops_apart_def needs_off_def split: sum.splits)

context local_backend
begin

lemma off_local: "local_backend bk reach (needs_off reach needs R)"
proof unfold_locales
  show "reach c q p l \<subseteq> needs_off reach needs R b c q p l" if "run_op bk c q p l (b, m) = Inr x" for c q p l b m x
    using reach_needed [OF that] by (auto simp: needs_off_def)
  show "\<exists>m1'. run_op bk c q p l (b, m') = Inr (b', m1') \<and> same_on (reach c q p l) m1 m1'"
    if "run_op bk c q p l (b, m) = Inr (b', m1)" "same_on (needs_off reach needs R b c q p l) m m'" for c q p l b m b' m1 m'
    using op_local [OF that(1) same_on_subset [OF that(2)]] by (auto simp: needs_off_def)
qed

lemma access_off:
  assumes A: "abi_ok A" and ahd: "ahead A bk (needs_off reach needs R) cfg q p H F f c (b, mx)"
    and H: "H \<noteq> UNIV" and U: "used_region (used cfg ! q) \<inter> R = {}"
    and acc: "access A bk cfg q p c (b, m) = Inr (c', b', m')"
  shows "same_on R m m'"
proof -
  have st: "same_on R m m'" if "span a k \<subseteq> used_region (used cfg ! q)" "store VIEW m a bs = Inr m'" "length bs = k" for a k bs
    using that U by (auto simp: res_simps intro!: same_on_poke)
  note spans = used_spans [OF A, of "used cfg ! q"]
  show ?thesis
  proof (cases c)
    case (Call_Class h i n l a nxt)
    let ?g = "guest_offset (starting_address_of cfg) a"
    have w: "walk_ahead A bk (needs_off reach needs R) cfg q H F f h i n (b, mx)" using ahd Call_Class by simp
    have "needs_off reach needs R b (class_op bk n nxt) q ?g (ucast l) \<subseteq> H"
      by (rule walk_ahead_first [OF A w]) (use ahd Call_Class in auto)
    then have "reach (class_op bk n nxt) q ?g (ucast l) \<inter> R = {}" by (simp add: needs_off_within [OF H])
    moreover have "run_op bk (class_op bk n nxt) q ?g (ucast l) (b, m) = Inr (b', m')"
      using acc Call_Class by (auto simp: bindR_Inr_iff)
    ultimately show ?thesis using op_same_on by blast
  next
    case (Store_Id h n u)
    show ?thesis by (rule st [OF spans(2)]) (use acc Store_Id in \<open>auto simp: bindR_Inr_iff\<close>)
  next
    case (Store_Len h n u)
    show ?thesis by (rule st [OF spans(3)]) (use acc Store_Len in \<open>auto simp: bindR_Inr_iff\<close>)
  next
    case (Store_Idx h n u)
    show ?thesis by (rule st [OF spans(1)]) (use acc Store_Idx in \<open>auto simp: bindR_Inr_iff\<close>)
  qed (use acc in \<open>auto simp: bindR_Inr_iff res_simps split: if_splits\<close>)
qed

end

section \<open>One queue of one thread\<close>

text \<open>A queue that is not being served, and one that is: a run of \<open>live_step\<close> has led to the state now, or to
  the state in which the chain was taken, since when \<open>k\<close> accesses have been made and \<open>hs\<close> posted.\<close>

definition rests ::
  "nat \<Rightarrow> vring_abi \<Rightarrow> 'b backend \<Rightarrow> (chain_op \<Rightarrow> nat \<Rightarrow> u64 \<Rightarrow> u64 \<Rightarrow> nat set)
     \<Rightarrow> ('b \<Rightarrow> chain_op \<Rightarrow> nat \<Rightarrow> u64 \<Rightarrow> u64 \<Rightarrow> nat set) \<Rightarrow> devcfg \<Rightarrow> 'b dev \<Rightarrow> nat \<Rightarrow> mem \<Rightarrow> 'b worker \<Rightarrow> bool" where
  "rests fuel A bk reach needs cfg d0 q m w \<longleftrightarrow>
     (\<exists>s. (live_step fuel A bk reach needs cfg q)\<^sup>*\<^sup>* (queue_start A cfg q d0) s
        \<and> processed (q_dev s) ! q = w_processed w ! q \<and> memory (q_dev s) = m \<and> dclass (q_dev s) = w_class w
        \<and> posted s = w_posted w q \<and> completed s = w_completed w q)"

definition serves ::
  "nat \<Rightarrow> vring_abi \<Rightarrow> 'b backend \<Rightarrow> (chain_op \<Rightarrow> nat \<Rightarrow> u64 \<Rightarrow> u64 \<Rightarrow> nat set)
     \<Rightarrow> ('b \<Rightarrow> chain_op \<Rightarrow> nat \<Rightarrow> u64 \<Rightarrow> u64 \<Rightarrow> nat set) \<Rightarrow> devcfg \<Rightarrow> 'b dev \<Rightarrow> nat
     \<Rightarrow> nat set \<Rightarrow> u16 \<Rightarrow> (u64 \<times> u32) list \<Rightarrow> svc_pc \<Rightarrow> nat \<Rightarrow> mem \<Rightarrow> 'b worker \<Rightarrow> bool" where
  "serves fuel A bk reach needs cfg d0 q H i ds c k m w \<longleftrightarrow>
     (\<exists>s hs. (live_step fuel A bk reach needs cfg q)\<^sup>*\<^sup>* (queue_start A cfg q d0) s
        \<and> processed (q_dev s) ! q = w_processed w ! q \<and> completed s = w_completed w q
        \<and> chain_handed fuel A bk reach needs cfg q H (q_dev s) i ds
        \<and> svc_run A bk cfg q (w_processed w ! q) H (dclass (q_dev s), memory (q_dev s)) k (c, w_class w, m)
        \<and> w_posted w q = posted s @ hs
        \<and> todo A m (avail cfg ! q) (w_processed w ! q)
            = todo A (memory (q_dev s)) (avail cfg ! q) (w_processed w ! q) @ hs)"

lemma chain_handed_cong:
  assumes "memory d' = memory d" "dclass d' = dclass d" "processed d' ! q = processed d ! q"
  shows "chain_handed fuel A bk reach needs cfg q H d' i ds = chain_handed fuel A bk reach needs cfg q H d i ds"
  using assms by (simp add: chain_handed_def waiting_def)

lemma rests_env:
  assumes r: "rests fuel A bk reach needs cfg d0 q m w"
    and td: "todo A m' (avail cfg ! q) (w_processed w ! q) = todo A m (avail cfg ! q) (w_processed w ! q) @ hs"
    and U: "same_on (used_region (used cfg ! q)) m m'"
    and w': "w_processed w' ! q = w_processed w ! q" "w_posted w' q = w_posted w q @ hs" "w_completed w' q = w_completed w q"
  shows "rests fuel A bk reach needs cfg d0 q m' w'"
proof -
  obtain s where s: "(live_step fuel A bk reach needs cfg q)\<^sup>*\<^sup>* (queue_start A cfg q d0) s"
    "processed (q_dev s) ! q = w_processed w ! q" "memory (q_dev s) = m" "dclass (q_dev s) = w_class w"
    "posted s = w_posted w q" "completed s = w_completed w q"
    using r unfolding rests_def by blast
  let ?s' = "s\<lparr>q_dev := (q_dev s)\<lparr>memory := m', dclass := w_class w'\<rparr>, posted := posted s @ hs\<rparr>"
  have "live_step fuel A bk reach needs cfg q s ?s'" by (rule live_driver) (use s td U in simp_all)
  with s(1) have "(live_step fuel A bk reach needs cfg q)\<^sup>*\<^sup>* (queue_start A cfg q d0) ?s'" by (rule rtranclp.rtrancl_into_rtrancl)
  then show ?thesis unfolding rests_def using s w' by (intro exI [of _ ?s']) simp
qed

lemma rests_take:
  assumes r: "rests fuel A bk reach needs cfg d0 q m w"
    and h: "chain_handed fuel A bk reach needs cfg q H (worker_dev m w) i ds"
  shows "serves fuel A bk reach needs cfg d0 q H i ds Load_Idx 0 m (w\<lparr>w_busy := x\<rparr>)"
proof -
  obtain s where s: "(live_step fuel A bk reach needs cfg q)\<^sup>*\<^sup>* (queue_start A cfg q d0) s"
    "processed (q_dev s) ! q = w_processed w ! q" "memory (q_dev s) = m" "dclass (q_dev s) = w_class w"
    "posted s = w_posted w q" "completed s = w_completed w q"
    using r unfolding rests_def by blast
  have "chain_handed fuel A bk reach needs cfg q H (q_dev s) i ds"
    using h chain_handed_cong [of "worker_dev m w" "q_dev s"] s by (simp add: worker_dev_def)
  then show ?thesis unfolding serves_def using s svc_start by (intro exI [of _ s] exI [of _ "[]"]) simp
qed

lemma serves_env:
  assumes r: "serves fuel A bk reach needs cfg d0 q H i ds c k m w"
    and td: "todo A m' (avail cfg ! q) (w_processed w ! q) = todo A m (avail cfg ! q) (w_processed w ! q) @ hs"
    and H: "driver_keeps A cfg q (w_processed w ! q) H m m'"
    and w': "w_processed w' ! q = w_processed w ! q" "w_posted w' q = w_posted w q @ hs" "w_completed w' q = w_completed w q"
      "w_class w' = w_class w"
  shows "serves fuel A bk reach needs cfg d0 q H i ds c k m' w'"
proof -
  obtain s hs0 where s: "(live_step fuel A bk reach needs cfg q)\<^sup>*\<^sup>* (queue_start A cfg q d0) s"
    "processed (q_dev s) ! q = w_processed w ! q" "completed s = w_completed w q"
    "chain_handed fuel A bk reach needs cfg q H (q_dev s) i ds"
    "w_posted w q = posted s @ hs0"
    "todo A m (avail cfg ! q) (w_processed w ! q) = todo A (memory (q_dev s)) (avail cfg ! q) (w_processed w ! q) @ hs0"
    and run: "svc_run A bk cfg q (w_processed w ! q) H (dclass (q_dev s), memory (q_dev s)) k (c, w_class w, m)"
    using r unfolding serves_def by blast
  show ?thesis unfolding serves_def
    using s svc_driver [OF run H] td w' by (intro exI [of _ s] exI [of _ "hs0 @ hs"]) simp
qed

context local_backend
begin

lemma live_keeps_queue:
  assumes "abi_ok A" "rings_ok cfg q" "q < length (processed d0)"
    and "(live_step fuel A bk reach needs cfg q)\<^sup>*\<^sup>* (queue_start A cfg q d0) s"
  shows "q < length (processed (q_dev s))"
  using live_steps_refine [OF assms(1,2,4)] assms(3) by (simp add: queue_start_def)

text \<open>What is known in the middle of a service, with the available ring off the device's reach.\<close>

lemma serves_ahead:
  assumes A: "abi_ok A" and ok: "rings_ok cfg q" and len: "q < length (processed d)"
    and h: "chain_handed fuel A bk reach needs cfg q H d i ds"
    and run: "svc_run A bk cfg q (processed d ! q) H (dclass d, memory d) k (c, b, m)"
  obtains F f mx where "ahead A bk (needs_off reach needs (avail_region (avail cfg ! q))) cfg q (processed d ! q) H F f c (b, mx)"
    "k \<le> 5 * length ds + 5" "c \<noteq> Nothing_To_Do"
    "c \<noteq> Finished \<Longrightarrow> \<exists>x. access A bk cfg q (processed d ! q) c (b, m) = Inr x \<and> same_on (- H) m (snd (snd x))"
proof -
  let ?R = "avail_region (avail cfg ! q)"
  let ?off = "needs_off reach needs ?R"
  note hd = h [unfolded chain_handed_def]
  have "ops_apart reach q ?R (chain_ops (queue_header_size bk) 0 ds)"
    using hd ops_apart_subset ring_regions(2) by blast
  then have h': "chain_handed fuel A bk reach ?off cfg q H d i ds"
    using h ops_within_off unfolding chain_handed_def by blast
  obtain s where ahd: "ahead A bk ?off cfg q (processed d ! q) H
      (fst s, publish A (used cfg ! q) i (chain_len ds) (snd s)) (length ds) Load_Idx (dclass d, memory d)"
    by (rule local_backend.handed_ahead [OF off_local A ok len h'])
  have p: "val16 (memory d) (unat (avail cfg ! q) + avail_idx A) \<noteq> processed d ! q"
    using hd todo_Nil_iff by (auto simp: waiting_def)
  have U: "used_region (used cfg ! q) \<subseteq> H" using hd by blast
  note inv = local_backend.svc_run_ahead [OF off_local A U p ahd run]
    and safe = local_backend.svc_run_safe [OF off_local A U p ahd run]
  obtain f mx where ahd': "ahead A bk ?off cfg q (processed d ! q) H
      (fst s, publish A (used cfg ! q) i (chain_len ds) (snd s)) f c (b, mx)" using inv by auto
  show thesis by (rule that [OF ahd' safe(1,2)]) (use safe(3) in blast)
qed

lemma serves_safe:
  assumes A: "abi_ok A" and ok: "rings_ok cfg q" "q < length (processed d0)"
    and r: "serves fuel A bk reach needs cfg d0 q H i ds c k m w"
  shows "k \<le> 5 * length ds + 5" "c \<noteq> Nothing_To_Do"
    "c \<noteq> Finished \<Longrightarrow> \<exists>x. access A bk cfg q (w_processed w ! q) c (w_class w, m) = Inr x \<and> same_on (- H) m (snd (snd x))"
proof -
  obtain s where s: "(live_step fuel A bk reach needs cfg q)\<^sup>*\<^sup>* (queue_start A cfg q d0) s"
    "processed (q_dev s) ! q = w_processed w ! q" "chain_handed fuel A bk reach needs cfg q H (q_dev s) i ds"
    and run: "svc_run A bk cfg q (w_processed w ! q) H (dclass (q_dev s), memory (q_dev s)) k (c, w_class w, m)"
    using r unfolding serves_def by blast
  show "k \<le> 5 * length ds + 5" "c \<noteq> Nothing_To_Do"
    "c \<noteq> Finished \<Longrightarrow> \<exists>x. access A bk cfg q (w_processed w ! q) c (w_class w, m) = Inr x \<and> same_on (- H) m (snd (snd x))"
    by (rule serves_ahead [OF A ok(1) live_keeps_queue [OF A ok s(1)] s(3) run [folded s(2)]];
        use s(2) in simp)+
qed

lemma serves_access:
  assumes A: "abi_ok A" and ok: "rings_ok cfg q" "q < length (processed d0)" and H: "H \<noteq> UNIV"
    and r: "serves fuel A bk reach needs cfg d0 q H i ds c k m w" and fin: "c \<noteq> Finished"
    and acc: "access A bk cfg q (w_processed w ! q) c (w_class w, m) = Inr (c', b', m')"
  shows "serves fuel A bk reach needs cfg d0 q H i ds c' (Suc k) m' (w\<lparr>w_class := b', w_busy := x\<rparr>)"
proof -
  let ?V = "avail cfg ! q" and ?p = "w_processed w ! q"
  obtain s hs where s: "(live_step fuel A bk reach needs cfg q)\<^sup>*\<^sup>* (queue_start A cfg q d0) s"
    "processed (q_dev s) ! q = ?p" "completed s = w_completed w q" "chain_handed fuel A bk reach needs cfg q H (q_dev s) i ds"
    "w_posted w q = posted s @ hs" "todo A m ?V ?p = todo A (memory (q_dev s)) ?V ?p @ hs"
    and run: "svc_run A bk cfg q ?p H (dclass (q_dev s), memory (q_dev s)) k (c, w_class w, m)"
    using r unfolding serves_def by blast
  obtain F f mx where ahd: "ahead A bk (needs_off reach needs (avail_region ?V)) cfg q ?p H F f c (w_class w, mx)"
    and c: "c \<noteq> Nothing_To_Do"
    by (rule serves_ahead [OF A ok(1) live_keeps_queue [OF A ok s(1)] s(4) run [folded s(2)]]) (use s(2) in auto)
  have "used_region (used cfg ! q) \<inter> avail_region ?V = {}" using ok(1) by (simp add: rings_ok_def)
  from todo_same [OF A access_off [OF A ahd H this acc]] have "todo A m' ?V ?p = todo A m ?V ?p" .
  moreover have "svc_run A bk cfg q ?p H (dclass (q_dev s), memory (q_dev s)) (Suc k) (c', b', m')"
    by (rule svc_device [OF run _ acc]) (use fin c in simp)
  ultimately show ?thesis unfolding serves_def using s by (intro exI [of _ s] exI [of _ hs]) simp
qed

lemma serves_finish:
  assumes r: "serves fuel A bk reach needs cfg d0 q H i ds Finished k m w" and len: "q < length (w_processed w)"
    and A: "abi_ok A" and ok: "rings_ok cfg q" "q < length (processed d0)" and q: "q = w_queue w"
  shows "rests fuel A bk reach needs cfg d0 q m (finish_queue bk i ds w)"
proof -
  let ?V = "avail cfg ! q" and ?p = "w_processed w ! q"
  obtain s hs where s: "(live_step fuel A bk reach needs cfg q)\<^sup>*\<^sup>* (queue_start A cfg q d0) s"
    "processed (q_dev s) ! q = ?p" "completed s = w_completed w q" "chain_handed fuel A bk reach needs cfg q H (q_dev s) i ds"
    "w_posted w q = posted s @ hs" "todo A m ?V ?p = todo A (memory (q_dev s)) ?V ?p @ hs"
    and run: "svc_run A bk cfg q ?p H (dclass (q_dev s), memory (q_dev s)) k (Finished, w_class w, m)"
    using r unfolding serves_def by blast
  have pq: "q < length (processed (q_dev s))" by (rule live_keeps_queue [OF A ok s(1)])
  let ?s' = "s\<lparr>q_dev := set_interrupt A cfg ((q_dev s)\<lparr>memory := m, dclass := w_class w,
                     processed := (processed (q_dev s))[q := processed (q_dev s) ! q + 1]\<rparr>),
          posted := posted s @ hs, completed := completed s @ [(i, ucast (chain_len ds))]\<rparr>"
  have "live_step fuel A bk reach needs cfg q s ?s'"
    by (rule live_serve [OF s(4)]) (use run s(2,6) in simp_all)
  with s(1) have "(live_step fuel A bk reach needs cfg q)\<^sup>*\<^sup>* (queue_start A cfg q d0) ?s'" by (rule rtranclp.rtrancl_into_rtrancl)
  then show ?thesis unfolding rests_def
    using s len pq q by (intro exI [of _ ?s']) (simp add: finish_queue_def next_queue_def set_interrupt_def)
qed

text \<open>What the two predicates say of the queue.\<close>

lemma rests_exactly_once:
  assumes "abi_ok A" "rings_ok cfg q" "q < length (processed d0)" and r: "rests fuel A bk reach needs cfg d0 q m w"
  shows "w_posted w q = map fst (w_completed w q) @ todo A m (avail cfg ! q) (w_processed w ! q)
     \<and> published A m (used cfg ! q) (used_count A (memory d0) (used cfg ! q)) (used_entries (w_completed w q))"
  using r live_exactly_once [OF assms(1-3)] unfolding rests_def by metis

lemma serves_exactly_once:
  assumes "abi_ok A" "rings_ok cfg q" "q < length (processed d0)" and r: "serves fuel A bk reach needs cfg d0 q H i ds c k m w"
  shows "w_posted w q = map fst (w_completed w q) @ todo A m (avail cfg ! q) (w_processed w ! q)"
  using r live_exactly_once [OF assms(1-3)] unfolding serves_def by (metis append.assoc)

end

section \<open>The invariant of the system\<close>

definition queue_ok ::
  "nat \<Rightarrow> vring_abi \<Rightarrow> 'b backend \<Rightarrow> (chain_op \<Rightarrow> nat \<Rightarrow> u64 \<Rightarrow> u64 \<Rightarrow> nat set)
     \<Rightarrow> ('b \<Rightarrow> chain_op \<Rightarrow> nat \<Rightarrow> u64 \<Rightarrow> u64 \<Rightarrow> nat set) \<Rightarrow> devcfg \<Rightarrow> 'b dev \<Rightarrow> nat \<Rightarrow> mem \<Rightarrow> 'b worker \<Rightarrow> bool" where
  "queue_ok fuel A bk reach needs cfg d0 q m w \<longleftrightarrow>
     (case w_busy w of
        None \<Rightarrow> rests fuel A bk reach needs cfg d0 q m w
      | Some (H, i, ds, c) \<Rightarrow>
          if q = w_queue w then \<exists>k. serves fuel A bk reach needs cfg d0 q H i ds c k m w
          else rests fuel A bk reach needs cfg d0 q m w)"

text \<open>Others' changes: to memory, and to the device class of a queue at rest.\<close>

lemma queue_ok_env:
  assumes A: "abi_ok A" and r: "queue_ok fuel A bk reach needs cfg d0 q m w"
    and td: "todo A m' (avail cfg ! q) (w_processed w ! q) = todo A m (avail cfg ! q) (w_processed w ! q) @ hs"
    and U: "same_on (used_region (used cfg ! q)) m m'"
    and w': "w_processed w' ! q = w_processed w ! q" "w_posted w' q = w_posted w q @ hs" "w_completed w' q = w_completed w q"
      "w_queue w' = w_queue w" "w_busy w' = w_busy w"
    and busy: "\<And>H i ds c. w_busy w = Some (H, i, ds, c) \<Longrightarrow> q = w_queue w \<Longrightarrow> same_on H m m' \<and> w_class w' = w_class w"
  shows "queue_ok fuel A bk reach needs cfg d0 q m' w'"
proof (cases "\<exists>H i ds c. w_busy w = Some (H, i, ds, c) \<and> q = w_queue w")
  case True
  then obtain H i ds c k where b: "w_busy w = Some (H, i, ds, c)" "q = w_queue w"
    and s: "serves fuel A bk reach needs cfg d0 q H i ds c k m w"
    using r by (auto simp: queue_ok_def)
  have "driver_keeps A cfg q (w_processed w ! q) H m m'"
    unfolding driver_keeps_def using busy [OF b] td todo_Nil_iff by (metis append_is_Nil_conv)
  from serves_env [OF s td this w'(1-3)] show ?thesis using busy [OF b] b w'(4,5) by (auto simp: queue_ok_def)
next
  case False
  then have "rests fuel A bk reach needs cfg d0 q m w" using r by (auto simp: queue_ok_def split: option.splits if_splits)
  from rests_env [OF this td U w'(1-3)] False show ?thesis
    using w'(4,5) by (auto simp: queue_ok_def split: option.splits)
qed

text \<open>A thread at work on the bytes \<open>H\<close>, as a queue sees it whose rings and bytes lie apart.\<close>

lemma queue_ok_beside:
  assumes A: "abi_ok A" and r: "queue_ok fuel A bk reach needs cfg d0 q m w"
    and H: "same_on (- H) m m'" "H \<inter> ring_region cfg q = {}"
    and w': "w_processed w' ! q = w_processed w ! q" "w_posted w' q = w_posted w q" "w_completed w' q = w_completed w q"
      "w_queue w' = w_queue w" "w_busy w' = w_busy w"
    and busy: "\<And>H' i ds c. w_busy w = Some (H', i, ds, c) \<Longrightarrow> q = w_queue w \<Longrightarrow> H \<inter> H' = {} \<and> w_class w' = w_class w"
  shows "queue_ok fuel A bk reach needs cfg d0 q m' w'"
proof -
  have same: "same_on R m m'" if "H \<inter> R = {}" for R by (rule same_on_subset [OF H(1)]) (use that in blast)
  have ring: "same_on (avail_region (avail cfg ! q)) m m'" "same_on (used_region (used cfg ! q)) m m'"
    using H(2) ring_regions [where cfg = cfg and q = q] by (intro same; blast)+
  show ?thesis
    by (rule queue_ok_env [OF A r, where hs = "[]"]) (use todo_same [OF A ring(1)] ring(2) w' busy same in \<open>simp_all, blast?\<close>)
qed

definition worker_ok ::
  "nat \<Rightarrow> vring_abi \<Rightarrow> 'b backend \<Rightarrow> (chain_op \<Rightarrow> nat \<Rightarrow> u64 \<Rightarrow> u64 \<Rightarrow> nat set)
     \<Rightarrow> ('b \<Rightarrow> chain_op \<Rightarrow> nat \<Rightarrow> u64 \<Rightarrow> u64 \<Rightarrow> nat set) \<Rightarrow> devcfg \<Rightarrow> 'b dev \<Rightarrow> mem \<Rightarrow> 'b worker \<Rightarrow> bool" where
  "worker_ok fuel A bk reach needs cfg d0 m w \<longleftrightarrow>
     w_queue w < num_queues bk \<and> num_queues bk \<le> length (w_processed w)
     \<and> (\<forall>q < num_queues bk. queue_ok fuel A bk reach needs cfg d0 q m w)"

definition system_ok ::
  "nat \<Rightarrow> nat \<Rightarrow> vring_abi \<Rightarrow> (nat \<Rightarrow> 'b backend) \<Rightarrow> (nat \<Rightarrow> chain_op \<Rightarrow> nat \<Rightarrow> u64 \<Rightarrow> u64 \<Rightarrow> nat set)
     \<Rightarrow> (nat \<Rightarrow> 'b \<Rightarrow> chain_op \<Rightarrow> nat \<Rightarrow> u64 \<Rightarrow> u64 \<Rightarrow> nat set) \<Rightarrow> (nat \<Rightarrow> devcfg) \<Rightarrow> (nat \<Rightarrow> 'b dev)
     \<Rightarrow> mem \<Rightarrow> (nat \<Rightarrow> 'b worker) \<Rightarrow> bool" where
  "system_ok n fuel A bk reach needs cfg d0 m w \<longleftrightarrow>
     (\<forall>t < n. worker_ok fuel A (bk t) (reach t) (needs t) (cfg t) (d0 t) m (w t)
        \<and> (\<forall>H i ds c. w_busy (w t) = Some (H, i, ds, c) \<longrightarrow> held_apart n bk cfg w t H))"

definition system_start :: "vring_abi \<Rightarrow> (nat \<Rightarrow> 'b backend) \<Rightarrow> (nat \<Rightarrow> devcfg) \<Rightarrow> (nat \<Rightarrow> 'b) \<Rightarrow> mem \<Rightarrow> mem \<times> (nat \<Rightarrow> 'b worker)" where
  "system_start A bk cfg b m = (m, \<lambda>t. enter_loop A (cfg t) m (bk t) (b t))"

lemma next_queue_simps [simp]:
  "w_class (next_queue bk w) = w_class w" "w_processed (next_queue bk w) = w_processed w" "w_posted (next_queue bk w) = w_posted w"
  "w_completed (next_queue bk w) = w_completed w" "w_busy (next_queue bk w) = None"
  "0 < num_queues bk \<Longrightarrow> w_queue (next_queue bk w) < num_queues bk"
  by (simp_all add: next_queue_def)

lemma rests_cong:
  "w_class w' = w_class w \<Longrightarrow> w_processed w' ! q = w_processed w ! q \<Longrightarrow> w_posted w' q = w_posted w q \<Longrightarrow>
     w_completed w' q = w_completed w q \<Longrightarrow> rests fuel A bk reach needs cfg d0 q m w \<Longrightarrow> rests fuel A bk reach needs cfg d0 q m w'"
  by (simp add: rests_def)

lemma worker_pass:
  assumes "worker_ok fuel A bk reach needs cfg d0 m w" "w_busy w = None"
  shows "worker_ok fuel A bk reach needs cfg d0 m (next_queue bk w)"
  using assms by (auto simp: worker_ok_def queue_ok_def elim!: rests_cong [rotated -1])

lemma worker_busy:
  assumes "worker_ok fuel A bk reach needs cfg d0 m w" "w_busy w = Some (H, i, ds, c)"
  shows "\<exists>k. serves fuel A bk reach needs cfg d0 (w_queue w) H i ds c k m w"
proof -
  have "queue_ok fuel A bk reach needs cfg d0 (w_queue w) m w" using assms(1) by (simp add: worker_ok_def)
  then show ?thesis using assms(2) by (simp add: queue_ok_def)
qed

lemma worker_take:
  assumes w: "worker_ok fuel A bk reach needs cfg d0 m w" "w_busy w = None"
    and h: "chain_handed fuel A bk reach needs cfg (w_queue w) H (worker_dev m w) i ds"
  shows "worker_ok fuel A bk reach needs cfg d0 m (w\<lparr>w_busy := Some (H, i, ds, Load_Idx)\<rparr>)"
  using w rests_take [OF _ h] by (auto simp: worker_ok_def queue_ok_def elim!: rests_cong [rotated -1])

lemma worker_beside:
  assumes A: "abi_ok A" and w: "worker_ok fuel A bk reach needs cfg d0 m w" and H: "same_on (- H) m m'"
    and rings: "\<And>q. q < num_queues bk \<Longrightarrow> H \<inter> ring_region cfg q = {}"
    and busy: "\<And>H' i ds c. w_busy w = Some (H', i, ds, c) \<Longrightarrow> H \<inter> H' = {}"
  shows "worker_ok fuel A bk reach needs cfg d0 m' w"
  unfolding worker_ok_def
proof (intro conjI allI impI)
  show "queue_ok fuel A bk reach needs cfg d0 q m' w" if "q < num_queues bk" for q
    by (rule queue_ok_beside [OF A _ H rings [OF that]]) (use w that busy in \<open>auto simp: worker_ok_def\<close>)
qed (use w in \<open>simp_all add: worker_ok_def\<close>)

lemma driver_moves_same:
  assumes "driver_moves A bk cfg m m' hs w w'"
  shows "w_processed w' = w_processed w" "w_posted w' q = w_posted w q @ hs q" "w_completed w' = w_completed w"
    "w_queue w' = w_queue w" "w_busy w' = w_busy w"
  using assms by (auto simp: driver_moves_def split: option.splits)

lemma worker_driver:
  assumes A: "abi_ok A" and w: "worker_ok fuel A bk reach needs cfg d0 m w" and d: "driver_moves A bk cfg m m' hs w w'"
  shows "worker_ok fuel A bk reach needs cfg d0 m' w'"
proof -
  note w' = driver_moves_same [OF d]
  have busy: "same_on H m m' \<and> w_class w' = w_class w" if "w_busy w = Some (H, i, ds, c)" for H i ds c
    using d that by (auto simp: driver_moves_def)
  have "queue_ok fuel A bk reach needs cfg d0 q m' w'" if "q < num_queues bk" for q
    by (rule queue_ok_env [OF A, where w = w and hs = "hs q"])
      (use w d that w' busy in \<open>auto simp: worker_ok_def driver_moves_def\<close>)
  then show ?thesis using w w' by (simp add: worker_ok_def)
qed

context local_backend
begin

lemma worker_access:
  assumes A: "abi_ok A" and ok: "\<And>q. q < num_queues bk \<Longrightarrow> rings_ok cfg q" and len: "num_queues bk \<le> length (processed d0)"
    and w: "worker_ok fuel A bk reach needs cfg d0 m w" and b: "w_busy w = Some (H, i, ds, c)" "c \<noteq> Finished"
    and H: "H \<noteq> UNIV" "\<And>q. q < num_queues bk \<Longrightarrow> q \<noteq> w_queue w \<Longrightarrow> H \<inter> ring_region cfg q = {}"
    and acc: "access A bk cfg (w_queue w) (w_processed w ! w_queue w) c (w_class w, m) = Inr (c', b', m')"
  shows "worker_ok fuel A bk reach needs cfg d0 m' (w\<lparr>w_class := b', w_busy := Some (H, i, ds, c')\<rparr>)" "same_on (- H) m m'"
proof -
  let ?q = "w_queue w" and ?w = "w\<lparr>w_class := b', w_busy := Some (H, i, ds, c')\<rparr>"
  have q: "?q < num_queues bk" using w by (simp add: worker_ok_def)
  have q0: "?q < length (processed d0)" using q len by simp
  obtain k where s: "serves fuel A bk reach needs cfg d0 ?q H i ds c k m w" using worker_busy [OF w b(1)] by blast
  show same: "same_on (- H) m m'" using serves_safe(3) [OF A ok [OF q] q0 s b(2)] acc by simp
  have "serves fuel A bk reach needs cfg d0 ?q H i ds c' (Suc k) m' ?w"
    by (rule serves_access [OF A ok [OF q] q0 H(1) s b(2) acc])
  moreover have "rests fuel A bk reach needs cfg d0 r m' ?w" if r: "r < num_queues bk" "r \<noteq> ?q" for r
  proof -
    have before: "rests fuel A bk reach needs cfg d0 r m w" using w r b(1) by (simp add: worker_ok_def queue_ok_def)
    have ring: "same_on (avail_region (avail cfg ! r)) m m'" "same_on (used_region (used cfg ! r)) m m'"
      using H(2) [OF r] ring_regions [where cfg = cfg and q = r] by (intro same_on_subset [OF same]; blast)+
    have "todo A m' (avail cfg ! r) (w_processed w ! r) = todo A m (avail cfg ! r) (w_processed w ! r) @ []"
      using todo_same [OF A ring(1)] by simp
    from rests_env [OF before this ring(2)] show ?thesis by simp
  qed
  ultimately show "worker_ok fuel A bk reach needs cfg d0 m' ?w" using w q by (auto simp: worker_ok_def queue_ok_def)
qed

lemma worker_finish:
  assumes A: "abi_ok A" and ok: "\<And>q. q < num_queues bk \<Longrightarrow> rings_ok cfg q" and len: "num_queues bk \<le> length (processed d0)"
    and w: "worker_ok fuel A bk reach needs cfg d0 m w" and b: "w_busy w = Some (H, i, ds, Finished)"
  shows "worker_ok fuel A bk reach needs cfg d0 m (finish_queue bk i ds w)"
proof -
  let ?q = "w_queue w"
  have q: "?q < num_queues bk" and lw: "num_queues bk \<le> length (w_processed w)" using w by (simp_all add: worker_ok_def)
  obtain k where s: "serves fuel A bk reach needs cfg d0 ?q H i ds Finished k m w" using worker_busy [OF w b] by blast
  have "rests fuel A bk reach needs cfg d0 ?q m (finish_queue bk i ds w)"
    by (rule serves_finish [OF s _ A ok [OF q] _ refl]) (use q lw len in simp_all)
  moreover have "rests fuel A bk reach needs cfg d0 r m (finish_queue bk i ds w)" if "r < num_queues bk" "r \<noteq> ?q" for r
  proof -
    have "rests fuel A bk reach needs cfg d0 r m w" using w that b by (auto simp: worker_ok_def queue_ok_def)
    then show ?thesis by (rule rests_cong [rotated -1]) (use that in \<open>simp_all add: finish_queue_def\<close>)
  qed
  ultimately show ?thesis using q lw by (auto simp: worker_ok_def queue_ok_def finish_queue_def)
qed

end

section \<open>All threads\<close>

text \<open>What a thread holds stays apart while the others hold no more.\<close>

lemma held_apart_less:
  assumes "held_apart n bk cfg w t H" "w_queue (w' t) = w_queue (w t)"
    and "\<And>u H' i ds c. u < n \<Longrightarrow> u \<noteq> t \<Longrightarrow> w_busy (w' u) = Some (H', i, ds, c) \<Longrightarrow> \<exists>c. w_busy (w u) = Some (H', i, ds, c)"
  shows "held_apart n bk cfg w' t H"
  using assms unfolding held_apart_def by metis

lemma held_not_all: "held_apart n bk cfg w t H \<Longrightarrow> H \<noteq> UNIV"
  by (auto simp: held_apart_def)

text \<open>A thread that gives back what it holds.\<close>

lemma system_release:
  assumes inv: "system_ok n fuel A bk reach needs cfg d0 m w" and b: "w_busy w1 = None"
    and w1: "worker_ok fuel A (bk t) (reach t) (needs t) (cfg t) (d0 t) m w1"
  shows "system_ok n fuel A bk reach needs cfg d0 m (w(t := w1))"
  unfolding system_ok_def
proof (intro allI impI conjI)
  fix u assume u: "u < n"
  show "worker_ok fuel A (bk u) (reach u) (needs u) (cfg u) (d0 u) m ((w(t := w1)) u)"
    using inv u w1 by (simp add: system_ok_def)
  fix H i ds c assume busy: "w_busy ((w(t := w1)) u) = Some (H, i, ds, c)"
  then have "u \<noteq> t" "w_busy (w u) = Some (H, i, ds, c)" using b by (auto split: if_splits)
  then have "held_apart n bk cfg w u H" using inv u by (simp add: system_ok_def)
  then show "held_apart n bk cfg (w(t := w1)) u H"
    by (rule held_apart_less) (use \<open>u \<noteq> t\<close> b in \<open>auto split: if_splits\<close>)
qed

locale device_threads =
  fixes n :: nat and bk :: "nat \<Rightarrow> 'b backend" and reach :: "nat \<Rightarrow> chain_op \<Rightarrow> nat \<Rightarrow> u64 \<Rightarrow> u64 \<Rightarrow> nat set"
    and needs :: "nat \<Rightarrow> 'b \<Rightarrow> chain_op \<Rightarrow> nat \<Rightarrow> u64 \<Rightarrow> u64 \<Rightarrow> nat set"
  assumes device: "t < n \<Longrightarrow> local_backend (bk t) (reach t) (needs t)"
    and has_queue: "t < n \<Longrightarrow> 0 < num_queues (bk t)"
begin

lemma step_ok:
  assumes A: "abi_ok A" and ok: "\<And>t q. t < n \<Longrightarrow> q < num_queues (bk t) \<Longrightarrow> rings_ok (cfg t) q"
    and len: "\<And>t. t < n \<Longrightarrow> num_queues (bk t) \<le> length (processed (d0 t))"
    and step: "system_step n fuel A bk reach needs cfg (m, w) (m', w')"
    and inv: "system_ok n fuel A bk reach needs cfg d0 m w"
  shows "system_ok n fuel A bk reach needs cfg d0 m' w'"
proof -
  have W: "worker_ok fuel A (bk t) (reach t) (needs t) (cfg t) (d0 t) m (w t)" if "t < n" for t
    using inv that by (simp add: system_ok_def)
  have Hd: "held_apart n bk cfg w t H" if "t < n" "w_busy (w t) = Some (H, i, ds, c)" for t H i ds c
    using inv that by (auto simp: system_ok_def)
  from step show ?thesis
  proof cases
    case (sys_pass t s)
    then show ?thesis using system_release [OF inv _ worker_pass [OF W]] by simp
  next
    case (sys_take t H i ds)
    then have H: "held_apart n bk cfg w t H" by blast
    have "held_apart n bk cfg w' u H'" if u: "u < n" "w_busy (w' u) = Some (H', i', ds', c')" for u H' i' ds' c'
    proof (cases "u = t")
      case True
      then show ?thesis using H u sys_take by (auto simp: held_apart_def)
    next
      case False
      then have "w_busy (w u) = Some (H', i', ds', c')" using u sys_take by simp
      then show ?thesis using Hd [OF u(1)] H u(1) False sys_take by (auto simp: held_apart_def Int_commute)
    qed
    then show ?thesis using W worker_take [OF W] sys_take by (auto simp: system_ok_def)
  next
    case (sys_access t H i ds c c' b')
    have H: "held_apart n bk cfg w t H" by (rule Hd) (use sys_access in auto)
    note acc = local_backend.worker_access [OF device [OF sys_access(2)] A ok [OF sys_access(2)] len [OF sys_access(2)]
        W [OF sys_access(2)] sys_access(3,4) held_not_all [OF H] _ sys_access(5)]
    have own: "worker_ok fuel A (bk t) (reach t) (needs t) (cfg t) (d0 t) m' (w' t)" and same: "same_on (- H) m m'"
      using acc H sys_access(1,2) by (auto simp: held_apart_def)
    have "worker_ok fuel A (bk u) (reach u) (needs u) (cfg u) (d0 u) m' (w' u)" if u: "u < n" "u \<noteq> t" for u
      using worker_beside [OF A W [OF u(1)] same] H u sys_access(1) by (auto simp: held_apart_def)
    moreover have "held_apart n bk cfg w' u H'" if u: "u < n" "w_busy (w' u) = Some (H', i', ds', c')" for u H' i' ds' c'
    proof -
      obtain c0 where "w_busy (w u) = Some (H', i', ds', c0)" using u sys_access(1,3) by (auto split: if_splits)
      from Hd [OF u(1) this] show ?thesis
        by (rule held_apart_less) (use sys_access(1,3) in \<open>auto split: if_splits\<close>)
    qed
    ultimately show ?thesis using own by (auto simp: system_ok_def)
  next
    case (sys_finish t H i ds)
    have "worker_ok fuel A (bk t) (reach t) (needs t) (cfg t) (d0 t) m (finish_queue (bk t) i ds (w t))"
      by (rule local_backend.worker_finish [OF device A ok len W]) (use sys_finish in simp_all)
    then show ?thesis using system_release [OF inv] sys_finish by (simp add: finish_queue_def)
  next
    case (sys_driver hs)
    have "w_busy (w' t) = w_busy (w t)" "w_queue (w' t) = w_queue (w t)" if "t < n" for t
      using driver_moves_same [OF sys_driver(1) [OF that]] by simp_all
    note same = this
    have "held_apart n bk cfg w' t H" if t: "t < n" "w_busy (w' t) = Some (H, i, ds, c)" for t H i ds c
      by (rule held_apart_less [OF Hd [OF t(1)]]) (use t same in auto)
    moreover have "worker_ok fuel A (bk t) (reach t) (needs t) (cfg t) (d0 t) m' (w' t)" if "t < n" for t
      by (rule worker_driver [OF A W [OF that] sys_driver(1) [OF that]])
    ultimately show ?thesis by (simp add: system_ok_def)
  qed
qed

lemma start_ok:
  "system_ok n fuel A bk reach needs cfg (\<lambda>t. worker_dev m (enter_loop A (cfg t) m (bk t) (b t)))
     m (\<lambda>t. enter_loop A (cfg t) m (bk t) (b t))"
proof -
  have "rests fuel A (bk t) (reach t) (needs t) (cfg t) (worker_dev m (enter_loop A (cfg t) m (bk t) (b t))) q m
      (enter_loop A (cfg t) m (bk t) (b t))" if "q < num_queues (bk t)" for t q
    unfolding rests_def
    by (intro exI conjI, rule rtranclp.rtrancl_refl) (use that in \<open>simp_all add: queue_start_def worker_dev_def enter_loop_def\<close>)
  then show ?thesis
    using has_queue by (auto simp: system_ok_def worker_ok_def queue_ok_def enter_loop_def split: option.splits)
qed

lemma steps_ok:
  assumes A: "abi_ok A" and ok: "\<And>t q. t < n \<Longrightarrow> q < num_queues (bk t) \<Longrightarrow> rings_ok (cfg t) q"
    and run: "(system_step n fuel A bk reach needs cfg)\<^sup>*\<^sup>* (system_start A bk cfg b m0) s"
  shows "system_ok n fuel A bk reach needs cfg (\<lambda>t. worker_dev m0 (enter_loop A (cfg t) m0 (bk t) (b t))) (fst s) (snd s)"
  using run
proof (induction rule: rtranclp_induct)
  case base
  show ?case using start_ok by (simp add: system_start_def)
next
  case (step s1 s2)
  have len: "num_queues (bk t) \<le> length (processed (worker_dev m0 (enter_loop A (cfg t) m0 (bk t) (b t))))" for t
    by (simp add: worker_dev_def enter_loop_def)
  show ?case by (rule step_ok [OF A ok len _ step.IH]) (use step.hyps(2) in \<open>simp_all only: prod.collapse\<close>)
qed

text \<open>What the invariant says of a queue, and of a thread at work.\<close>

lemma system_exactly_once:
  assumes A: "abi_ok A" and ok: "\<And>t q. t < n \<Longrightarrow> q < num_queues (bk t) \<Longrightarrow> rings_ok (cfg t) q"
    and run: "(system_step n fuel A bk reach needs cfg)\<^sup>*\<^sup>* (system_start A bk cfg b m0) (m, w)"
    and t: "t < n" "q < num_queues (bk t)"
  shows "w_posted (w t) q = map fst (w_completed (w t) q) @ todo A m (avail (cfg t) ! q) (w_processed (w t) ! q)"
    "w_busy (w t) = None \<or> w_queue (w t) \<noteq> q \<Longrightarrow>
       published A m (used (cfg t) ! q) (used_count A m0 (used (cfg t) ! q)) (used_entries (w_completed (w t) q))"
proof -
  let ?d0 = "worker_dev m0 (enter_loop A (cfg t) m0 (bk t) (b t))"
  have Q: "queue_ok fuel A (bk t) (reach t) (needs t) (cfg t) ?d0 q m (w t)"
    using steps_ok [OF A ok run] t by (simp add: system_ok_def worker_ok_def)
  have q0: "q < length (processed ?d0)" using t by (simp add: worker_dev_def enter_loop_def)
  have m0: "memory ?d0 = m0" by (simp add: worker_dev_def)
  note rest = local_backend.rests_exactly_once [OF device [OF t(1)] A ok [OF t] q0, unfolded m0]
    and serve = local_backend.serves_exactly_once [OF device [OF t(1)] A ok [OF t] q0]
  show "w_posted (w t) q = map fst (w_completed (w t) q) @ todo A m (avail (cfg t) ! q) (w_processed (w t) ! q)"
    using Q rest serve unfolding queue_ok_def by (auto split: option.splits if_splits)
  show "published A m (used (cfg t) ! q) (used_count A m0 (used (cfg t) ! q)) (used_entries (w_completed (w t) q))"
    if "w_busy (w t) = None \<or> w_queue (w t) \<noteq> q"
    using Q rest that unfolding queue_ok_def by (auto split: option.splits if_splits)
qed

lemma system_serves:
  assumes A: "abi_ok A" and ok: "\<And>t q. t < n \<Longrightarrow> q < num_queues (bk t) \<Longrightarrow> rings_ok (cfg t) q"
    and run: "(system_step n fuel A bk reach needs cfg)\<^sup>*\<^sup>* (system_start A bk cfg b m0) (m, w)"
    and t: "t < n" "w_busy (w t) = Some (H, i, ds, c)"
  obtains k where "serves fuel A (bk t) (reach t) (needs t) (cfg t) (worker_dev m0 (enter_loop A (cfg t) m0 (bk t) (b t)))
      (w_queue (w t)) H i ds c k m (w t)" "w_queue (w t) < num_queues (bk t)"
proof -
  have "worker_ok fuel A (bk t) (reach t) (needs t) (cfg t) (worker_dev m0 (enter_loop A (cfg t) m0 (bk t) (b t))) m (w t)"
    using steps_ok [OF A ok run] t by (simp add: system_ok_def)
  then show thesis using that worker_busy t(2) by (metis worker_ok_def)
qed

lemma system_no_fault:
  assumes A: "abi_ok A" and ok: "\<And>t q. t < n \<Longrightarrow> q < num_queues (bk t) \<Longrightarrow> rings_ok (cfg t) q"
    and run: "(system_step n fuel A bk reach needs cfg)\<^sup>*\<^sup>* (system_start A bk cfg b m0) (m, w)"
    and t: "t < n" "w_busy (w t) = Some (H, i, ds, c)" "c \<noteq> Finished"
  shows "\<exists>x. access A (bk t) (cfg t) (w_queue (w t)) (w_processed (w t) ! w_queue (w t)) c (w_class (w t), m) = Inr x"
proof -
  obtain k where s: "serves fuel A (bk t) (reach t) (needs t) (cfg t) (worker_dev m0 (enter_loop A (cfg t) m0 (bk t) (b t)))
      (w_queue (w t)) H i ds c k m (w t)" and q: "w_queue (w t) < num_queues (bk t)"
    by (rule system_serves [OF A ok run t(1,2)])
  show ?thesis
    using local_backend.serves_safe(3) [OF device [OF t(1)] A ok [OF t(1) q] _ s t(3)] q
    by (auto simp: worker_dev_def enter_loop_def)
qed

text \<open>A thread at work ends by steps of its own, whatever the others have done.\<close>

lemma system_completes:
  assumes A: "abi_ok A" and ok: "\<And>t q. t < n \<Longrightarrow> q < num_queues (bk t) \<Longrightarrow> rings_ok (cfg t) q" and t: "t < n"
  shows "(system_step n fuel A bk reach needs cfg)\<^sup>*\<^sup>* (system_start A bk cfg b m0) (m, w) \<Longrightarrow>
    w_busy (w t) = Some (H, i, ds, c) \<Longrightarrow>
    serves fuel A (bk t) (reach t) (needs t) (cfg t) (worker_dev m0 (enter_loop A (cfg t) m0 (bk t) (b t)))
      (w_queue (w t)) H i ds c k m (w t) \<Longrightarrow> w_queue (w t) < num_queues (bk t) \<Longrightarrow>
    \<exists>m' b'. (system_step n fuel A bk reach needs cfg)\<^sup>*\<^sup>* (m, w)
       (m', w(t := (w t)\<lparr>w_class := b', w_busy := Some (H, i, ds, Finished)\<rparr>))"
proof (induction "5 * length ds + 5 - k" arbitrary: k c m w rule: less_induct)
  case less
  let ?q = "w_queue (w t)" and ?d0 = "worker_dev m0 (enter_loop A (cfg t) m0 (bk t) (b t))"
  note loc = device [OF t] and rings = ok [OF t less.prems(4)]
  have q0: "?q < length (processed ?d0)" using less.prems(4) by (simp add: worker_dev_def enter_loop_def)
  show ?case
  proof (cases "c = Finished")
    case True
    then have "(w t)\<lparr>w_class := w_class (w t), w_busy := Some (H, i, ds, Finished)\<rparr> = w t"
      using less.prems(2) by (cases "w t") simp
    then have "w(t := (w t)\<lparr>w_class := w_class (w t), w_busy := Some (H, i, ds, Finished)\<rparr>) = w" by simp
    then show ?thesis by (metis rtranclp.rtrancl_refl)
  next
    case False
    obtain c' b' m' where acc: "access A (bk t) (cfg t) ?q (w_processed (w t) ! ?q) c (w_class (w t), m) = Inr (c', b', m')"
      using local_backend.serves_safe(3) [OF loc A rings q0 less.prems(3) False] by force
    let ?w = "w(t := (w t)\<lparr>w_class := b', w_busy := Some (H, i, ds, c')\<rparr>)"
    have step: "system_step n fuel A bk reach needs cfg (m, w) (m', ?w)"
      by (rule sys_access [where w = w and t = t and bk = bk and cfg = cfg, OF t less.prems(2) False acc])
    then have run: "(system_step n fuel A bk reach needs cfg)\<^sup>*\<^sup>* (system_start A bk cfg b m0) (m', ?w)"
      using less.prems(1) by (rule rtranclp.rtrancl_into_rtrancl [rotated])
    have "held_apart n bk cfg w t H" using steps_ok [OF A ok less.prems(1)] t less.prems(2) by (auto simp: system_ok_def)
    from local_backend.serves_access [OF loc A rings q0 held_not_all [OF this] less.prems(3) False acc]
    have s: "serves fuel A (bk t) (reach t) (needs t) (cfg t) ?d0 (w_queue (?w t)) H i ds c' (Suc k) m' (?w t)" by simp
    have k: "Suc k \<le> 5 * length ds + 5"
      by (rule local_backend.serves_safe(1) [OF loc A _ _ s]) (use rings q0 in simp_all)
    obtain m2 b2 where more': "(system_step n fuel A bk reach needs cfg)\<^sup>*\<^sup>* (m', ?w)
        (m2, ?w(t := (?w t)\<lparr>w_class := b2, w_busy := Some (H, i, ds, Finished)\<rparr>))"
      using less.hyps [OF _ run _ s] k less.prems(4) by fastforce
    have upd: "?w(t := (?w t)\<lparr>w_class := b2, w_busy := Some (H, i, ds, Finished)\<rparr>)
        = w(t := (w t)\<lparr>w_class := b2, w_busy := Some (H, i, ds, Finished)\<rparr>)" by simp
    have "(system_step n fuel A bk reach needs cfg)\<^sup>*\<^sup>* (m, w)
        (m2, w(t := (w t)\<lparr>w_class := b2, w_busy := Some (H, i, ds, Finished)\<rparr>))"
      by (rule converse_rtranclp_into_rtranclp [where b = "(m', ?w)"]) (rule step, rule more' [unfolded upd])
    then show ?thesis by blast
  qed
qed

lemma system_finishes:
  assumes A: "abi_ok A" and ok: "\<And>t q. t < n \<Longrightarrow> q < num_queues (bk t) \<Longrightarrow> rings_ok (cfg t) q"
    and run: "(system_step n fuel A bk reach needs cfg)\<^sup>*\<^sup>* (system_start A bk cfg b m0) (m, w)"
    and t: "t < n" "w_busy (w t) = Some (H, i, ds, c)"
  shows "\<exists>m' b'. (system_step n fuel A bk reach needs cfg)\<^sup>*\<^sup>* (m, w)
       (m', w(t := (w t)\<lparr>w_class := b', w_busy := Some (H, i, ds, Finished)\<rparr>))"
  using system_serves [OF A ok run t] system_completes [OF A ok t(1) run t(2)] by metis

end

end
