(* ===== verification/Tool_System.thy ===== *)
theory Tool_System
  imports Thread_System
begin

text \<open>
  The device threads that \<^verbatim>\<open>console/tt-bh-linux.cpp\<close> starts: the disk, the network and, when asked for, the
  cloud-init disk (\<open>main_threads\<close> of \<open>Host_Tool\<close>, in this order), as an instance of \<open>Thread_System\<close>.
\<close>

section \<open>One type for the objects of all device classes\<close>

text \<open>In C++ each thread has an object of its own class; here the objects are summands of one type.
  A class's functions are lifted to it; on an object of the other class, which no thread ever
  has, they fail.\<close>

definition lift_op ::
  "('b \<Rightarrow> 'c) \<Rightarrow> ('c \<Rightarrow> 'b option) \<Rightarrow> (nat \<Rightarrow> u64 \<Rightarrow> u64 \<Rightarrow> 'b \<times> mem \<Rightarrow> ('b \<times> mem) res)
     \<Rightarrow> nat \<Rightarrow> u64 \<Rightarrow> u64 \<Rightarrow> 'c \<times> mem \<Rightarrow> ('c \<times> mem) res" where
  "lift_op emb prj f q p l s =
     (case prj (fst s) of
        None \<Rightarrow> Inl Assert_Failed
      | Some b \<Rightarrow> bindR (f q p l (b, snd s)) (\<lambda>s'. Inr (emb (fst s'), snd s')))"

definition lift_backend :: "('b \<Rightarrow> 'c) \<Rightarrow> ('c \<Rightarrow> 'b option) \<Rightarrow> 'b backend \<Rightarrow> 'c backend" where
  "lift_backend emb prj bk =
     \<lparr>process_queue_start = lift_op emb prj (process_queue_start bk), process_queue_data = lift_op emb prj (process_queue_data bk),
      process_queue_complete = lift_op emb prj (process_queue_complete bk),
      queue_has_data = (\<lambda>q x. case prj x of None \<Rightarrow> False | Some b \<Rightarrow> queue_has_data bk q b),
      queue_header_size = queue_header_size bk, num_queues = num_queues bk\<rparr>"

definition lift_needs ::
  "('c \<Rightarrow> 'b option) \<Rightarrow> ('b \<Rightarrow> chain_op \<Rightarrow> nat \<Rightarrow> u64 \<Rightarrow> u64 \<Rightarrow> nat set) \<Rightarrow> 'c \<Rightarrow> chain_op \<Rightarrow> nat \<Rightarrow> u64 \<Rightarrow> u64 \<Rightarrow> nat set" where
  "lift_needs prj needs x = (case prj x of None \<Rightarrow> (\<lambda>_ _ _ _. {}) | Some b \<Rightarrow> needs b)"

lemma lift_run_op: "run_op (lift_backend emb prj bk) c q p l = lift_op emb prj (run_op bk c) q p l"
  by (cases c) (simp_all add: run_op_def lift_backend_def)

lemma lift_sizes [simp]:
  "queue_header_size (lift_backend emb prj bk) = queue_header_size bk" "num_queues (lift_backend emb prj bk) = num_queues bk"
  by (simp_all add: lift_backend_def)

lemma lift_op_InrE:
  assumes "lift_op emb prj f q p l (x, m) = Inr (x', m')"
  obtains b b' where "prj x = Some b" "f q p l (b, m) = Inr (b', m')" "x' = emb b'"
  using assms by (auto simp: lift_op_def bindR_Inr_iff split: option.splits)

lemma lift_local:
  assumes "local_backend bk reach needs"
  shows "local_backend (lift_backend emb prj bk) reach (lift_needs prj needs)"
proof unfold_locales
  fix c q p l x m x' m'
  assume run: "run_op (lift_backend emb prj bk) c q p l (x, m) = Inr (x', m')"
  then obtain b b' where b: "prj x = Some b" "run_op bk c q p l (b, m) = Inr (b', m')" "x' = emb b'"
    unfolding lift_run_op by (rule lift_op_InrE)
  show "same_on (- reach c q p l) m m'"
    by (rule virtio_backend.op_frame [OF local_backend.axioms(1) [OF assms] b(2)])
next
  fix c q p l x m y
  assume run: "run_op (lift_backend emb prj bk) c q p l (x, m) = Inr y"
  then obtain b b' where b: "prj x = Some b" "run_op bk c q p l (b, m) = Inr (b', snd y)"
    unfolding lift_run_op by (metis lift_op_InrE prod.collapse)
  show "reach c q p l \<subseteq> lift_needs prj needs x c q p l"
    using local_backend.reach_needed [OF assms b(2)] by (simp add: lift_needs_def b(1))
next
  fix c q p l x m x' m1 m'
  assume run: "run_op (lift_backend emb prj bk) c q p l (x, m) = Inr (x', m1)"
    and same: "same_on (lift_needs prj needs x c q p l) m m'"
  obtain b b' where b: "prj x = Some b" "run_op bk c q p l (b, m) = Inr (b', m1)" "x' = emb b'"
    using run unfolding lift_run_op by (rule lift_op_InrE)
  obtain m1' where "run_op bk c q p l (b, m') = Inr (b', m1')" "same_on (reach c q p l) m1 m1'"
    using local_backend.op_local [OF assms b(2)] same by (auto simp: lift_needs_def b(1))
  then show "\<exists>m1'. run_op (lift_backend emb prj bk) c q p l (x, m') = Inr (x', m1') \<and> same_on (reach c q p l) m1 m1'"
    unfolding lift_run_op by (intro exI [of _ m1']) (simp add: lift_op_def b(1,3))
qed

text \<open>A chain handed to a class is one handed to the lifted class.\<close>

lemma lift_run_ops:
  assumes "\<And>b. prj (emb b) = Some b"
  shows "run_ops (lift_backend emb prj bk) q ops (emb b, m)
     = bindR (run_ops bk q ops (b, m)) (\<lambda>s. Inr (emb (fst s), snd s))"
proof (induction ops arbitrary: b m)
  case (Cons o' ops)
  obtain c p l where "o' = (c, p, l)" by (cases o')
  then show ?case using Cons
    by (cases "run_op bk c q p (ucast l) (b, m)") (auto simp: lift_run_op lift_op_def assms)
qed simp

lemma lift_ops_within:
  assumes "\<And>b. prj (emb b) = Some b"
  shows "ops_within (lift_backend emb prj bk) (lift_needs prj needs) q H ops (emb b, m) = ops_within bk needs q H ops (b, m)"
proof (induction ops arbitrary: b m)
  case (Cons o' ops)
  obtain c p l where "o' = (c, p, l)" by (cases o')
  then show ?case using Cons
    by (cases "run_op bk c q p (ucast l) (b, m)") (auto simp: lift_run_op lift_op_def lift_needs_def assms)
qed simp

lemma lift_handed:
  assumes "\<And>b. prj (emb b) = Some b" "chain_handed fuel A bk reach needs cfg q H d i ds"
    and d': "memory d' = memory d" "dclass d' = emb (dclass d)" "processed d' ! q = processed d ! q"
  shows "chain_handed fuel A (lift_backend emb prj bk) reach (lift_needs prj needs) cfg q H d' i ds"
proof -
  have "queue_has_data (lift_backend emb prj bk) q (emb b) = queue_has_data bk q b" for b
    by (simp add: lift_backend_def assms(1))
  then show ?thesis
    using assms(2) unfolding chain_handed_def waiting_def d' lift_sizes lift_ops_within [where emb = emb and prj = prj, OF assms(1)]
      lift_run_ops [where emb = emb and prj = prj, OF assms(1)]
    by (auto simp: bindR_def)
qed

section \<open>The tool's device threads\<close>

abbreviation left_of :: "'a + 'b \<Rightarrow> 'a option" where
  "left_of \<equiv> case_sum Some (\<lambda>_. None)"

abbreviation right_of :: "'a + 'b \<Rightarrow> 'b option" where
  "right_of \<equiv> case_sum (\<lambda>_. None) Some"

text \<open>Thread 1 has the network device, the others have disks.\<close>

definition tool_backend :: "blk_abi \<Rightarrow> net_abi \<Rightarrow> 's slirp \<Rightarrow> nat \<Rightarrow> (blk + 's net) backend" where
  "tool_backend B N S t =
     (if t = 1 then lift_backend Inr right_of (net_backend N S) else lift_backend Inl left_of (blk_backend B))"

definition tool_reach :: "net_abi \<Rightarrow> nat \<Rightarrow> chain_op \<Rightarrow> nat \<Rightarrow> u64 \<Rightarrow> u64 \<Rightarrow> nat set" where
  "tool_reach N t = (if t = 1 then net_reach N else blk_reach)"

definition tool_needs :: "blk_abi \<Rightarrow> net_abi \<Rightarrow> nat \<Rightarrow> blk + 's net \<Rightarrow> chain_op \<Rightarrow> nat \<Rightarrow> u64 \<Rightarrow> u64 \<Rightarrow> nat set" where
  "tool_needs B N t = (if t = 1 then lift_needs right_of (net_needs N) else lift_needs left_of (blk_needs B))"

lemma tool_queues: "num_queues (tool_backend B N S t) = (if t = 1 then 2 else 1)"
  by (simp add: tool_backend_def net_backend_def blk_backend_def)

interpretation tool: device_threads n "tool_backend B N S" "tool_reach N" "tool_needs B N" for n B N S
proof (rule device_threads.intro)
  fix t
  show "local_backend (tool_backend B N S t) (tool_reach N t) (tool_needs B N t)"
    by (simp add: tool_backend_def tool_reach_def tool_needs_def lift_local [OF blk_live.local_backend_axioms]
        lift_local [OF net_live.local_backend_axioms])
qed (simp add: tool_queues)

section \<open>Every run of the tool\<close>

text \<open>C3: the tool's device threads are lossless together. Take any run in which disk, network and
  cloud-init disk go round their queues over the memory they share with the driver, the single loads,
  stores and calls of the threads and the changes of the driver following one another in any order. For each
  queue of each device, every posted head has been completed exactly once and in order or still waits,
  and between services the used ring holds the completed heads with their byte counts. No thread at
  work faults, and by steps of its own it comes to the end of its service, wherever the others stand.\<close>

theorem device_threads_exactly_once:
  assumes "abi_ok A" and "\<And>t q. t < n \<Longrightarrow> q < num_queues (tool_backend B N S t) \<Longrightarrow> rings_ok (cfg t) q"
    and "(system_step n fuel A (tool_backend B N S) (tool_reach N) (tool_needs B N) cfg)\<^sup>*\<^sup>*
      (system_start A (tool_backend B N S) cfg b m0) (m, w)"
    and "t < n" "q < num_queues (tool_backend B N S t)"
  shows "w_posted (w t) q = map fst (w_completed (w t) q) @ todo A m (avail (cfg t) ! q) (w_processed (w t) ! q)
     \<and> (w_busy (w t) = None \<or> w_queue (w t) \<noteq> q \<longrightarrow>
          published A m (used (cfg t) ! q) (used_count A m0 (used (cfg t) ! q)) (used_entries (w_completed (w t) q)))
     \<and> (\<forall>H i ds c. w_busy (w t) = Some (H, i, ds, c) \<longrightarrow>
          (c \<noteq> Finished \<longrightarrow> (\<exists>x. access A (tool_backend B N S t) (cfg t) (w_queue (w t)) (w_processed (w t) ! w_queue (w t)) c
             (w_class (w t), m) = Inr x))
          \<and> (\<exists>m' b'. (system_step n fuel A (tool_backend B N S) (tool_reach N) (tool_needs B N) cfg)\<^sup>*\<^sup>* (m, w)
               (m', w(t := (w t)\<lparr>w_class := b', w_busy := Some (H, i, ds, Finished)\<rparr>))))"
  using tool.system_exactly_once [OF assms] tool.system_no_fault [OF assms(1-4)] tool.system_finishes [OF assms(1-4)]
  by blast

text \<open>Disk and network both at work on the guest of \<open>Two_Devices\<close>: each takes its chain, then both finish.\<close>

abbreviation shared_cfg :: "nat \<Rightarrow> devcfg" where
  "shared_cfg t \<equiv> if t = 1 then nic_cfg else sample_cfg"

abbreviation shared_class :: "nat \<Rightarrow> blk + (u8 list list \<times> u8 list list) net" where
  "shared_class t \<equiv> if t = 1 then Inr (dclass shared_net) else Inl (dclass two_dev)"

abbreviation shared_backend :: "nat \<Rightarrow> (blk + (u8 list list \<times> u8 list list) net) backend" where
  "shared_backend \<equiv> tool_backend linux_blk_abi linux_net_abi sample_slirp"

abbreviation request_held :: "nat set" where
  "request_held \<equiv> request_bytes linux_abi sample_cfg (two_dev\<lparr>memory := shared_guest\<rparr>) 0 first_request"

abbreviation buffer_held :: "nat set" where
  "buffer_held \<equiv> receive_bytes linux_abi nic_cfg shared_net 0 0x33300000"

abbreviation shared_step where
  "shared_step \<equiv> system_step 2 16384 linux_abi shared_backend (tool_reach linux_net_abi) (tool_needs linux_blk_abi linux_net_abi)
     shared_cfg"

definition shared_worker :: "nat \<Rightarrow> (blk + (u8 list list \<times> u8 list list) net) worker" where
  "shared_worker t = enter_loop linux_abi (shared_cfg t) shared_guest (shared_backend t) (shared_class t)"

lemma shared_worker_simps:
  "w_busy (shared_worker t) = None" "w_queue (shared_worker t) = 0" "w_completed (shared_worker t) q = []"
  by (simp_all add: shared_worker_def enter_loop_def)

lemma shared_rings: "t < 2 \<Longrightarrow> q < num_queues (shared_backend t) \<Longrightarrow> rings_ok (shared_cfg t) q"
  by (auto simp: tool_queues rings_ok_def nic_cfg_def sample_cfg_def VIEW_def used_region_def avail_region_def less_2_cases_iff
      split: if_splits)

lemma shared_handed:
  "chain_handed 16384 linux_abi (shared_backend 0) (tool_reach linux_net_abi 0) (tool_needs linux_blk_abi linux_net_abi 0)
     (shared_cfg 0) 0 request_held (worker_dev shared_guest (shared_worker 0)) 0 (rq_chain first_request)"
  "chain_handed 16384 linux_abi (shared_backend 1) (tool_reach linux_net_abi 1) (tool_needs linux_blk_abi linux_net_abi 1)
     (shared_cfg 1) 0 buffer_held (worker_dev shared_guest (shared_worker 1)) 0 [(0x33300000, 1526)]"
proof -
  have eqs: "shared_backend 0 = lift_backend Inl left_of (blk_backend linux_blk_abi)"
    "shared_backend 1 = lift_backend Inr right_of (net_backend linux_net_abi sample_slirp)"
    "tool_reach linux_net_abi 0 = blk_reach" "tool_reach linux_net_abi 1 = net_reach linux_net_abi"
    "tool_needs linux_blk_abi linux_net_abi 0 = lift_needs left_of (blk_needs linux_blk_abi)"
    "tool_needs linux_blk_abi linux_net_abi 1 = lift_needs right_of (net_needs linux_net_abi)"
    by (simp_all add: tool_backend_def tool_reach_def tool_needs_def)
  have w: "w_class (shared_worker t) = shared_class t" "0 < num_queues (shared_backend t)"
    "w_processed (shared_worker t) = replicate (num_queues (shared_backend t)) 0" for t
    by (simp_all add: shared_worker_def enter_loop_def tool_queues)
  have net: "chain_handed 16384 linux_abi (net_backend linux_net_abi sample_slirp) (net_reach linux_net_abi)
      (net_needs linux_net_abi) (shared_cfg 1) 0 buffer_held shared_net 0 [(0x33300000, 1526)]"
    using receive_handed [OF shared_buffer] by simp
  have disk: "chain_handed 16384 linux_abi (blk_backend linux_blk_abi) blk_reach (blk_needs linux_blk_abi) (shared_cfg 0) 0
      request_held (two_dev\<lparr>memory := shared_guest\<rparr>) 0 (rq_chain first_request)"
    using disk_handed [OF shared_request] by simp
  show "chain_handed 16384 linux_abi (shared_backend 0) (tool_reach linux_net_abi 0) (tool_needs linux_blk_abi linux_net_abi 0)
     (shared_cfg 0) 0 request_held (worker_dev shared_guest (shared_worker 0)) 0 (rq_chain first_request)"
    unfolding eqs by (rule lift_handed [OF _ disk]) (simp_all add: worker_dev_def w, simp add: two_dev_def)
  show "chain_handed 16384 linux_abi (shared_backend 1) (tool_reach linux_net_abi 1) (tool_needs linux_blk_abi linux_net_abi 1)
     (shared_cfg 1) 0 buffer_held (worker_dev shared_guest (shared_worker 1)) 0 [(0x33300000, 1526)]"
    unfolding eqs by (rule lift_handed [OF _ net]) (simp_all add: worker_dev_def w, simp_all add: shared_net_def)
qed

lemma shared_held:
  "held_apart 2 shared_backend shared_cfg shared_worker 0 request_held"
  "held_apart 2 shared_backend shared_cfg (shared_worker(0 := (shared_worker 0)\<lparr>w_busy := Some (request_held, i, ds, c)\<rparr>)) 1 buffer_held"
proof -
  have rings: "{0x31000000..<0x32000000} \<inter> ring_region nic_cfg r = {}" if "r < 2" for r
    using that by (auto simp: less_2_cases_iff ring_region_def table_region_def avail_region_def used_region_def nic_cfg_def)
  have rings': "{0x33000000..<0x34000000} \<inter> ring_region sample_cfg 0 = {}" "{0x33000000..<0x34000000} \<inter> ring_region nic_cfg 1 = {}"
    by (auto simp: ring_region_def table_region_def avail_region_def used_region_def nic_cfg_def sample_cfg_def)
  have view: "{0x31000000..<0x32000000} \<subseteq> {..<VIEW}" "{0x33000000..<0x34000000} \<subseteq> {..<VIEW}" by (auto simp: VIEW_def)
  have "{0x31000000..<0x32000000 :: nat} \<inter> {0x33000000..<0x34000000} = {}" by auto
  then have "buffer_held \<inter> request_held = {}" using shared_bytes by blast
  moreover have "buffer_held \<inter> ring_region sample_cfg 0 = {}" "buffer_held \<inter> ring_region nic_cfg 1 = {}"
    "request_held \<inter> ring_region nic_cfg 0 = {}" "request_held \<inter> ring_region nic_cfg 1 = {}"
    using shared_bytes rings [of 0] rings [of 1] rings' by (simp_all, blast+)
  moreover have "request_held \<subseteq> {..<VIEW}" "buffer_held \<subseteq> {..<VIEW}" using shared_bytes view by blast+
  ultimately show "held_apart 2 shared_backend shared_cfg shared_worker 0 request_held"
    "held_apart 2 shared_backend shared_cfg (shared_worker(0 := (shared_worker 0)\<lparr>w_busy := Some (request_held, i, ds, c)\<rparr>)) 1 buffer_held"
    unfolding held_apart_def tool_queues
    by (auto simp: less_2_cases_iff shared_worker_simps split: if_splits)
qed

lemma shared_start: "system_start linux_abi shared_backend shared_cfg shared_class shared_guest = (shared_guest, shared_worker)"
  by (simp add: system_start_def shared_worker_def fun_eq_iff)

text \<open>A thread at work runs to the end of its service and publishes.\<close>

lemma shared_finish:
  assumes "shared_step\<^sup>*\<^sup>* (shared_guest, shared_worker) (m, w)" "t < 2" "w_busy (w t) = Some (H, i, ds, c)"
  obtains m' b' where "shared_step\<^sup>*\<^sup>* (shared_guest, shared_worker)
    (m', w(t := finish_queue (shared_backend t) i ds ((w t)\<lparr>w_class := b', w_busy := Some (H, i, ds, Finished)\<rparr>)))"
proof -
  obtain m' b' where run: "shared_step\<^sup>*\<^sup>* (m, w) (m', w(t := (w t)\<lparr>w_class := b', w_busy := Some (H, i, ds, Finished)\<rparr>))"
    using tool.system_finishes [OF abi_ok_linux shared_rings assms(1) [folded shared_start] assms(2,3)] by blast
  let ?w = "w(t := (w t)\<lparr>w_class := b', w_busy := Some (H, i, ds, Finished)\<rparr>)"
  have "shared_step (m', ?w) (m', ?w(t := finish_queue (shared_backend t) i ds (?w t)))"
    by (rule sys_finish [where w = ?w and H = H, OF assms(2)]) simp
  moreover have "?w(t := finish_queue (shared_backend t) i ds (?w t))
      = w(t := finish_queue (shared_backend t) i ds ((w t)\<lparr>w_class := b', w_busy := Some (H, i, ds, Finished)\<rparr>))" by simp
  ultimately have "shared_step (m', ?w)
      (m', w(t := finish_queue (shared_backend t) i ds ((w t)\<lparr>w_class := b', w_busy := Some (H, i, ds, Finished)\<rparr>)))"
    by (simp only:)
  with rtranclp_trans [OF assms(1) run] that show thesis by (blast intro: rtranclp.rtrancl_into_rtrancl)
qed

lemma shared_run:
  obtains m w where "shared_step\<^sup>*\<^sup>* (shared_guest, shared_worker) (m, w)" "w_busy (w 0) = None" "w_busy (w 1) = None"
    "w_completed (w 0) 0 = [(0, 528)]" "w_completed (w 1) 0 = [(0, 1526)]"
proof -
  let ?w1 = "shared_worker(0 := (shared_worker 0)\<lparr>w_busy := Some (request_held, 0, rq_chain first_request, Load_Idx)\<rparr>)"
  let ?w2 = "?w1(1 := (?w1 1)\<lparr>w_busy := Some (buffer_held, 0, [(0x33300000, 1526)], Load_Idx)\<rparr>)"
  have "shared_step (shared_guest, shared_worker) (shared_guest, ?w1)"
    by (rule sys_take [where w = shared_worker and t = 0])
      (use shared_handed(1) shared_held(1) in \<open>simp_all add: shared_worker_simps\<close>)
  moreover have "shared_step (shared_guest, ?w1) (shared_guest, ?w2)"
    by (rule sys_take [where w = ?w1 and t = 1])
      (use shared_handed(2) shared_held(2) in \<open>simp_all add: shared_worker_simps\<close>)
  ultimately have run2: "shared_step\<^sup>*\<^sup>* (shared_guest, shared_worker) (shared_guest, ?w2)"
    by (rule converse_rtranclp_into_rtranclp [OF _ r_into_rtranclp])
  define w2 where "w2 = ?w2"
  have w2: "w_busy (w2 0) = Some (request_held, 0, rq_chain first_request, Load_Idx)" by (simp add: w2_def)
  obtain m3 b3 where run3: "shared_step\<^sup>*\<^sup>* (shared_guest, shared_worker)
      (m3, w2(0 := finish_queue (shared_backend 0) 0 (rq_chain first_request)
         ((w2 0)\<lparr>w_class := b3, w_busy := Some (request_held, 0, rq_chain first_request, Finished)\<rparr>)))"
    by (rule shared_finish [OF run2 [folded w2_def] _ w2]) (simp, rule that)
  define w3 where "w3 = w2(0 := finish_queue (shared_backend 0) 0 (rq_chain first_request)
         ((w2 0)\<lparr>w_class := b3, w_busy := Some (request_held, 0, rq_chain first_request, Finished)\<rparr>))"
  have "ucast (chain_len (rq_chain first_request)) = (528 :: u32)"
    by (simp add: rq_chain_def two_requests_def)
  then have w3: "w_busy (w3 1) = Some (buffer_held, 0, [(0x33300000, 1526)], Load_Idx)" "w_queue (w3 1) = 0"
    "w_completed (w3 1) 0 = []" "w_busy (w3 0) = None" "w_completed (w3 0) 0 = [(0, 528)]"
    by (simp_all add: w3_def w2_def finish_queue_def shared_worker_simps)
  obtain m4 b4 where run4: "shared_step\<^sup>*\<^sup>* (shared_guest, shared_worker)
      (m4, w3(1 := finish_queue (shared_backend 1) 0 [(0x33300000, 1526)]
         ((w3 1)\<lparr>w_class := b4, w_busy := Some (buffer_held, 0, [(0x33300000, 1526)], Finished)\<rparr>)))"
    by (rule shared_finish [OF run3 [folded w3_def] _ w3(1)]) (simp, rule that)
  show thesis by (rule that [OF run4]) (use w3 in \<open>simp_all add: finish_queue_def\<close>)
qed

theorem device_threads_exactly_once_witness:
  "\<exists>m w. shared_step\<^sup>*\<^sup>* (system_start linux_abi shared_backend shared_cfg shared_class shared_guest) (m, w)
     \<and> w_completed (w 0) 0 = [(0, 528)] \<and> w_completed (w 1) 0 = [(0, 1526)]
     \<and> published linux_abi m (used sample_cfg ! 0) (used_count linux_abi shared_guest (used sample_cfg ! 0)) [(0, 528)]
     \<and> published linux_abi m (used nic_cfg ! 0) (used_count linux_abi shared_guest (used nic_cfg ! 0)) [(0, 1526)]"
proof -
  obtain m w where w: "shared_step\<^sup>*\<^sup>* (system_start linux_abi shared_backend shared_cfg shared_class shared_guest) (m, w)"
    "w_busy (w 0) = None" "w_busy (w 1) = None" "w_completed (w 0) 0 = [(0, 528)]" "w_completed (w 1) 0 = [(0, 1526)]"
    unfolding shared_start by (rule shared_run)
  note all = device_threads_exactly_once [OF abi_ok_linux shared_rings w(1)]
  have "published linux_abi m (used sample_cfg ! 0) (used_count linux_abi shared_guest (used sample_cfg ! 0)) [(0, 528)]"
    using all [of 0 0] w by (simp add: tool_queues)
  moreover have "published linux_abi m (used nic_cfg ! 0) (used_count linux_abi shared_guest (used nic_cfg ! 0)) [(0, 1526)]"
    using all [of 1 0] w by (simp add: tool_queues)
  ultimately show ?thesis using w by blast
qed

end
