(* ===== verification/Device_Types.thy ===== *)
theory Device_Types
  imports Disk_Run Net_Run
begin

text \<open>
  What stays true of a device's state over every run of its loop that has not met a fault
  (\<^verbatim>\<open>device_loop\<close> with the classes of \<^verbatim>\<open>disk.hpp\<close> and \<^verbatim>\<open>network.hpp\<close>): the shapes of its lists, the
  geometry of the disk, the header flag. A class states which predicate its functions keep within a
  chain and which one its last function establishes; the loop then keeps it over rounds. Which posts
  do lead to a fault is \<open>net_transmit_outcome\<close> and \<open>disk_request_outcome\<close>.
\<close>

section \<open>Typed device classes\<close>

locale typed_backend = virtio_backend bk reach
  for bk :: "'b backend" and reach :: "chain_op \<Rightarrow> nat \<Rightarrow> u64 \<Rightarrow> u64 \<Rightarrow> nat set" +
  fixes within :: "'b \<Rightarrow> bool"
    and between :: "'b \<Rightarrow> bool"
  assumes weaken: "between b \<Longrightarrow> within b"
    and step_within: "c \<noteq> O_Complete \<Longrightarrow> run_op bk c q p l (b, m) = Inr (b', m') \<Longrightarrow> within b \<Longrightarrow> within b'"
    and complete_between: "run_op bk O_Complete q p l (b, m) = Inr (b', m') \<Longrightarrow> within b \<Longrightarrow> between b'"
begin

lemma walk_between:
  "walk_chain f A bk start D q i n s = Inr (n', s') \<Longrightarrow> within (fst s) \<Longrightarrow> between (fst s')"
proof (induction f arbitrary: i n s)
  case 0
  then show ?case by simp
next
  case (Suc f)
  obtain b m b' m' where s: "s = (b, m)" "s' = (b', m')" by (cases s, cases s')
  obtain l a fl where ld: "ld32 VIEW m (desc_at A D i + desc_len A) = Inr l"
    "ld64 VIEW m (desc_at A D i + desc_addr A) = Inr a" "ld16 VIEW m (desc_at A D i + desc_flags A) = Inr fl"
    using Suc.prems(1) s by (auto simp: bindR_Inr_iff)
  show ?case
  proof (cases "fl AND DESC_F_NEXT A \<noteq> 0")
    case True
    let ?c = "if n < queue_header_size bk then O_Start else O_Data"
    have op: "(if n < queue_header_size bk then process_queue_start bk else process_queue_data bk)
        = run_op bk ?c" by (simp add: run_op_def)
    obtain b1 m1 j where "run_op bk ?c q (guest_offset start a) (ucast l) (b, m) = Inr (b1, m1)"
      and rest: "walk_chain f A bk start D q j (n + ucast l) (b1, m1) = Inr (n', s')"
      using Suc.prems(1) True ld s unfolding walk_chain.simps op by (auto simp: bindR_Inr_iff)
    then have "within b1" using step_within [of ?c] Suc.prems(2) s by (auto split: if_splits)
    then show ?thesis using Suc.IH [OF rest] by simp
  next
    case False
    then have "run_op bk O_Complete q (guest_offset start a) (ucast l) (b, m) = Inr (b', m')"
      using Suc.prems(1) ld s by (auto simp: bindR_Inr_iff run_op_def)
    then show ?thesis using complete_between Suc.prems(2) s by simp
  qed
qed

lemma service_between:
  "service_queue fuel A bk cfg q d = Inr d' \<Longrightarrow> between (dclass d) \<Longrightarrow>
     between (dclass d') \<and> length (processed d') = length (processed d)"
  using weaken walk_between
  by (fastforce simp: service_queue_def set_interrupt_def Let_def bindR_Inr_iff split: if_splits)

lemma service_all_between:
  "service_all fuel A bk cfg qs d = Inr d' \<Longrightarrow> between (dclass d) \<Longrightarrow>
     between (dclass d') \<and> length (processed d') = length (processed d)"
proof (induction qs arbitrary: d)
  case (Cons q qs)
  then show ?case using service_between by (fastforce simp: bindR_Inr_iff)
qed simp

lemma rounds_between:
  "device_rounds fuel A bk cfg rs d = Inr x \<Longrightarrow> between (dclass d) \<Longrightarrow>
     \<forall>r \<in> set rs. \<forall>b m. between b \<longrightarrow> between (fst (r_env r (b, m))) \<Longrightarrow>
     between (dclass (run_end x)) \<and> length (processed (run_end x)) = length (processed d)"
proof (induction rs arbitrary: d)
  case (Cons r rs)
  have env: "between (dclass (disturb r d))"
    using Cons.prems(2,3) by (auto simp: disturb_def split: prod.splits)
      (metis fst_conv)
  show ?case
  proof (cases "goes_on r")
    case True
    then obtain d1 where d1: "service_all fuel A bk cfg [0..<num_queues bk] (disturb r d) = Inr d1"
      "device_rounds fuel A bk cfg rs d1 = Inr x"
      using Cons.prems(1) unfolding device_rounds_Cons by (auto simp: bindR_Inr_iff)
    then show ?thesis
      using Cons.IH [OF d1(2)] service_all_between [OF d1(1) env] Cons.prems(3) by simp
  next
    case False
    then show ?thesis using Cons.prems(1,2) unfolding device_rounds_Cons by auto
  qed
qed auto

lemma loop_between:
  "device_loop fuel A bk cfg rs d = Inr x \<Longrightarrow> between (dclass d) \<Longrightarrow>
     \<forall>r \<in> set rs. \<forall>b m. between b \<longrightarrow> between (fst (r_env r (b, m))) \<Longrightarrow>
     between (dclass (run_end x)) \<and> length (processed (run_end x)) = num_queues bk"
  unfolding device_loop_def using rounds_between by fastforce

end

section \<open>The network device\<close>

text \<open>The packet buffer keeps its 1514 bytes, and no header is pending between two chains.\<close>

definition net_within :: "'s net \<Rightarrow> bool" where
  "net_within b \<longleftrightarrow> length (buffer b) = PACKET_SIZE"

definition net_between :: "'s net \<Rightarrow> bool" where
  "net_between b \<longleftrightarrow> length (buffer b) = PACKET_SIZE \<and> \<not> header_processed b"

lemma net_start_buffer: "net_start N q p l s = Inr s' \<Longrightarrow> buffer (fst s') = buffer (fst s)"
  by (auto simp: net_start_def Let_def bindR_Inr_iff split: if_splits)

lemma net_receive_buffer:
  "net_receive S p s = Inr s' \<Longrightarrow> length (buffer (fst s)) = PACKET_SIZE \<Longrightarrow> length (buffer (fst s')) = PACKET_SIZE"
  by (auto simp: net_receive_def res_simps Let_def split: prod.splits option.splits if_splits)

lemma net_transmit_buffer:
  "net_transmit S p l s = Inr s' \<Longrightarrow> length (buffer (fst s)) = PACKET_SIZE \<Longrightarrow> length (buffer (fst s')) = PACKET_SIZE"
  by (auto simp: net_transmit_def res_simps)

lemma net_complete_typed:
  assumes "net_complete N S q p l s = Inr s'" "length (buffer (fst s)) = PACKET_SIZE"
  shows "net_between (fst s')"
proof -
  obtain a1 s1 s2 where
    s1: "(if \<not> header_processed (fst s) then bindR (net_start N q p l s) (\<lambda>s1. Inr (p + net_hdr_size N, s1))
          else Inr (p, s)) = Inr (a1, s1)"
    and s2: "(if q = 0 then net_receive S a1 s1 else if q = 1 then net_transmit S a1 l s1 else Inr s1) = Inr s2"
    and s': "s' = ((fst s2)\<lparr>header_processed := False\<rparr>, snd s2)"
    using assms(1) by (fastforce simp: net_complete_def bindR_Inr_iff)
  have "length (buffer (fst s1)) = PACKET_SIZE"
    using s1 assms(2) net_start_buffer [of N q p l s s1] by (auto simp: bindR_Inr_iff split: if_splits)
  then have "length (buffer (fst s2)) = PACKET_SIZE"
    using s2 net_receive_buffer [of S a1 s1 s2] net_transmit_buffer [of S a1 l s1 s2] by (auto split: if_splits)
  then show ?thesis by (simp add: s' net_between_def)
qed

interpretation net_typed: typed_backend "net_backend N S" "net_reach N" net_within net_between for N S
proof (unfold_locales, goal_cases)
  case (1 b)
  then show ?case by (simp add: net_within_def net_between_def)
next
  case (2 c q p l b m b' m')
  then show ?case
    using net_start_buffer [of N q p l "(b, m)" "(b', m')"]
    by (cases c) (auto simp: run_op_def net_backend_def net_data_def net_within_def)
next
  case (3 q p l b m b' m')
  then show ?case
    using net_complete_typed [of N S q p l "(b, m)" "(b', m')"]
    by (simp add: run_op_def net_backend_def net_within_def)
qed

text \<open>In a run without a fault the network device keeps a position for each of its two queues, and between
  two chains no header is pending, so the next chain is not taken for the rest of the last one.\<close>

lemma net_state_typed:
  assumes "device_loop fuel A (net_backend N S) cfg rs d = Inr x"
    and "length (buffer (dclass d)) = PACKET_SIZE" "\<not> header_processed (dclass d)"
    and "\<forall>r \<in> set rs. \<forall>b m. buffer (fst (r_env r (b, m))) = buffer b
            \<and> header_processed (fst (r_env r (b, m))) = header_processed b"
  shows "length (processed (run_end x)) = 2 \<and> length (buffer (dclass (run_end x))) = 1514
     \<and> \<not> header_processed (dclass (run_end x))"
  using net_typed.loop_between [OF assms(1)] assms(2-4)
  by (simp add: net_between_def PACKET_SIZE_def)

section \<open>The block device\<close>

definition blk_geometry :: "blk \<Rightarrow> blk \<Rightarrow> bool" where
  "blk_geometry b0 b \<longleftrightarrow>
     fd b = fd b0 \<and> mapped b = mapped b0 \<and> file_size b = file_size b0 \<and> num_sectors b = num_sectors b0
     \<and> same_on {mapping_size b0..} (mapped_data b0) (mapped_data b)"

lemma blk_geometry_refl: "blk_geometry b b"
  by (simp add: blk_geometry_def)

lemma blk_geometry_poke:
  "blk_geometry b0 b \<Longrightarrow> p + length bs \<le> mapping_size b \<Longrightarrow> blk_geometry b0 (b\<lparr>mapped_data := poke (mapped_data b) p bs\<rparr>)"
  by (auto simp: blk_geometry_def same_on_def poke_def mapping_size_def)

interpretation blk_typed: typed_backend "blk_backend B" blk_reach "blk_geometry b0" "blk_geometry b0" for B b0
proof (unfold_locales, goal_cases)
  case (2 c q p l b m b' m')
  show ?case
  proof (cases c)
    case O_Start
    then show ?thesis
      using 2 by (auto simp: run_op_def blk_backend_def blk_start_def blk_geometry_def res_simps)
  next
    case O_Data
    then show ?thesis
      using 2 by (auto simp: run_op_def blk_backend_def blk_data_def res_simps Let_def
          intro: blk_geometry_poke split: option.splits if_splits)
  qed (use 2 in simp)
next
  case (3 q p l b m b' m')
  then show ?case by (auto simp: run_op_def blk_backend_def blk_complete_def res_simps)
qed

text \<open>In a run without a fault the block device keeps the geometry that its constructor set.\<close>

lemma blk_geometry_kept:
  assumes "device_loop fuel A (blk_backend B) cfg rs d = Inr x"
    and "\<forall>r \<in> set rs. \<forall>b m. fst (r_env r (b, m)) = b"
  shows "length (processed (run_end x)) = 1 \<and> num_sectors (dclass (run_end x)) = num_sectors (dclass d)
     \<and> mapping_size (dclass (run_end x)) = mapping_size (dclass d)
     \<and> same_on {mapping_size (dclass d)..} (mapped_data (dclass d)) (mapped_data (dclass (run_end x)))"
  using blk_typed.loop_between [OF assms(1) blk_geometry_refl] assms(2)
  by (simp add: blk_geometry_def mapping_size_def)

end
