(* ===== verification/Device_Thread.thy ===== *)
theory Device_Thread
  imports Device_Types Virtio_Setup
begin

text \<open>
  A device thread of the tool from end to end (\<^verbatim>\<open>disk_main\<close> and \<^verbatim>\<open>network_main\<close> of
  \<^verbatim>\<open>console/tt-bh-linux.cpp\<close>): the object is constructed, set up with the driver, serves its queues, is
  destroyed when its loop returns, and all again until the exit flag is set. Here constructors, setup
  and loop are composed, and the system calls of a whole pass are one trace.
\<close>

section \<open>What the host is asked for\<close>

text \<open>The requests to the kernel driver, the image file of a disk, and the network stack of a network
  device with the port it forwards.\<close>

datatype host_event =
    Kernel kevent
  | Img_Open int
  | Img_Map int u64
  | Img_Unmap int
  | Img_Close int
  | Slirp_Open int
  | Slirp_Close int

fun kernel_events :: "host_event list \<Rightarrow> kevent list" where
  "kernel_events [] = []"
| "kernel_events (Kernel e # evs) = e # kernel_events evs"
| "kernel_events (_ # evs) = kernel_events evs"

lemma kernel_events_append [simp]: "kernel_events (xs @ ys) = kernel_events xs @ kernel_events ys"
  by (induction xs rule: kernel_events.induct) auto

lemma kernel_events_Kernel [simp]: "kernel_events (map Kernel es) = es"
  by (induction es) auto

text \<open>The system calls of the constructor of \<open>VirtioBlk\<close>.\<close>

definition VirtioBlk_events :: "int option \<Rightarrow> u64 option \<Rightarrow> mem option \<Rightarrow> host_event list" where
  "VirtioBlk_events opened stat img =
     (case opened of
        None \<Rightarrow> []
      | Some f \<Rightarrow>
          Img_Open f #
          (case stat of
             None \<Rightarrow> [Img_Close f]
           | Some sz \<Rightarrow> (case img of None \<Rightarrow> [Img_Close f] | Some m \<Rightarrow> [Img_Map f sz])))"

text \<open>\<open>VirtioDevice\<close> has a defaulted destructor, and its classes add none: the members go in the
  reverse of their declaration, the interrupt window, the register window, then the tile.\<close>

definition VirtioDevice_delete :: "vdev \<Rightarrow> kevent list" where
  "VirtioDevice_delete v =
     TlbHandle_delete (w_handle (v_irq_window v)) @ TlbHandle_delete (w_handle (v_window v))
     @ L2CPU_delete (v_l2cpu v)"

section \<open>Setup, then the loop\<close>

text \<open>How far a pass has come: in \<open>device_setup\<close>, in \<open>device_loop\<close>, or behind it.\<close>

datatype 'b attempt = In_Setup dsetup | In_Loop "'b dev" | Left_Loop "'b dev"

definition serve ::
  "nat \<Rightarrow> vring_abi \<Rightarrow> mmio_abi \<Rightarrow> 'b backend \<Rightarrow> u32 list \<Rightarrow> u64 \<Rightarrow> nat \<Rightarrow> mmio
     \<Rightarrow> (bool \<times> (mmio \<Rightarrow> mmio)) list \<Rightarrow> 'b round list \<Rightarrow> 'b \<Rightarrow> mem \<Rightarrow> 'b attempt res" where
  "serve fuel A M bk feats start irq r ins rs b m =
     bindR (device_setup M (num_queues bk) feats ins (setup_start r)) (\<lambda>s.
       if phase s \<noteq> Ready then Inr (In_Setup s)
       else bindR (device_loop fuel A bk (setup_cfg start irq s) rs
                     \<lparr>memory = m, dclass = b, processed = [], interrupt_status = int_status (regs s),
                      interrupt_register = []\<rparr>)
              (\<lambda>e. Inr (case e of Inl d \<Rightarrow> Left_Loop d | Inr d \<Rightarrow> In_Loop d)))"

text \<open>The object is destroyed at the end of the loop body; a fault ends the process before.\<close>

definition finish :: "vdev \<Rightarrow> host_event list \<Rightarrow> 'b attempt res \<Rightarrow> host_event list \<times> 'b attempt res" where
  "finish v evs r =
     (case r of
        Inr (Left_Loop d) \<Rightarrow> (evs @ map Kernel (VirtioDevice_delete v), r)
      | _ \<Rightarrow> (evs, r))"

section \<open>One pass of a thread\<close>

text \<open>What a pass meets: the exit flag at its start, the kernel's answers, the chip, the driver's part in
  the setup, what the guest's memory has become by the start of the loop; and for each class its own
  system calls and the rounds of its loop.\<close>

record pass =
  p_exit :: bool
  p_env :: l2cpu_env
  p_window :: kmd_reply
  p_irq :: kmd_reply
  p_noc :: noc
  p_setup :: "(bool \<times> (mmio \<Rightarrow> mmio)) list"
  p_guest :: "mem \<Rightarrow> mem"

record disk_pass = pass +
  p_open :: "int option"
  p_stat :: "u64 option"
  p_img :: "mem option"
  p_rounds :: "blk round list"

record 's net_pass = pass +
  p_stack :: 's
  p_buffer :: "u8 list"
  n_rounds :: "'s net round list"

definition disk_attempt ::
  "nat \<Rightarrow> vring_abi \<Rightarrow> mmio_abi \<Rightarrow> blk_abi \<Rightarrow> int \<Rightarrow> int \<Rightarrow> nat \<Rightarrow> u64 \<Rightarrow> disk_pass
     \<Rightarrow> host_event list \<times> blk attempt res" where
  "disk_attempt fuel A M B ttdevice l2cpu_idx irq off p =
     (case VirtioDevice_new (p_env p) (p_window p) (p_irq p) (p_noc p) ttdevice l2cpu_idx off of
        (e, Inl f) \<Rightarrow> (map Kernel e, Inl f)
      | (e, Inr (v, N)) \<Rightarrow>
          let (b, st) = VirtioBlk_new B (p_open p) (p_stat p) (p_img p);
              bk = (blk_backend B)\<lparr>queue_header_size := header_size st\<rparr>;
              r = (v_regs v)\<lparr>dev_id := (case device_id st of None \<Rightarrow> 0 | Some i \<Rightarrow> i)\<rparr>
          in finish v (map Kernel e @ VirtioBlk_events (p_open p) (p_stat p) (p_img p))
               (serve fuel A M bk (device_features_list st) (get_starting_address (v_l2cpu v)) irq r
                  (p_setup p) (p_rounds p) b (p_guest p (l2cpu_mem N (v_l2cpu v)))))"

definition net_attempt ::
  "nat \<Rightarrow> vring_abi \<Rightarrow> mmio_abi \<Rightarrow> net_abi \<Rightarrow> 's slirp \<Rightarrow> int \<Rightarrow> int \<Rightarrow> nat \<Rightarrow> u64 \<Rightarrow> 's net_pass
     \<Rightarrow> host_event list \<times> 's net attempt res" where
  "net_attempt fuel A M X S ttdevice l2cpu_idx irq off p =
     (case VirtioDevice_new (p_env p) (p_window p) (p_irq p) (p_noc p) ttdevice l2cpu_idx off of
        (e, Inl f) \<Rightarrow> (map Kernel e, Inl f)
      | (e, Inr (v, N)) \<Rightarrow>
          let (b, st) = VirtioNet_new X (p_stack p) (p_buffer p) ttdevice l2cpu_idx;
              bk = (net_backend X S)\<lparr>queue_header_size := net_header_size st, num_queues := net_num_queues st\<rparr>;
              r = (v_regs v)\<lparr>dev_id := net_device_id st\<rparr>
          in finish v (map Kernel e @ [Slirp_Open (forwarded_port st)])
               (serve fuel A M bk (net_features_list st) (get_starting_address (v_l2cpu v)) irq r
                  (p_setup p) (n_rounds p) b (p_guest p (l2cpu_mem N (v_l2cpu v)))))"

section \<open>The thread\<close>

datatype thread_end = Retrying | Serving | Stopped | Stopped_And_Set_Flag

text \<open>The \<open>while\<close> loop of the thread over its passes; nothing is caught.\<close>

fun device_main ::
  "('p \<Rightarrow> bool) \<Rightarrow> ('p \<Rightarrow> host_event list \<times> 'b attempt res) \<Rightarrow> 'p list \<Rightarrow> host_event list \<times> thread_end res" where
  "device_main exit_thread_flag run [] = ([], Inr Retrying)"
| "device_main exit_thread_flag run (p # ps) =
     (if exit_thread_flag p then ([], Inr Stopped)
      else case run p of
             (e, Inl f) \<Rightarrow> (e, Inl f)
           | (e, Inr (Left_Loop d)) \<Rightarrow>
               (let (e', r) = device_main exit_thread_flag run ps in (e @ e', r))
           | (e, Inr _) \<Rightarrow> (e, Inr Serving))"

definition disk_main ::
  "nat \<Rightarrow> vring_abi \<Rightarrow> mmio_abi \<Rightarrow> blk_abi \<Rightarrow> int \<Rightarrow> int \<Rightarrow> nat \<Rightarrow> u64 \<Rightarrow> disk_pass list
     \<Rightarrow> host_event list \<times> thread_end res" where
  "disk_main fuel A M B ttdevice l2cpu_idx irq off =
     device_main p_exit (disk_attempt fuel A M B ttdevice l2cpu_idx irq off)"

definition network_main ::
  "nat \<Rightarrow> vring_abi \<Rightarrow> mmio_abi \<Rightarrow> net_abi \<Rightarrow> 's slirp \<Rightarrow> int \<Rightarrow> int \<Rightarrow> nat \<Rightarrow> u64 \<Rightarrow> 's net_pass list
     \<Rightarrow> host_event list \<times> thread_end res" where
  "network_main fuel A M X S ttdevice l2cpu_idx irq off =
     device_main p_exit (net_attempt fuel A M X S ttdevice l2cpu_idx irq off)"

section \<open>Announced is served\<close>

text \<open>The queues as the driver announced them, as the loop's configuration.\<close>

definition announced :: "u64 \<Rightarrow> nat \<Rightarrow> (u64 \<times> u64 \<times> u64) list \<Rightarrow> devcfg" where
  "announced start irq as =
     \<lparr>starting_address_of = start, interrupt_number = irq, desc = map (guest_offset start \<circ> fst) as,
      avail = map (guest_offset start \<circ> fst \<circ> snd) as, used = map (guest_offset start \<circ> snd \<circ> snd) as\<rparr>"

definition at_start :: "mem \<Rightarrow> 'b \<Rightarrow> u32 \<Rightarrow> nat \<Rightarrow> 'b dev" where
  "at_start m b i nq =
     \<lparr>memory = m, dclass = b, processed = replicate nq 0, interrupt_status = i, interrupt_register = []\<rparr>"

text \<open>After a complete bring-up the loop runs on the announced queues.\<close>

lemma serve_announced:
  assumes "mmio_abi_ok M" "status r = 0" "sel_generation r = 0" "length feats = 2"
    and "num_queues bk = length as" "0 < length as" "length as < 2 ^ 32"
  shows "\<exists>i. serve fuel A M bk feats start irq r (bring_up M as) rs b m
     = bindR (device_rounds fuel A bk (announced start irq as) rs (at_start m b i (length as)))
         (\<lambda>e. Inr (case e of Inl d \<Rightarrow> Left_Loop d | Inr d \<Rightarrow> In_Loop d))"
proof -
  obtain s where s: "device_setup M (length as) feats (bring_up M as) (setup_start r) = Inr s" "phase s = Ready"
    "descriptor_table_address s = map fst as" "available_ring_address s = map (fst \<circ> snd) as"
    "used_ring_address s = map (snd \<circ> snd) as"
    using bring_up_ready [OF assms(1-4,6,7)] by blast
  have "setup_cfg start irq s = announced start irq as"
    by (simp add: setup_cfg_def announced_def s(3-5) o_assoc)
  then show ?thesis
    using s(1,2) assms(5) by (auto simp: serve_def device_loop_def at_start_def)
qed

text \<open>The registers after the constructors.\<close>

lemma VirtioDevice_new_regs:
  "VirtioDevice_new env kw ki N t l off = (e, Inr (v, N')) \<Longrightarrow> v_regs v = mmio_reset"
  by (auto simp: VirtioDevice_new_def split: prod.splits sum.splits if_splits)

lemma disk_backend_opened:
  "blk_abi_ok B \<Longrightarrow> VirtioBlk_new B (Some f) (Some sz) (Some img) = (b, st) \<Longrightarrow>
     (blk_backend B)\<lparr>queue_header_size := header_size st\<rparr> = blk_backend B
     \<and> length (device_features_list st) = 2 \<and> mapped b \<and> mapped_data b = img"
  by (auto simp: VirtioBlk_new_def blk_backend_def Let_def)

lemma waiting_requests_at_start:
  "waiting_requests A B cfg (at_start m b i n) rqs \<longleftrightarrow> waiting_requests A B cfg (at_start m b j n) rqs"
  by (simp add: waiting_requests_def waiting_def at_start_def)

lemma waiting_at_start: "waiting A cfg q (at_start m b i n) = waiting A cfg q (at_start m b j n)"
  by (simp add: waiting_def at_start_def)

text \<open>C1: a disk thread from end to end. The kernel grants the windows, the image opens, the driver
  brings the device up and announces where its queue is, and then posts requests: the thread's pass
  runs without a fault and executes the requests one after the other on the image and on the tile's
  memory as an abstract disk does, on the rings the driver announced and no others; each is
  completed in order with its byte count, none is left, and the interrupt is raised for each.\<close>

theorem disk_thread_serves:
  assumes "abi_ok A" "blk_abi_ok B" "mmio_abi_ok M"
    and new: "VirtioDevice_new (p_env p) (p_window p) (p_irq p) (p_noc p) ttdevice l2cpu_idx off = (e, Inr (v, N))"
    and img: "p_open p = Some f" "p_stat p = Some sz" "p_img p = Some img"
      "VirtioBlk_new B (p_open p) (p_stat p) (p_img p) = (b, st)"
    and drv: "p_setup p = bring_up M [a]" "p_rounds p = replicate (length rqs) quiet"
    and cfg: "cfg = announced (get_starting_address (v_l2cpu v)) irq [a]" "rings_apart cfg 1"
    and m: "m = p_guest p (l2cpu_mem N (v_l2cpu v))"
    and w: "waiting_requests A B cfg (at_start m b 0 1) rqs"
  shows "\<exists>evs d. disk_attempt 16384 A M B ttdevice l2cpu_idx irq off p = (evs, Inr (In_Loop d))
     \<and> (let s = fold (disk_exec B) rqs (img, m)
        in mapped_data (dclass d) = fst s \<and> same_on (- used_region (used cfg ! 0)) (snd s) (memory d))
     \<and> published A (memory d) (used cfg ! 0) (used_count A m (used cfg ! 0))
          (zip (map ucast (waiting A cfg 0 (at_start m b 0 1))) (map completion rqs))
     \<and> waiting A cfg 0 d = []
     \<and> interrupt_register d = concat (replicate (length rqs) [push_bit (irq - 5) 1, 0])"
proof -
  define r where "r = (v_regs v)\<lparr>dev_id := (case device_id st of None \<Rightarrow> 0 | Some i \<Rightarrow> i)\<rparr>"
  have r: "status r = 0" "sel_generation r = 0"
    using VirtioDevice_new_regs [OF new] by (simp_all add: r_def mmio_reset_def)
  note opn = disk_backend_opened [OF assms(2) img(4) [unfolded img(1-3)]]
  let ?run = "serve 16384 A M (blk_backend B) (device_features_list st) (get_starting_address (v_l2cpu v)) irq r
        (bring_up M [a]) (replicate (length rqs) quiet) b m"
  have "\<exists>i. ?run
     = bindR (device_rounds 16384 A (blk_backend B) cfg (replicate (length rqs) quiet) (at_start m b i 1))
         (\<lambda>e. Inr (case e of Inl d \<Rightarrow> Left_Loop d | Inr d \<Rightarrow> In_Loop d))"
    using serve_announced [OF assms(3) r, of "device_features_list st" "blk_backend B" "[a]"] opn
    unfolding cfg(1) by simp
  then obtain i where run: "?run
     = bindR (device_rounds 16384 A (blk_backend B) cfg (replicate (length rqs) quiet) (at_start m b i 1))
         (\<lambda>e. Inr (case e of Inl d \<Rightarrow> Left_Loop d | Inr d \<Rightarrow> In_Loop d))"
    by blast
  have d0: "memory (at_start m b i 1) = m" "mapped_data (dclass (at_start m b i 1)) = img"
    "0 < length (processed (at_start m b i 1))" "interrupt_register (at_start m b i 1) = []"
    "interrupt_number cfg = irq"
    using opn by (simp_all add: at_start_def cfg(1) announced_def)
  have wi: "waiting_requests A B cfg (at_start m b i 1) rqs"
    using w waiting_requests_at_start [of A B cfg m b 0] by blast
  obtain d where d: "device_rounds 16384 A (blk_backend B) cfg (replicate (length rqs) quiet) (at_start m b i 1) = Inr (Inr d)"
    "mapped_data (dclass d) = fst (fold (disk_exec B) rqs (img, m))"
    "same_on (- used_region (used cfg ! 0)) (snd (fold (disk_exec B) rqs (img, m))) (memory d)"
    "delivers A cfg 0 (at_start m b i 1) (zip (waiting A cfg 0 (at_start m b i 1)) (map completion rqs)) d"
    "waiting A cfg 0 d = []"
    "interrupt_register d = concat (replicate (length rqs) [push_bit (irq - 5) 1, 0])"
    using disk_rounds [OF assms(1,2) cfg(2) wi, of m] d0 by auto
  have "published A m (used cfg ! 0) (used_count A m (used cfg ! 0)) []" by (simp add: published_def)
  with d(4) have pub: "published A (memory d) (used cfg ! 0) (used_count A m (used cfg ! 0))
      (zip (map ucast (waiting A cfg 0 (at_start m b 0 1))) (map completion rqs))"
    unfolding delivers_def d0(1) waiting_at_start [of A cfg 0 m b i 1 0] by (fastforce simp: zip_map1)
  have "?run = Inr (In_Loop d)"
    unfolding run d(1) by simp
  then have "\<exists>evs. disk_attempt 16384 A M B ttdevice l2cpu_idx irq off p = (evs, Inr (In_Loop d))"
    using new img(4) opn unfolding r_def m
    by (simp add: disk_attempt_def Let_def finish_def drv)
  then show ?thesis using d(2,3,5,6) pub by (auto simp: Let_def)
qed

lemma waiting_requests_cfg:
  assumes "starting_address_of cfg' = starting_address_of cfg" "desc cfg' ! 0 = desc cfg ! 0"
    "avail cfg' ! 0 = avail cfg ! 0" "used cfg' ! 0 = used cfg ! 0"
  shows "waiting_requests A B cfg' d rqs \<longleftrightarrow> waiting_requests A B cfg d rqs"
  using assms by (simp add: waiting_requests_def waiting_def chain_of_def ring_region_def)

lemma sample_device:
  assumes "0 \<le> idx" "idx < 4" "off \<in> {0x200000, 0x400000, 0x600000}"
  shows "\<exists>e v N'. VirtioDevice_new sample_env sample_reply sample_reply N 0 idx off = (e, Inr (v, N'))
     \<and> l2cpu_starting_address_mapping idx = Some (starting_address (v_l2cpu v))"
proof -
  obtain e0 c N' where new: "L2CPU_new sample_env N idx 0 = (e0, Inr (c, N'))"
    using sample_l2cpu_tile [OF assms(1,2)] by blast
  have start: "l2cpu_starting_address_mapping idx = Some (starting_address c)"
    "l2cpu_memory_size_mapping idx = Some (memory_size c)"
    using L2CPU_new_Inr [OF new] by blast+
  then have win: "unat (mmio_address c off) mod 0x200000 = 0"
    using assms(3) tables_range(3) [OF start]
    by (auto simp: mmio_address_def get_starting_address_def get_memory_size_def)
  have reply: "rep_allocate sample_reply \<noteq> None" "rep_configure sample_reply" "rep_mmap sample_reply \<noteq> None"
    by (simp_all add: sample_reply_def)
  have w: "\<exists>e w. get_persistent_2M_tlb_window c a sample_reply = (e, Inr w)" for a
    using sample_window_new [of sample_reply] reply by (auto simp: get_persistent_2M_tlb_window_def)
  obtain e1 w1 where w1: "get_persistent_2M_tlb_window c (mmio_address c off) sample_reply = (e1, Inr w1)"
    using w by blast
  obtain e2 w2 where w2: "get_persistent_2M_tlb_window c interrupt_address sample_reply = (e2, Inr w2)"
    using w by blast
  have "unat (TlbWindow_get_window w1) = unat (mmio_address c off) mod 0x200000"
    using two_meg_window_mem(2) [OF w1] by simp
  then show ?thesis
    using start(1) win by (auto simp: VirtioDevice_new_def new w1 w2 TWO_MEG_def)
qed

lemma sample_image:
  "VirtioBlk_new linux_blk_abi (Some 5) (Some 65536) (Some (\<lambda>p. of_nat p))
     = (sample_blk, \<lparr>device_id = Some 2, capacity = Some 128, device_features_list = [0, 1], header_size = 16\<rparr>)"
  by (simp add: VirtioBlk_new_def linux_blk_abi_def sample_blk_def sector_size_def Let_def)

text \<open>A guest that brings its disk up on tile 0 and posts a write and a read.\<close>

definition sample_pass :: disk_pass where
  "sample_pass =
     \<lparr>p_exit = False, p_env = sample_env, p_window = sample_reply, p_irq = sample_reply,
      p_noc = (\<lambda>_ _ _. 0),
      p_setup = bring_up linux_mmio_abi [(0x400031000000, 0x400031100000, 0x400031200000)],
      p_guest = (\<lambda>_. two_guest'), p_open = Some 5, p_stat = Some 65536, p_img = Some (\<lambda>p. of_nat p),
      p_rounds = replicate 2 quiet\<rparr>"

lemma mmio_abi_ok_linux: "mmio_abi_ok linux_mmio_abi"
  by (simp add: mmio_abi_ok_def linux_mmio_abi_def)

theorem disk_thread_serves_witness:
  "\<exists>evs d. disk_attempt 16384 linux_abi linux_mmio_abi linux_blk_abi 0 0 33 0x200000 sample_pass
       = (evs, Inr (In_Loop d))
     \<and> mapped_data (dclass d) 1536 = 7 \<and> length (interrupt_register d) = 4"
proof -
  let ?a = "(0x400031000000, 0x400031100000, 0x400031200000) :: u64 \<times> u64 \<times> u64"
  let ?cfg = "announced 0x400030000000 33 [?a]"
  obtain e v N where new: "VirtioDevice_new sample_env sample_reply sample_reply (\<lambda>_ _ _. 0) 0 0 0x200000 = (e, Inr (v, N))"
    and start: "get_starting_address (v_l2cpu v) = 0x400030000000"
    using sample_device [of 0 "0x200000" "\<lambda>_ _ _. 0"] by (auto simp: tables_at get_starting_address_def)
  have cfg: "starting_address_of ?cfg = starting_address_of sample_cfg" "desc ?cfg ! 0 = desc sample_cfg ! 0"
    "avail ?cfg ! 0 = avail sample_cfg ! 0" "used ?cfg ! 0 = used sample_cfg ! 0"
    by (simp_all add: announced_def sample_cfg_def guest_offset_def)
  have apart: "rings_apart ?cfg 1"
    using sample_rings_apart(1) cfg by (simp add: rings_apart_def rings_ok_def announced_def)
  have two: "at_start two_guest' sample_blk 0 1 = two_dev" by (simp add: at_start_def two_dev_def)
  have w: "waiting_requests linux_abi linux_blk_abi ?cfg (at_start two_guest' sample_blk 0 1) two_requests"
    unfolding two waiting_requests_cfg [OF cfg] by (rule two_waiting_requests)
  have len: "length two_requests = 2" by (simp add: two_requests_def)
  obtain evs d where d: "disk_attempt 16384 linux_abi linux_mmio_abi linux_blk_abi 0 0 33 0x200000 sample_pass
       = (evs, Inr (In_Loop d))"
    "mapped_data (dclass d) = fst (fold (disk_exec linux_blk_abi) two_requests (\<lambda>p. of_nat p, two_guest'))"
    "interrupt_register d = concat (replicate 2 [push_bit (33 - 5) 1, 0])"
    using disk_thread_serves [OF abi_ok_linux blk_abi_ok_linux mmio_abi_ok_linux, of sample_pass 0 0 "0x200000" e v N 5 65536
        "\<lambda>p. of_nat p" sample_blk _ ?a two_requests ?cfg 33 two_guest'] new sample_image apart w start
    by (auto simp: sample_pass_def len Let_def)
  have "fst (fold (disk_exec linux_blk_abi) two_requests (\<lambda>p. of_nat p, two_guest')) 1536 = 7"
    by (simp add: two_requests_def disk_exec_def linux_blk_abi_def Let_def two_guest_reads poke_def)
  then show ?thesis using d by (auto simp: numeral_2_eq_2)
qed

section \<open>What a thread gives back\<close>

lemma VirtioDevice_balance:
  assumes "VirtioDevice_new env kw ki N t l off = (e, Inr (v, N'))"
  shows "balance (e @ VirtioDevice_delete v) (Res_Tlb f i) = 0"
proof -
  obtain e0 c N0 e1 e2 where "L2CPU_new env N l t = (e0, Inr (c, N0))"
    "TlbWindow_new TWO_MEG (l2_fd c) (fst (coordinates c)) (snd (coordinates c)) (mmio_address c off) None False kw
       = (e1, Inr (v_window v))"
    "TlbWindow_new TWO_MEG (l2_fd c) (fst (coordinates c)) (snd (coordinates c)) interrupt_address None False ki
       = (e2, Inr (v_irq_window v))"
    "v_l2cpu v = c" "e = e0 @ e1 @ e2"
    using assms
    by (auto simp: VirtioDevice_new_def get_persistent_2M_tlb_window_def split: prod.splits sum.splits if_splits)
  then show ?thesis
    by (simp add: VirtioDevice_delete_def TlbHandle_delete_balance TlbWindow_new_balance L2CPU_new_tlbs
        L2CPU_delete_tlbs)
qed

lemma VirtioDevice_late:
  assumes "VirtioDevice_new env kw ki N t l off = (e, Inr (v, N'))"
  shows "late_frees closed (e @ VirtioDevice_delete v) = view_tlbs (L2CPU_new env N l t)"
proof -
  obtain e0 c N0 e1 e2 where new: "L2CPU_new env N l t = (e0, Inr (c, N0))" and w:
    "TlbWindow_new TWO_MEG (l2_fd c) (fst (coordinates c)) (snd (coordinates c)) (mmio_address c off) None False kw
       = (e1, Inr (v_window v))"
    "TlbWindow_new TWO_MEG (l2_fd c) (fst (coordinates c)) (snd (coordinates c)) interrupt_address None False ki
       = (e2, Inr (v_irq_window v))" and v:
    "v_l2cpu v = c" "e = e0 @ e1 @ e2"
    using assms
    by (auto simp: VirtioDevice_new_def get_persistent_2M_tlb_window_def split: prod.splits sum.splits if_splits)
  show ?thesis
    using L2CPU_life_late [OF new, of "e1 @ e2 @ TlbHandle_delete (w_handle (v_irq_window v)) @ TlbHandle_delete (w_handle (v_window v))"
        closed] TlbWindow_on_descriptor [OF w(1)] TlbWindow_on_descriptor [OF w(2)]
    by (simp add: v VirtioDevice_delete_def)
qed

text \<open>The releases of a thread's passes that come too late: in each pass those of the view's two windows.\<close>

definition pass_views :: "int \<Rightarrow> int \<Rightarrow> 'a pass_scheme \<Rightarrow> (int \<times> u32) list" where
  "pass_views t l p = view_tlbs (L2CPU_new (p_env p) (p_noc p) l t)"

lemma pass_views_length:
  "VirtioDevice_new (p_env p) kw ki (p_noc p) t l off = (e, Inr (v, N)) \<Longrightarrow> length (pass_views t l p) = 2"
  by (auto simp: VirtioDevice_new_def pass_views_def view_tlbs_def split: prod.splits sum.splits)

lemma passes_late:
  assumes "\<And>p closed. p \<in> set ps \<Longrightarrow> late_frees closed (kernel_events (fst (run p))) = views p"
    and "\<And>p f i. p \<in> set ps \<Longrightarrow> balance (kernel_events (fst (run p))) (Res_Tlb f i) = 0"
  shows "late_frees closed (kernel_events (concat (map (fst \<circ> run) ps))) = concat (map views ps)"
    "tlbs_held closed (kernel_events (concat (map (fst \<circ> run) ps))) x = int (count_list (concat (map views ps)) x)"
proof -
  show late: "late_frees closed (kernel_events (concat (map (fst \<circ> run) ps))) = concat (map views ps)"
    using assms(1) by (induction ps arbitrary: closed) (simp_all add: late_frees_append)
  have "balance (kernel_events (concat (map (fst \<circ> run) ps))) (Res_Tlb f i) = 0" for f i
    using assms(2) by (induction ps) simp_all
  then show "tlbs_held closed (kernel_events (concat (map (fst \<circ> run) ps))) x = int (count_list (concat (map views ps)) x)"
    by (simp add: tlbs_held_late late)
qed

text \<open>Image descriptors and mappings, and network stacks, that a trace leaves behind.\<close>

fun left_behind :: "host_event \<Rightarrow> int \<times> int \<times> int" where
  "left_behind (Img_Open f) = (1, 0, 0)"
| "left_behind (Img_Close f) = (-1, 0, 0)"
| "left_behind (Img_Map f n) = (0, 1, 0)"
| "left_behind (Img_Unmap f) = (0, -1, 0)"
| "left_behind (Slirp_Open p) = (0, 0, 1)"
| "left_behind (Slirp_Close p) = (0, 0, -1)"
| "left_behind (Kernel e) = (0, 0, 0)"

definition image_fds :: "host_event list \<Rightarrow> int" where
  "image_fds evs = sum_list (map (fst \<circ> left_behind) evs)"

definition image_maps :: "host_event list \<Rightarrow> int" where
  "image_maps evs = sum_list (map (fst \<circ> snd \<circ> left_behind) evs)"

definition slirp_stacks :: "host_event list \<Rightarrow> int" where
  "slirp_stacks evs = sum_list (map (snd \<circ> snd \<circ> left_behind) evs)"

lemma left_behind_simps [simp]:
  "image_fds [] = 0" "image_maps [] = 0" "slirp_stacks [] = 0"
  "image_fds (xs @ ys) = image_fds xs + image_fds ys"
  "image_maps (xs @ ys) = image_maps xs + image_maps ys"
  "slirp_stacks (xs @ ys) = slirp_stacks xs + slirp_stacks ys"
  "image_fds (e # xs) = fst (left_behind e) + image_fds xs"
  "image_maps (e # xs) = fst (snd (left_behind e)) + image_maps xs"
  "slirp_stacks (e # xs) = snd (snd (left_behind e)) + slirp_stacks xs"
  "image_fds (map Kernel es) = 0" "image_maps (map Kernel es) = 0" "slirp_stacks (map Kernel es) = 0"
  by (simp_all add: image_fds_def image_maps_def slirp_stacks_def o_def)

definition opened_image :: "disk_pass \<Rightarrow> bool" where
  "opened_image p \<longleftrightarrow> p_open p \<noteq> None \<and> p_stat p \<noteq> None \<and> p_img p \<noteq> None"

lemma VirtioBlk_events_behind:
  "kernel_events (VirtioBlk_events opened stat img) = []"
  "image_fds (VirtioBlk_events (p_open p) (p_stat p) (p_img p)) = of_bool (opened_image p)"
  "image_maps (VirtioBlk_events (p_open p) (p_stat p) (p_img p)) = of_bool (opened_image p)"
  by (auto simp: VirtioBlk_events_def opened_image_def split: option.splits)

lemma finish_left:
  assumes "finish v evs r = (evs', Inr (Left_Loop d))"
  shows "r = Inr (Left_Loop d)" "evs' = evs @ map Kernel (VirtioDevice_delete v)"
  using assms by (auto simp: finish_def split: sum.splits attempt.splits)

lemma disk_attempt_left:
  assumes "disk_attempt fuel A M B t l irq off p = (evs, Inr (Left_Loop d))"
  shows "balance (kernel_events evs) (Res_Tlb f i) = 0" "late_frees closed (kernel_events evs) = pass_views t l p"
    "length (pass_views t l p) = 2" "image_fds evs = of_bool (opened_image p)" "image_maps evs = of_bool (opened_image p)"
proof -
  obtain e v N where new: "VirtioDevice_new (p_env p) (p_window p) (p_irq p) (p_noc p) t l off = (e, Inr (v, N))"
    using assms by (auto simp: disk_attempt_def split: prod.splits sum.splits)
  have evs: "evs = map Kernel e @ VirtioBlk_events (p_open p) (p_stat p) (p_img p) @ map Kernel (VirtioDevice_delete v)"
    using assms new by (auto simp: disk_attempt_def Let_def dest: finish_left split: prod.splits)
  show "balance (kernel_events evs) (Res_Tlb f i) = 0" "late_frees closed (kernel_events evs) = pass_views t l p"
    using VirtioDevice_balance [OF new, of f i] VirtioDevice_late [OF new, of closed]
    by (simp_all add: evs VirtioBlk_events_behind pass_views_def)
  show "length (pass_views t l p) = 2" by (rule pass_views_length [OF new])
  show "image_fds evs = of_bool (opened_image p)" "image_maps evs = of_bool (opened_image p)"
    by (simp_all add: evs VirtioBlk_events_behind)
qed

lemma device_main_left:
  assumes "\<And>p. p \<in> set ps \<Longrightarrow> \<not> flag p \<and> (\<exists>evs d. run p = (evs, Inr (Left_Loop d)))"
  shows "device_main flag run ps = (concat (map (fst \<circ> run) ps), Inr Retrying)"
  using assms
proof (induction ps)
  case (Cons p ps)
  obtain evs d where "run p = (evs, Inr (Left_Loop d))" using Cons.prems [of p] by auto
  then show ?case using Cons.IH Cons.prems by simp
qed simp

text \<open>C31: a disk thread whose passes have all ended, as they do each time the chip is reset, has
  released in every pass each window it made through the descriptor it was made with, while that was
  open, but for the two windows of the 8 GiB view: counting the releases in time only, exactly these
  two per pass are still held, and their releases, asked for after the close, are the only late
  ones. And the class has no destructor, so each pass that opened its image has left a file
  descriptor and a mapping of the image behind, and they add up for as long as the tool runs.\<close>

theorem disk_passes_leak_image:
  assumes "\<forall>p \<in> set ps. \<not> p_exit p \<and> (\<exists>evs d. disk_attempt fuel A M B t l irq off p = (evs, Inr (Left_Loop d)))"
  shows "\<exists>evs. disk_main fuel A M B t l irq off ps = (evs, Inr Retrying)
     \<and> late_frees {} (kernel_events evs) = concat (map (pass_views t l) ps)
     \<and> length (concat (map (pass_views t l) ps)) = 2 * length ps
     \<and> (\<forall>x. tlbs_held {} (kernel_events evs) x = int (count_list (concat (map (pass_views t l) ps)) x))
     \<and> image_fds evs = int (length (filter opened_image ps))
     \<and> image_maps evs = int (length (filter opened_image ps))"
proof -
  let ?run = "disk_attempt fuel A M B t l irq off"
  let ?evs = "\<lambda>ps. concat (map (fst \<circ> ?run) ps)"
  have left: "\<exists>evs d. ?run p = (evs, Inr (Left_Loop d))" if "p \<in> set ps" for p using assms that by blast
  have views: "late_frees closed (kernel_events (fst (?run p))) = pass_views t l p"
    "balance (kernel_events (fst (?run p))) (Res_Tlb f i) = 0" if "p \<in> set ps" for p closed f i
    using left [OF that] disk_attempt_left(1,2) by fastforce+
  have "length (concat (map (pass_views t l) ps)) = 2 * length ps
     \<and> image_fds (?evs ps) = int (length (filter opened_image ps))
     \<and> image_maps (?evs ps) = int (length (filter opened_image ps))"
    using assms
  proof (induction ps)
    case (Cons p ps)
    obtain evs d where "?run p = (evs, Inr (Left_Loop d))" using Cons.prems by auto
    then show ?case using Cons disk_attempt_left(3-5) [of fuel A M B t l irq off p evs d] by simp
  qed simp
  moreover have "disk_main fuel A M B t l irq off ps = (?evs ps, Inr Retrying)"
    unfolding disk_main_def using assms by (intro device_main_left) blast
  moreover have "late_frees {} (kernel_events (?evs ps)) = concat (map (pass_views t l) ps)"
    by (rule passes_late(1)) (simp_all add: views)
  moreover have "\<forall>x. tlbs_held {} (kernel_events (?evs ps)) x = int (count_list (concat (map (pass_views t l) ps)) x)"
    by (intro allI passes_late(2)) (simp_all add: views)
  ultimately show ?thesis by blast
qed

text \<open>The chip is reset under the sample disk: the magic number is gone in the first round.\<close>

definition reset_pass :: disk_pass where
  "reset_pass = sample_pass\<lparr>p_rounds := [quiet\<lparr>r_magic := 0\<rparr>]\<rparr>"

lemma reset_pass_leaves:
  "\<exists>evs d. disk_attempt 16384 linux_abi linux_mmio_abi linux_blk_abi 0 0 33 0x200000 reset_pass
     = (evs, Inr (Left_Loop d))"
proof -
  obtain e v N where new: "VirtioDevice_new sample_env sample_reply sample_reply (\<lambda>_ _ _. 0) 0 0 0x200000 = (e, Inr (v, N))"
    using sample_device [of 0 "0x200000" "\<lambda>_ _ _. 0"] by auto
  have regs: "status (v_regs v) = 0" "sel_generation (v_regs v) = 0"
    using VirtioDevice_new_regs [OF new] by (simp_all add: mmio_reset_def)
  have bk: "(blk_backend linux_blk_abi)\<lparr>queue_header_size := 16\<rparr> = blk_backend linux_blk_abi"
    by (simp add: blk_backend_def linux_blk_abi_def)
  have gone: "device_rounds 16384 linux_abi bk cfg [quiet\<lparr>r_magic := 0\<rparr>] d = Inr (Inl d)" for bk cfg and d :: "blk dev"
    by (simp add: quiet_def VIRT_MAGIC_def)
  have "\<exists>d. serve 16384 linux_abi linux_mmio_abi (blk_backend linux_blk_abi) [0, 1] (get_starting_address (v_l2cpu v)) 33
      ((v_regs v)\<lparr>dev_id := 2\<rparr>) (bring_up linux_mmio_abi [(0x400031000000, 0x400031100000, 0x400031200000)])
      [quiet\<lparr>r_magic := 0\<rparr>] sample_blk two_guest' = Inr (Left_Loop d)"
    using serve_announced [OF mmio_abi_ok_linux, of "(v_regs v)\<lparr>dev_id := 2\<rparr>" "[0, 1]" "blk_backend linux_blk_abi"
        "[(0x400031000000, 0x400031100000, 0x400031200000)]" 16384 linux_abi "get_starting_address (v_l2cpu v)" 33
        "[quiet\<lparr>r_magic := 0\<rparr>]" sample_blk two_guest'] regs
    by (auto simp: gone simp del: device_rounds.simps)
  then show ?thesis
    by (auto simp: disk_attempt_def reset_pass_def sample_pass_def new sample_image bk finish_def)
qed

theorem disk_passes_leak_image_witness:
  "\<exists>evs. disk_main 16384 linux_abi linux_mmio_abi linux_blk_abi 0 0 33 0x200000 [reset_pass, reset_pass]
     = (evs, Inr Retrying) \<and> length (late_frees {} (kernel_events evs)) = 4 \<and> image_fds evs = 2 \<and> image_maps evs = 2"
proof -
  have left: "\<forall>p \<in> set [reset_pass, reset_pass]. \<not> p_exit p \<and> (\<exists>evs d. disk_attempt 16384 linux_abi linux_mmio_abi
      linux_blk_abi 0 0 33 0x200000 p = (evs, Inr (Left_Loop d)))"
    using reset_pass_leaves by (simp add: reset_pass_def sample_pass_def)
  have "opened_image reset_pass" by (simp add: opened_image_def reset_pass_def sample_pass_def)
  then show ?thesis using disk_passes_leak_image [OF left] by auto
qed

text \<open>The network class leaves its network stack behind, and with it the forwarded port, which the next
  pass asks for again.\<close>

lemma net_attempt_left:
  assumes "net_attempt fuel A M X S t l irq off p = (evs, Inr (Left_Loop d))"
  shows "balance (kernel_events evs) (Res_Tlb f i) = 0" "late_frees closed (kernel_events evs) = pass_views t l p"
    "slirp_stacks evs = 1"
proof -
  obtain e v N where new: "VirtioDevice_new (p_env p) (p_window p) (p_irq p) (p_noc p) t l off = (e, Inr (v, N))"
    using assms by (auto simp: net_attempt_def split: prod.splits sum.splits)
  obtain port where evs: "evs = map Kernel e @ [Slirp_Open port] @ map Kernel (VirtioDevice_delete v)"
    using assms new by (auto simp: net_attempt_def Let_def dest: finish_left split: prod.splits)
  show "balance (kernel_events evs) (Res_Tlb f i) = 0" "late_frees closed (kernel_events evs) = pass_views t l p"
    "slirp_stacks evs = 1"
    using VirtioDevice_balance [OF new, of f i] VirtioDevice_late [OF new, of closed]
    by (simp_all add: evs pass_views_def)
qed

lemma net_passes_leak_stack:
  assumes "\<forall>p \<in> set ps. \<not> p_exit p \<and> (\<exists>evs d. net_attempt fuel A M X S t l irq off p = (evs, Inr (Left_Loop d)))"
  shows "\<exists>evs. network_main fuel A M X S t l irq off ps = (evs, Inr Retrying)
     \<and> late_frees {} (kernel_events evs) = concat (map (pass_views t l) ps)
     \<and> (\<forall>x. tlbs_held {} (kernel_events evs) x = int (count_list (concat (map (pass_views t l) ps)) x))
     \<and> slirp_stacks evs = int (length ps)"
proof -
  let ?run = "net_attempt fuel A M X S t l irq off"
  let ?evs = "\<lambda>ps. concat (map (fst \<circ> ?run) ps)"
  have views: "late_frees closed (kernel_events (fst (?run p))) = pass_views t l p"
    "balance (kernel_events (fst (?run p))) (Res_Tlb f i) = 0" if "p \<in> set ps" for p closed f i
    using assms that net_attempt_left(1,2) by fastforce+
  have "slirp_stacks (?evs ps) = int (length ps)"
    using assms
  proof (induction ps)
    case (Cons p ps)
    obtain evs d where "?run p = (evs, Inr (Left_Loop d))" using Cons.prems by auto
    then show ?case using Cons net_attempt_left(3) [of fuel A M X S t l irq off p evs d] by simp
  qed simp
  moreover have "network_main fuel A M X S t l irq off ps = (?evs ps, Inr Retrying)"
    unfolding network_main_def using assms by (intro device_main_left) blast
  moreover have "late_frees {} (kernel_events (?evs ps)) = concat (map (pass_views t l) ps)"
    by (rule passes_late(1)) (simp_all add: views)
  moreover have "\<forall>x. tlbs_held {} (kernel_events (?evs ps)) x = int (count_list (concat (map (pass_views t l) ps)) x)"
    by (intro allI passes_late(2)) (simp_all add: views)
  ultimately show ?thesis by blast
qed

section \<open>Shutting down\<close>

text \<open>The flag is set while a pass is in setup or in the loop: what the pass meets is what it has met so
  far, then iterations of setup with the flag set, or a round with the flag set.\<close>

definition flag_set :: "(bool \<times> (mmio \<Rightarrow> mmio)) list \<Rightarrow> blk round \<Rightarrow> blk attempt \<Rightarrow> disk_pass \<Rightarrow> disk_pass" where
  "flag_set ins r a p =
     (case a of
        In_Setup s \<Rightarrow> p\<lparr>p_setup := p_setup p @ ins, p_rounds := [r]\<rparr>
      | In_Loop d \<Rightarrow> p\<lparr>p_rounds := p_rounds p @ [r]\<rparr>
      | Left_Loop d \<Rightarrow> p)"

lemma phases_left_bound: "phases_left q \<le> 4"
  by (cases q) simp_all

lemma device_rounds_exit:
  "device_rounds fuel A bk cfg rs d = Inr (Inr d') \<Longrightarrow> r_exit r \<Longrightarrow>
     device_rounds fuel A bk cfg (rs @ [r]) d = Inr (Inl d')"
proof (induction rs arbitrary: d)
  case (Cons x rs)
  then show ?case by (auto simp: bindR_Inr_iff split: if_splits)
qed simp

lemma serve_exit:
  assumes "serve fuel A M bk feats start irq r ins rs b m = Inr (In_Setup s)"
    and "\<forall>x \<in> set ins'. fst x" "4 \<le> length ins'" "r_exit rd"
  shows "\<exists>d. serve fuel A M bk feats start irq r (ins @ ins') [rd] b m = Inr (Left_Loop d)"
proof -
  obtain s1 where s1: "device_setup M (num_queues bk) feats ins (setup_start r) = Inr s1"
    using assms(1) by (auto simp: serve_def bindR_Inr_iff)
  obtain s2 where "device_setup M (num_queues bk) feats ins' s1 = Inr s2" "phase s2 = Ready"
    using setup_exits [OF assms(2), of s1] phases_left_bound [of "phase s1"] assms(3) by (meson order_trans)
  then show ?thesis
    using s1 assms(4) by (auto simp: serve_def device_setup_append device_loop_def)
qed

lemma serve_exit_loop:
  assumes "serve fuel A M bk feats start irq r ins rs b m = Inr (In_Loop d)" and "r_exit rd"
  shows "serve fuel A M bk feats start irq r ins (rs @ [rd]) b m = Inr (Left_Loop d)"
proof -
  obtain s e where s: "device_setup M (num_queues bk) feats ins (setup_start r) = Inr s" "phase s = Ready"
    and e: "device_loop fuel A bk (setup_cfg start irq s) rs \<lparr>memory = m, dclass = b, processed = [],
        interrupt_status = int_status (regs s), interrupt_register = []\<rparr> = Inr e"
      "In_Loop d = (case e of Inl d \<Rightarrow> Left_Loop d | Inr d \<Rightarrow> In_Loop d)"
    using assms(1) by (auto simp: serve_def bindR_Inr_iff split: if_splits)
  then have "e = Inr d" by (simp split: sum.splits)
  then show ?thesis
    using s e(1) device_rounds_exit [OF _ assms(2)] by (simp add: serve_def device_loop_def)
qed

text \<open>C29: shutting down reaches a disk thread wherever it stands. If a pass has come to any point of
  setup or loop without a fault when the flag is set, it needs at most four more iterations of setup
  and one look at the loop's condition to return, it destroys the device, and the thread ends; no
  answer of the driver is needed.\<close>

theorem disk_thread_stops:
  assumes sofar: "disk_attempt fuel A M B t l irq off p = (evs, Inr a)"
    and "\<forall>x \<in> set ins. fst x" "4 \<le> length ins" "r_exit r" "\<not> p_exit p" "p_exit q"
  shows "\<exists>evs'. disk_main fuel A M B t l irq off (flag_set ins r a p # q # qs) = (evs', Inr Stopped)"
proof -
  obtain e v N where new: "VirtioDevice_new (p_env p) (p_window p) (p_irq p) (p_noc p) t l off = (e, Inr (v, N))"
    using sofar by (auto simp: disk_attempt_def split: prod.splits sum.splits)
  obtain b st where img: "VirtioBlk_new B (p_open p) (p_stat p) (p_img p) = (b, st)" by fastforce
  let ?serve = "\<lambda>p. serve fuel A M ((blk_backend B)\<lparr>queue_header_size := header_size st\<rparr>) (device_features_list st)
      (get_starting_address (v_l2cpu v)) irq ((v_regs v)\<lparr>dev_id := (case device_id st of None \<Rightarrow> 0 | Some i \<Rightarrow> i)\<rparr>)
      (p_setup p) (p_rounds p) b (p_guest p (l2cpu_mem N (v_l2cpu v)))"
  have fin: "disk_attempt fuel A M B t l irq off p' = finish v
      (map Kernel e @ VirtioBlk_events (p_open p) (p_stat p) (p_img p)) (?serve p')"
    if "p' \<in> {p, flag_set ins r a p}" for p'
    using that new img
    by (auto simp: disk_attempt_def Let_def flag_set_def split: attempt.splits)
  have now: "?serve p = Inr a"
    using sofar unfolding fin [OF insertI1] by (auto simp: finish_def split: sum.splits attempt.splits)
  have "\<exists>d. ?serve (flag_set ins r a p) = Inr (Left_Loop d)"
  proof (cases a)
    case (In_Setup s)
    then show ?thesis using serve_exit [OF now [unfolded In_Setup] assms(2-4)] by (simp add: flag_set_def)
  next
    case (In_Loop d)
    then show ?thesis using serve_exit_loop [OF now [unfolded In_Loop] assms(4)] by (simp add: flag_set_def)
  next
    case (Left_Loop d)
    then show ?thesis using now by (simp add: flag_set_def)
  qed
  then have "\<exists>evs' d. disk_attempt fuel A M B t l irq off (flag_set ins r a p) = (evs', Inr (Left_Loop d))"
    using fin [of "flag_set ins r a p"] by (auto simp: finish_def)
  moreover have "\<not> p_exit (flag_set ins r a p)" using assms(5) by (simp add: flag_set_def split: attempt.splits)
  ultimately show ?thesis using assms(6) by (auto simp: disk_main_def)
qed

theorem disk_thread_stops_witness:
  "\<exists>evs. disk_main 16384 linux_abi linux_mmio_abi linux_blk_abi 0 0 33 0x200000
      [flag_set (replicate 4 (True, id)) (quiet\<lparr>r_exit := True\<rparr>) (In_Setup (setup_start (mmio_reset\<lparr>dev_id := 2\<rparr>)))
         (sample_pass\<lparr>p_setup := []\<rparr>), sample_pass\<lparr>p_exit := True\<rparr>] = (evs, Inr Stopped)"
proof -
  obtain e v N where new: "VirtioDevice_new sample_env sample_reply sample_reply (\<lambda>_ _ _. 0) 0 0 0x200000 = (e, Inr (v, N))"
    using sample_device [of 0 "0x200000" "\<lambda>_ _ _. 0"] by auto
  have "\<exists>evs. disk_attempt 16384 linux_abi linux_mmio_abi linux_blk_abi 0 0 33 0x200000 (sample_pass\<lparr>p_setup := []\<rparr>)
      = (evs, Inr (In_Setup (setup_start (mmio_reset\<lparr>dev_id := 2\<rparr>))))"
    using new VirtioDevice_new_regs [OF new]
    by (simp add: disk_attempt_def sample_pass_def sample_image finish_def serve_def setup_start_def)
  then show ?thesis
    using disk_thread_stops [of 16384 linux_abi linux_mmio_abi linux_blk_abi 0 0 33 "0x200000"
        "sample_pass\<lparr>p_setup := []\<rparr>" _ _ "replicate 4 (True, id)" "quiet\<lparr>r_exit := True\<rparr>"
        "sample_pass\<lparr>p_exit := True\<rparr>" "[]"]
    by (auto simp: sample_pass_def)
qed

end
