(* ===== verification/Nic_Run.thy ===== *)
theory Nic_Run
  imports Net_Run
begin

text \<open>
  The network device as a network card (\<^verbatim>\<open>console/network.hpp\<close> under \<^verbatim>\<open>device_loop\<close>): an abstract card takes
  one packet and one frame per round, from the network stack to the oldest receive buffer and from
  the oldest frame to the network stack; the loop does the same, for any number of rounds and
  chains of any shape.
\<close>

section \<open>What a chain means to the card\<close>

text \<open>The device takes chains of any shape. A descriptor that is followed by another one is a header while
  fewer than 12 bytes have gone before it, and skipped otherwise; the last one is the packet. A
  chain of one descriptor is header and packet in one: the packet is taken to begin behind 12 bytes
  of header, but to have the length of the whole descriptor.\<close>

record post =
  po_hdrs :: "u64 list"
  po_addr :: u64
  po_size :: u32
  po_total :: u32

fun hdr_addrs :: "u64 \<Rightarrow> (u64 \<times> u32) list \<Rightarrow> u64 list" where
  "hdr_addrs n [] = []"
| "hdr_addrs n [b] = []"
| "hdr_addrs n ((p, l) # b # bs) = (if n < 12 then [p] else []) @ hdr_addrs (n + ucast l) (b # bs)"

definition post_of :: "(u64 \<times> u32) list \<Rightarrow> post" where
  "post_of ds =
     \<lparr>po_hdrs = (if tl ds = [] then [fst (hd ds)] else hdr_addrs 0 ds),
      po_addr = (if tl ds = [] then fst (hd ds) + 12 else fst (last ds)),
      po_size = snd (last ds), po_total = ucast (chain_len ds)\<rparr>"

lemma post_of_single: "post_of [(p, l)] = \<lparr>po_hdrs = [p], po_addr = p + 12, po_size = l, po_total = l\<rparr>"
  using ucast_u32_id [of l] by (simp add: post_of_def)

lemma post_of_split: "post_of [(ph, 12), (p, l)] = \<lparr>po_hdrs = [ph], po_addr = p, po_size = l, po_total = 12 + l\<rparr>"
  using ucast_sum12 [of l] by (simp add: post_of_def)

definition put_hdrs :: "u64 list \<Rightarrow> mem \<Rightarrow> mem" where
  "put_hdrs hs m = fold (\<lambda>p m. poke m (unat p) (hdr_bytes (peek m (unat p) 12))) hs m"

section \<open>The abstract card\<close>

text \<open>The network stack, the guest's memory, the posted receive buffers and the posted frames.\<close>

record 's nic =
  n_stack :: 's
  n_mem :: mem
  n_rx :: "post list"
  n_tx :: "post list"

text \<open>A receive buffer is used up by whatever the stack answers when it is ready, a packet or nothing.\<close>

definition incoming :: "u8 list option \<Rightarrow> u8 list" where
  "incoming a = (case a of None \<Rightarrow> [] | Some pkt \<Rightarrow> pkt)"

definition nic_receive :: "'s slirp \<Rightarrow> 's nic \<Rightarrow> 's nic" where
  "nic_receive S s =
     (case n_rx s of
        [] \<Rightarrow> s
      | x # rx \<Rightarrow>
          if ready S (n_stack s) then
            let (a, st) = recv S (n_stack s) PACKET_SIZE
            in s\<lparr>n_stack := st, n_rx := rx,
                 n_mem := poke (put_hdrs (po_hdrs x) (n_mem s)) (unat (po_addr x)) (incoming a)\<rparr>
          else s)"

definition nic_transmit :: "'s slirp \<Rightarrow> 's nic \<Rightarrow> 's nic" where
  "nic_transmit S s =
     (case n_tx s of
        [] \<Rightarrow> s
      | x # tx \<Rightarrow>
          s\<lparr>n_stack := snd (send S (n_stack s) (peek (n_mem s) (unat (po_addr x)) (unat (po_size x)))), n_tx := tx\<rparr>)"

definition nic_round :: "'s slirp \<Rightarrow> 's nic \<Rightarrow> 's nic" where
  "nic_round S s = nic_transmit S (nic_receive S s)"

text \<open>What the code relies on: the stack returns no more bytes than it is asked for.\<close>

definition slirp_ok :: "'s slirp \<Rightarrow> bool" where
  "slirp_ok S \<longleftrightarrow> (\<forall>st n. length (incoming (fst (recv S st n))) \<le> n)"

lemma slirp_ok_sample: "slirp_ok sample_slirp"
  by (auto simp: slirp_ok_def sample_slirp_def incoming_def split: list.splits)

lemma nic_queues:
  "n_rx s = take (length (n_rx s) - length (n_rx (nic_round S s))) (n_rx s) @ n_rx (nic_round S s)"
  "n_tx (nic_round S s) = tl (n_tx s)"
  by (auto simp: nic_round_def nic_receive_def nic_transmit_def split: list.splits prod.splits)

lemma nic_rounds_send: "n_tx ((nic_round S ^^ n) s) = drop n (n_tx s)"
  by (induction n) (simp_all add: nic_queues(2) drop_Suc drop_tl)

section \<open>Posted traffic\<close>

text \<open>A chain of any shape, its headers and the longest packet inside the view and apart from the rings; and
  a frame of any shape, no longer than the host's buffer, inside the view and apart from the rings.\<close>

definition rx_posted :: "vring_abi \<Rightarrow> devcfg \<Rightarrow> mem \<Rightarrow> u16 \<Rightarrow> post \<Rightarrow> bool" where
  "rx_posted A cfg m i x \<longleftrightarrow>
     (\<exists>ds. chain_of 16384 A cfg 0 m i = Some ds \<and> x = post_of ds
        \<and> unat (fst (last ds)) + (12 + PACKET_SIZE) \<le> VIEW
        \<and> span (unat (fst (last ds))) (12 + PACKET_SIZE) \<inter> all_rings cfg 2 = {})
     \<and> (\<forall>p \<in> set (po_hdrs x). unat p + 12 \<le> VIEW \<and> span (unat p) 12 \<inter> all_rings cfg 2 = {})"

definition tx_posted :: "vring_abi \<Rightarrow> devcfg \<Rightarrow> mem \<Rightarrow> u16 \<Rightarrow> post \<Rightarrow> bool" where
  "tx_posted A cfg m i x \<longleftrightarrow>
     (\<exists>ds. chain_of 16384 A cfg 1 m i = Some ds \<and> x = post_of ds) \<and> unat (po_size x) \<le> PACKET_SIZE
     \<and> unat (po_addr x) + unat (po_size x) \<le> VIEW
     \<and> span (unat (po_addr x)) (unat (po_size x)) \<inter> all_rings cfg 2 = {}"

text \<open>The device and the abstract card: the used rings apart, they see the same memory.\<close>

definition both_used :: "devcfg \<Rightarrow> nat set" where
  "both_used cfg = used_region (used cfg ! 0) \<union> used_region (used cfg ! 1)"

definition traffic :: "vring_abi \<Rightarrow> devcfg \<Rightarrow> 's net dev \<Rightarrow> 's nic \<Rightarrow> bool" where
  "traffic A cfg d s \<longleftrightarrow>
     myslirp (dclass d) = n_stack s \<and> \<not> header_processed (dclass d) \<and> 2 \<le> length (processed d)
     \<and> same_on (- both_used cfg) (n_mem s) (memory d)
     \<and> list_all2 (rx_posted A cfg (memory d)) (waiting A cfg 0 d) (n_rx s)
     \<and> list_all2 (tx_posted A cfg (memory d)) (waiting A cfg 1 d) (n_tx s)"

lemma posted_same:
  assumes "abi_ok A" "same_on (table_region (desc cfg ! 0)) m m'" "same_on (table_region (desc cfg ! 1)) m m'"
  shows "rx_posted A cfg m' = rx_posted A cfg m" "tx_posted A cfg m' = tx_posted A cfg m"
  using chain_at_same [OF assms(1,2)] chain_at_same [OF assms(1,3)]
  by (simp_all add: fun_eq_iff rx_posted_def tx_posted_def chain_of_def)

section \<open>A chain of any shape\<close>

lemma chain_of_nonempty: "chain_of f A cfg q m i = Some ds \<Longrightarrow> ds \<noteq> []"
  unfolding chain_of_def using chain_at_length by fastforce

lemma put_hdrs_simps: "put_hdrs [] m = m"
  "put_hdrs (p # hs) m = put_hdrs hs (poke m (unat p) (hdr_bytes (peek m (unat p) 12)))"
  by (simp_all add: put_hdrs_def)

lemma put_hdrs_same:
  "same_on R m m' \<Longrightarrow> \<forall>p \<in> set hs. span (unat p) 12 \<subseteq> R \<Longrightarrow> same_on R (put_hdrs hs m) (put_hdrs hs m')"
proof (induction hs arbitrary: m m')
  case (Cons p hs)
  then have "peek m' (unat p) 12 = peek m (unat p) 12" by (intro same_on_peek [of R]) simp_all
  then show ?case using Cons by (simp add: put_hdrs_simps same_on_poke2)
qed (simp add: put_hdrs_simps)

text \<open>Behind its header, and over any headers and skipped descriptors that are left, a chain is its last
  operation.\<close>

lemma net_chain_rest:
  assumes N: "net_abi_ok N"
  shows "ds \<noteq> [] \<Longrightarrow> header_processed b \<or> n < 12 \<and> tl ds \<noteq> [] \<Longrightarrow>
     \<forall>p \<in> set (hdr_addrs n ds). q = 0 \<longrightarrow> unat p + 12 \<le> VIEW \<Longrightarrow>
     run_ops (net_backend N S) q (chain_ops 12 n ds) (b, m)
       = net_complete N S q (fst (last ds)) (ucast (snd (last ds)))
           (b\<lparr>header_processed := True\<rparr>, if q = 0 then put_hdrs (hdr_addrs n ds) m else m)"
proof (induction n ds arbitrary: b m rule: hdr_addrs.induct)
  case (2 n x)
  obtain p l where x: "x = (p, l)" by (cases x)
  have "b\<lparr>header_processed := True\<rparr> = b" using 2 by (cases b) simp
  then show ?case
    by (simp add: x put_hdrs_simps net_backend_def run_op_def bindR_def split: sum.splits)
next
  case (3 n p l y ys)
  have hdr: "header_processed (b\<lparr>header_processed := True\<rparr>)" by simp
  show ?case
  proof (cases "n < 12")
    case True
    then have "run_op (net_backend N S) O_Start q p (ucast l) (b, m)
        = Inr (b\<lparr>header_processed := True\<rparr>, if q = 0 then put_hdrs [p] m else m)"
      using 3(4) write_hdr_ok [OF N, of "unat p" m]
      by (simp add: run_op_def net_backend_def net_start_def Let_def put_hdrs_simps)
    then show ?thesis
      using True 3(1) [OF _ disjI1 [OF hdr]] 3(4) by (auto simp: put_hdrs_simps)
  next
    case False
    then have b: "header_processed b" using 3(3) by simp
    have "run_op (net_backend N S) O_Data q p (ucast l) (b, m) = Inr (b, m)"
      by (simp add: run_op_def net_backend_def net_data_def)
    then show ?thesis using False 3(1) [OF _ disjI1 [OF b]] 3(4) by auto
  qed
qed simp

lemma net_chain_run:
  assumes N: "net_abi_ok N" and ds: "ds \<noteq> []" and idle: "\<not> header_processed b"
    and hdrs: "\<forall>p \<in> set (po_hdrs (post_of ds)). q = 0 \<longrightarrow> unat p + 12 \<le> VIEW"
  shows "run_ops (net_backend N S) q (chain_ops (queue_header_size (net_backend N S)) 0 ds) (b, m)
       = net_complete N S q (po_addr (post_of ds)) (ucast (po_size (post_of ds)))
           (b\<lparr>header_processed := True\<rparr>, if q = 0 then put_hdrs (po_hdrs (post_of ds)) m else m)"
proof -
  have h: "queue_header_size (net_backend N S) = 12" "net_hdr_size N = 12"
    using N by (simp_all add: net_backend_def net_abi_ok_def)
  show ?thesis
  proof (cases "tl ds = []")
    case True
    then obtain p l where "ds = [(p, l)]" using ds by (cases ds) auto
    then show ?thesis
      using idle hdrs write_hdr_ok [OF N, of "unat p" m] net_single_op [of N S q 12 0 p l "(b, m)"]
      by (simp add: h post_of_def net_complete_def net_start_def Let_def put_hdrs_simps)
  next
    case False
    then show ?thesis using net_chain_rest [OF N ds, of b 0 q S m] hdrs by (simp add: h post_of_def)
  qed
qed

text \<open>What the operations of a chain may reach.\<close>

lemma net_chain_reach:
  "(c, p, l) \<in> set (chain_ops 12 n ds) \<Longrightarrow>
     c = O_Complete \<and> p = fst (last ds) \<or> c = O_Data \<or> c = O_Start \<and> tl ds \<noteq> [] \<and> p \<in> set (hdr_addrs n ds)"
  by (induction n ds rule: hdr_addrs.induct) (auto split: if_splits)

lemma net_chain_apart:
  assumes N: "net_abi_ok N" and R: "q = 0 \<Longrightarrow> span (unat (fst (last ds))) (12 + PACKET_SIZE) \<inter> R = {}"
    "q = 0 \<Longrightarrow> \<forall>p \<in> set (po_hdrs (post_of ds)). span (unat p) 12 \<inter> R = {}"
  shows "ops_apart (net_reach N) q R (chain_ops (queue_header_size (net_backend N S)) 0 ds)"
proof -
  have h: "queue_header_size (net_backend N S) = 12" using N by (simp add: net_backend_def net_abi_ok_def)
  have "net_reach N c q p (ucast l) \<inter> R = {}" if op: "(c, p, l) \<in> set (chain_ops 12 0 ds)" for c p l
  proof (cases "q = 0")
    case True
    from net_chain_reach [OF op] consider "c = O_Complete" "p = fst (last ds)" | "c = O_Data"
      | "c = O_Start" "p \<in> set (po_hdrs (post_of ds))" by (auto simp: post_of_def)
    then show ?thesis using R [OF True] N True by cases (simp_all add: net_reach_def)
  qed (simp add: net_reach_def N)
  then show ?thesis unfolding ops_apart_def h by blast
qed

section \<open>The operations on any answer of the stack\<close>

lemma net_rx_any:
  assumes S: "slirp_ok S" and idle: "header_processed b"
    and recv: "recv S (myslirp b) PACKET_SIZE = (a, st)" and room: "unat p + PACKET_SIZE \<le> VIEW"
  obtains b' where "net_complete N S 0 p l (b, m) = Inr (b', poke m (unat p) (incoming a))"
    "myslirp b' = st" "\<not> header_processed b'"
proof -
  have len: "length (incoming a) \<le> PACKET_SIZE" using S recv unfolding slirp_ok_def by (metis fst_conv)
  have nil: "poke m (unat p) [] = m" by (auto simp: poke_def fun_eq_iff)
  show thesis
  proof (cases a)
    case None
    then show thesis using idle recv nil
      by (intro that [of "b\<lparr>header_processed := False, myslirp := st\<rparr>"])
        (simp_all add: net_complete_def net_receive_def incoming_def)
  next
    case (Some pkt)
    then show thesis using idle recv len room nil
      by (intro that [of "b\<lparr>header_processed := False, myslirp := st, buffer := pkt @ drop (length pkt) (buffer b)\<rparr>"])
        (auto simp: net_complete_def net_receive_def Let_def incoming_def)
  qed
qed

section \<open>One round\<close>

definition irq_pulses :: "devcfg \<Rightarrow> nat \<Rightarrow> u32 list" where
  "irq_pulses cfg n = concat (replicate n [push_bit (interrupt_number cfg - 5) 1, 0])"

lemma irq_pulses_simps: "irq_pulses cfg 0 = []" "irq_pulses cfg (m + n) = irq_pulses cfg m @ irq_pulses cfg n"
  by (simp_all add: irq_pulses_def replicate_add)

text \<open>What a step of the device has in common with the step \<open>f\<close> of the card: \<open>rx\<close> and \<open>tx\<close> are the posts
  it has used up.\<close>

definition nic_step ::
  "vring_abi \<Rightarrow> devcfg \<Rightarrow> 's net dev \<Rightarrow> 's nic \<Rightarrow> 's net dev \<Rightarrow> 's nic \<Rightarrow> post list \<Rightarrow> post list \<Rightarrow> bool" where
  "nic_step A cfg d s d' s' rx tx \<longleftrightarrow>
     traffic A cfg d' s' \<and> n_rx s = rx @ n_rx s' \<and> n_tx s = tx @ n_tx s'
     \<and> delivers A cfg 0 d (zip (waiting A cfg 0 d) (map po_total rx)) d'
     \<and> delivers A cfg 1 d (zip (waiting A cfg 1 d) (map po_total tx)) d'
     \<and> interrupt_register d' = interrupt_register d @ irq_pulses cfg (length rx + length tx)"

lemma nic_step_refl: "traffic A cfg d s \<Longrightarrow> nic_step A cfg d s d s [] []"
  by (simp add: nic_step_def delivers_refl irq_pulses_simps(1))

lemma zip_append_drop:
  "length rx \<le> length xs \<Longrightarrow> zip xs (rx @ rx') = zip xs rx @ zip (drop (length rx) xs) rx'"
  by (induction rx arbitrary: xs) (auto simp: Suc_le_length_iff)

lemma delivers_zip:
  assumes "delivers A cfg q d (zip (waiting A cfg q d) xs) d1" "delivers A cfg q d1 (zip (waiting A cfg q d1) ys) d2"
    and "length xs \<le> length (waiting A cfg q d)"
  shows "delivers A cfg q d (zip (waiting A cfg q d) (xs @ ys)) d2"
proof -
  have "waiting A cfg q d = take (length xs) (waiting A cfg q d) @ waiting A cfg q d1"
    using assms(1,3) by (simp add: delivers_def map_fst_zip_take min_absorb2)
  then have "waiting A cfg q d1 = drop (length xs) (waiting A cfg q d)"
    by (metis append_take_drop_id same_append_eq)
  then show ?thesis
    using delivers_trans [OF assms(1,2)] by (simp add: zip_append_drop [OF assms(3)])
qed

lemma nic_step_trans:
  assumes "traffic A cfg d s" "nic_step A cfg d s d1 s1 rx tx" "nic_step A cfg d1 s1 d2 s2 rx' tx'"
  shows "nic_step A cfg d s d2 s2 (rx @ rx') (tx @ tx')"
proof -
  have "length rx \<le> length (waiting A cfg 0 d)" "length tx \<le> length (waiting A cfg 1 d)"
    using assms(1,2) by (auto simp: traffic_def nic_step_def dest!: list_all2_lengthD)
  moreover have "length (rx @ rx') + length (tx @ tx') = (length rx + length tx) + (length rx' + length tx')" by simp
  note pulses = irq_pulses_simps(2) [of cfg "length rx + length tx" "length rx' + length tx'", folded this]
  ultimately show ?thesis
    using assms(2,3) pulses delivers_zip [of A cfg 0 d "map po_total rx" d1 "map po_total rx'" d2]
      delivers_zip [of A cfg 1 d "map po_total tx" d1 "map po_total tx'" d2]
    by (simp add: nic_step_def)
qed

lemma used_in_rings: "both_used cfg \<subseteq> all_rings cfg 2"
  using ring_in_all [of 0 2 cfg] ring_in_all [of 1 2 cfg] ring_regions(3) [of cfg 0] ring_regions(3) [of cfg 1]
  by (auto simp: both_used_def)

lemma skip_service:
  assumes A: "abi_ok A" and apart: "rings_apart cfg 2" and q: "q < 2" and t: "traffic A cfg d s"
    and "waiting A cfg q d = [] \<or> \<not> queue_has_data bk q (dclass d)"
  shows "service_queue fuel A bk cfg q d = Inr d"
  using assms(5) t q
  by (intro service_queue_skips [OF A rings_apart_ok [OF apart q]]) (auto simp: skip_round_def waiting_def traffic_def)

text \<open>The memory, the waiting heads and the posts after a service that has served the chain \<open>ds\<close>.\<close>

lemma served_traffic:
  assumes A: "abi_ok A" and apart: "rings_apart cfg 2" and q: "q < 2" and t: "traffic A cfg d s"
    and i: "waiting A cfg q d = i # is" and ap: "ops_apart (net_reach N) q (all_rings cfg 2) (chain_ops (queue_header_size (net_backend N S)) 0 ds)"
    and run: "run_ops (net_backend N S) q (chain_ops (queue_header_size (net_backend N S)) 0 ds) (dclass d, memory d) = Inr (b, m)"
    and b: "\<not> header_processed b" and m: "same_on (- both_used cfg) m' m"
  defines "d' \<equiv> served A cfg q i ds (b, m) d"
  shows "traffic A cfg d' \<lparr>n_stack = myslirp b, n_mem = m', n_rx = (if q = 0 then tl (n_rx s) else n_rx s),
      n_tx = (if q = 1 then tl (n_tx s) else n_tx s)\<rparr>"
    "delivers A cfg q d [(i, ucast (chain_len ds))] d'" "r < 2 \<Longrightarrow> r \<noteq> q \<Longrightarrow> delivers A cfg r d [] d'"
    "interrupt_register d' = interrupt_register d @ irq_pulses cfg 1"
proof -
  note t = t [unfolded traffic_def]
  have len: "2 \<le> length (processed d)" using t by simp
  note among = net.served_among [OF A apart q len i ap run, folded d'_def]
  show del: "delivers A cfg q d [(i, ucast (chain_len ds))] d'" by (rule among(1))
  show rest: "delivers A cfg r d [] d'" if "r < 2" "r \<noteq> q" for r using among(2) that by blast
  show "interrupt_register d' = interrupt_register d @ irq_pulses cfg 1" by (simp add: d'_def served_def set_interrupt_def irq_pulses_def)
  have "same_on (- used_region (used cfg ! q)) m (memory d')"
    using publish_reads(4) [OF A] by (simp add: d'_def served_def set_interrupt_def)
  moreover have "used_region (used cfg ! q) \<subseteq> both_used cfg" using q by (auto simp: both_used_def less_2_cases_iff)
  ultimately have mem: "same_on (- both_used cfg) m' (memory d')"
    using same_on_trans [OF m same_on_subset] by blast
  have posted: "rx_posted A cfg (memory d') = rx_posted A cfg (memory d)" "tx_posted A cfg (memory d') = tx_posted A cfg (memory d)"
    using posted_same [OF A among(3) among(3)] by simp_all
  have w: "waiting A cfg q d' = is" using del i by (simp add: delivers_def)
  have "list_all2 (rx_posted A cfg (memory d)) (waiting A cfg 0 d') (if q = 0 then tl (n_rx s) else n_rx s)"
    using t i w rest [of 0] by (cases "q = 0") (auto simp: delivers_def list_all2_Cons1)
  moreover have "list_all2 (tx_posted A cfg (memory d)) (waiting A cfg 1 d') (if q = 1 then tl (n_tx s) else n_tx s)"
    using t i w rest [of 1] by (cases "q = 1") (auto simp: delivers_def list_all2_Cons1)
  ultimately show "traffic A cfg d' \<lparr>n_stack = myslirp b, n_mem = m', n_rx = (if q = 0 then tl (n_rx s) else n_rx s),
      n_tx = (if q = 1 then tl (n_tx s) else n_tx s)\<rparr>"
    using b mem posted len by (simp add: traffic_def d'_def served_def set_interrupt_def)
qed

lemma nic_receive_step:
  assumes A: "abi_ok A" and N: "net_abi_ok N" and S: "slirp_ok S" and apart: "rings_apart cfg 2" and t: "traffic A cfg d s"
  obtains d' rx where "service_queue 16384 A (net_backend N S) cfg 0 d = Inr d'" "nic_step A cfg d s d' (nic_receive S s) rx []"
proof (cases "n_rx s = [] \<or> \<not> ready S (n_stack s)")
  case True
  then have "waiting A cfg 0 d = [] \<or> \<not> queue_has_data (net_backend N S) 0 (dclass d)"
    using t by (auto simp: traffic_def net_backend_def net_has_data_def)
  from skip_service [OF A apart _ t this] have "service_queue 16384 A (net_backend N S) cfg 0 d = Inr d" by simp
  moreover have "nic_receive S s = s" using True by (auto simp: nic_receive_def split: list.splits)
  ultimately show thesis using that nic_step_refl [OF t] by simp
next
  case False
  note T = t [unfolded traffic_def]
  obtain x rx' where rx: "n_rx s = x # rx'" using False by (cases "n_rx s") auto
  then obtain i "is" where i: "waiting A cfg 0 d = i # is" and post: "rx_posted A cfg (memory d) i x"
    using T by (auto simp: list_all2_Cons2)
  obtain ds where chain: "chain_of 16384 A cfg 0 (memory d) i = Some ds" and x: "x = post_of ds"
    and last: "unat (fst (last ds)) + (12 + PACKET_SIZE) \<le> VIEW"
      "span (unat (fst (last ds))) (12 + PACKET_SIZE) \<inter> all_rings cfg 2 = {}"
    and hdrs: "\<forall>p \<in> set (po_hdrs x). unat p + 12 \<le> VIEW \<and> span (unat p) 12 \<inter> all_rings cfg 2 = {}"
    using post unfolding rx_posted_def by blast
  note ds = chain_of_nonempty [OF chain]
  obtain a st where recv: "recv S (myslirp (dclass d)) PACKET_SIZE = (a, st)" by fastforce
  let ?ops = "chain_ops (queue_header_size (net_backend N S)) 0 ds"
  let ?m = "\<lambda>m. poke (put_hdrs (po_hdrs x) m) (unat (po_addr x)) (incoming a)"
  have "unat (fst (last ds) + 12) = unat (fst (last ds)) + 12" using last(1) by (intro unat_addr_12) simp
  then have addr: "unat (po_addr x) + PACKET_SIZE \<le> VIEW" using last(1) ds by (cases ds) (auto simp: x post_of_def)
  obtain b where compl: "net_complete N S 0 (po_addr x) (ucast (po_size x))
      ((dclass d)\<lparr>header_processed := True\<rparr>, put_hdrs (po_hdrs x) (memory d)) = Inr (b, ?m (memory d))"
    and b: "myslirp b = st" "\<not> header_processed b"
  proof -
    have "header_processed ((dclass d)\<lparr>header_processed := True\<rparr>)"
      "recv S (myslirp ((dclass d)\<lparr>header_processed := True\<rparr>)) PACKET_SIZE = (a, st)" using recv by simp_all
    from net_rx_any [OF S this addr, of N "ucast (po_size x)" "put_hdrs (po_hdrs x) (memory d)"] that
    show thesis by blast
  qed
  have run: "run_ops (net_backend N S) 0 ?ops (dclass d, memory d) = Inr (b, ?m (memory d))"
    using net_chain_run [OF N ds, of "dclass d" 0 S "memory d"] T hdrs compl by (simp add: x)
  have ap: "ops_apart (net_reach N) 0 (all_rings cfg 2) ?ops"
    using hdrs last(2) by (intro net_chain_apart [OF N]) (simp_all add: x)
  have "\<forall>p \<in> set (po_hdrs x). span (unat p) 12 \<subseteq> - both_used cfg" using hdrs used_in_rings by fastforce
  then have mem: "same_on (- both_used cfg) (?m (n_mem s)) (?m (memory d))"
    using T same_on_poke2 put_hdrs_same by blast
  have q: "0 < (2 :: nat)" by simp
  note srv = served_traffic [OF A apart q t i ap run b(2) mem]
  have "0 < length (processed d)" "queue_has_data (net_backend N S) 0 (dclass d)"
    using T False by (auto simp: net_backend_def net_has_data_def)
  then have "service_queue 16384 A (net_backend N S) cfg 0 d = Inr (served A cfg 0 i ds (b, ?m (memory d)) d)"
    using net.service_queue_serves [OF A rings_apart_ok [OF apart q] _ i [unfolded waiting_def] _
        chain [unfolded chain_of_def] ops_apart_subset [OF ap ring_in_all [OF q]]] run by simp
  moreover have "nic_receive S s = \<lparr>n_stack = st, n_mem = ?m (n_mem s), n_rx = tl (n_rx s), n_tx = n_tx s\<rparr>"
    using rx False recv T by (cases s) (auto simp: nic_receive_def)
  moreover have "po_total x = ucast (chain_len ds)" by (simp add: x post_of_def)
  ultimately show thesis
    using srv(1,2,4) srv(3) [of 1] rx i b(1)
    by (intro that [of _ "[x]"]) (simp_all add: nic_step_def)
qed

lemma nic_transmit_step:
  assumes A: "abi_ok A" and N: "net_abi_ok N" and apart: "rings_apart cfg 2" and t: "traffic A cfg d s"
  obtains d' tx where "service_queue 16384 A (net_backend N S) cfg 1 d = Inr d'" "nic_step A cfg d s d' (nic_transmit S s) [] tx"
proof (cases "n_tx s")
  case Nil
  then have "waiting A cfg 1 d = [] \<or> \<not> queue_has_data (net_backend N S) 1 (dclass d)" using t by (simp add: traffic_def)
  from skip_service [OF A apart _ t this] have "service_queue 16384 A (net_backend N S) cfg 1 d = Inr d" by simp
  moreover have "nic_transmit S s = s" using Nil by (simp add: nic_transmit_def)
  ultimately show thesis using that nic_step_refl [OF t] by simp
next
  case (Cons x tx')
  note T = t [unfolded traffic_def]
  obtain i "is" where i: "waiting A cfg 1 d = i # is" and post: "tx_posted A cfg (memory d) i x"
    using T Cons by (auto simp: list_all2_Cons2)
  obtain ds where chain: "chain_of 16384 A cfg 1 (memory d) i = Some ds" and x: "x = post_of ds"
    using post unfolding tx_posted_def by blast
  note ds = chain_of_nonempty [OF chain] and post = post [unfolded tx_posted_def]
  let ?ops = "chain_ops (queue_header_size (net_backend N S)) 0 ds"
  let ?bs = "\<lambda>m. peek m (unat (po_addr x)) (unat (po_size x))"
  obtain b where run: "run_ops (net_backend N S) 1 ?ops (dclass d, memory d) = Inr (b, memory d)"
    and b: "myslirp b = snd (send S (n_stack s) (?bs (memory d)))" "\<not> header_processed b"
    using net_chain_run [OF N ds, of "dclass d" 1 S "memory d"] post T
    by (simp add: x net_complete_def net_transmit_def)
  have ap: "ops_apart (net_reach N) 1 (all_rings cfg 2) ?ops" by (rule net_chain_apart [OF N]) simp_all
  have "span (unat (po_addr x)) (unat (po_size x)) \<subseteq> - both_used cfg" using post used_in_rings by fastforce
  then have frame: "?bs (memory d) = ?bs (n_mem s)" using T by (blast intro: same_on_peek)
  have mem: "same_on (- both_used cfg) (n_mem s) (memory d)" using T by blast
  have q: "1 < (2 :: nat)" by simp
  note srv = served_traffic [OF A apart q t i ap run b(2) mem]
  have "1 < length (processed d)" "queue_has_data (net_backend N S) 1 (dclass d)"
    using T by (auto simp: net_backend_def net_has_data_def)
  then have "service_queue 16384 A (net_backend N S) cfg 1 d = Inr (served A cfg 1 i ds (b, memory d) d)"
    using net.service_queue_serves [OF A rings_apart_ok [OF apart q] _ i [unfolded waiting_def] _
        chain [unfolded chain_of_def] ops_apart_subset [OF ap ring_in_all [OF q]]] run by simp
  moreover have "nic_transmit S s = \<lparr>n_stack = myslirp b, n_mem = n_mem s, n_rx = n_rx s, n_tx = tl (n_tx s)\<rparr>"
    using Cons b(1) frame by (cases s) (simp add: nic_transmit_def)
  moreover have "po_total x = ucast (chain_len ds)" by (simp add: x post_of_def)
  ultimately show thesis
    using srv(1,2,4) srv(3) [of 0] Cons i
    by (intro that [of _ "[x]"]) (simp_all add: nic_step_def)
qed

lemma nic_round_step:
  assumes A: "abi_ok A" and N: "net_abi_ok N" and S: "slirp_ok S" and apart: "rings_apart cfg 2" and t: "traffic A cfg d s"
  obtains d' rx tx where "service_all 16384 A (net_backend N S) cfg [0..<2] d = Inr d'"
    "nic_step A cfg d s d' (nic_round S s) rx tx"
proof -
  obtain d1 rx where d1: "service_queue 16384 A (net_backend N S) cfg 0 d = Inr d1"
    "nic_step A cfg d s d1 (nic_receive S s) rx []" by (rule nic_receive_step [OF A N S apart t])
  have t1: "traffic A cfg d1 (nic_receive S s)" using d1(2) by (simp add: nic_step_def)
  obtain d' tx where d': "service_queue 16384 A (net_backend N S) cfg 1 d1 = Inr d'"
    "nic_step A cfg d1 (nic_receive S s) d' (nic_round S s) [] tx"
    unfolding nic_round_def by (rule nic_transmit_step [OF A N apart t1])
  have "service_all 16384 A (net_backend N S) cfg [0..<2] d = Inr d'"
    using d1(1) d'(1) by (simp add: numeral_2_eq_2)
  then show thesis using nic_step_trans [OF t d1(2) d'(2)] by (intro that [of d' rx tx]) simp_all
qed

section \<open>Any number of rounds\<close>

lemma nic_rounds:
  assumes A: "abi_ok A" and N: "net_abi_ok N" and S: "slirp_ok S" and apart: "rings_apart cfg 2"
  shows "traffic A cfg d s \<Longrightarrow> \<exists>d' rx tx.
     device_rounds 16384 A (net_backend N S) cfg (replicate n quiet) d = Inr (Inr d')
     \<and> nic_step A cfg d s d' ((nic_round S ^^ n) s) rx tx"
proof (induction n arbitrary: d s)
  case 0
  then show ?case using nic_step_refl by fastforce
next
  case (Suc n)
  obtain d1 rx tx where d1: "service_all 16384 A (net_backend N S) cfg [0..<2] d = Inr d1"
    "nic_step A cfg d s d1 (nic_round S s) rx tx" by (rule nic_round_step [OF A N S apart Suc.prems])
  have "traffic A cfg d1 (nic_round S s)" using d1(2) by (simp add: nic_step_def)
  from Suc.IH [OF this] obtain d' rx' tx' where d':
    "device_rounds 16384 A (net_backend N S) cfg (replicate n quiet) d1 = Inr (Inr d')"
    "nic_step A cfg d1 (nic_round S s) d' ((nic_round S ^^ n) (nic_round S s)) rx' tx'" by blast
  have "device_rounds 16384 A (net_backend N S) cfg (replicate (Suc n) quiet) d = Inr (Inr d')"
    using d1(1) d'(1) by (simp add: device_rounds_Cons del: device_rounds.simps)
  moreover have "(nic_round S ^^ Suc n) s = (nic_round S ^^ n) (nic_round S s)" by (simp add: funpow_swap1)
  ultimately show ?case using nic_step_trans [OF Suc.prems d1(2) d'(2)] by metis
qed

text \<open>What a sequence of steps has published.\<close>

lemma nic_step_published:
  assumes "nic_step A cfg d s d' s' rx tx"
  shows "published A (memory d') (used cfg ! 0) (used_count A (memory d) (used cfg ! 0))
      (zip (map ucast (waiting A cfg 0 d)) (map po_total rx))"
    "published A (memory d') (used cfg ! 1) (used_count A (memory d) (used cfg ! 1))
      (zip (map ucast (waiting A cfg 1 d)) (map po_total tx))"
proof -
  have "published A (memory d) (used cfg ! q) (used_count A (memory d) (used cfg ! q)) []" for q
    by (simp add: published_def)
  with assms show "published A (memory d') (used cfg ! 0) (used_count A (memory d) (used cfg ! 0))
      (zip (map ucast (waiting A cfg 0 d)) (map po_total rx))"
    "published A (memory d') (used cfg ! 1) (used_count A (memory d) (used cfg ! 1))
      (zip (map ucast (waiting A cfg 1 d)) (map po_total tx))"
    unfolding nic_step_def delivers_def by (fastforce simp: zip_map1)+
qed

text \<open>C9: the device loop is a network card. With receive buffers and frames posted as chains of any
  shape, the frames no longer than the host's buffer of 1514 bytes, and a network stack that returns
  no more than it is asked for, the loop runs for any number of rounds without a fault, and network
  stack and guest memory (the used rings apart) are what the abstract card makes of them: per round
  a packet goes from the stack into the oldest buffer, behind its header, and the oldest frame to
  the stack; a frame in one descriptor with its header goes there as the code sends it, without its
  first 12 bytes and with the 12 behind it. The used rings list the heads of the buffers and frames
  used up, in order, with the bytes of their chains; after as many rounds as frames none of these
  waits; and the interrupt was raised once for each.\<close>

theorem net_is_network_card:
  assumes "abi_ok A" "net_abi_ok N" "slirp_ok S" "rings_apart cfg 2" "traffic A cfg d s"
    and s': "s' = (nic_round S ^^ n) s"
  shows "\<exists>d' rx tx. device_rounds 16384 A (net_backend N S) cfg (replicate n quiet) d = Inr (Inr d')
     \<and> myslirp (dclass d') = n_stack s' \<and> same_on (- both_used cfg) (n_mem s') (memory d')
     \<and> n_rx s = rx @ n_rx s' \<and> n_tx s = tx @ n_tx s' \<and> n_tx s' = drop n (n_tx s)
     \<and> published A (memory d') (used cfg ! 0) (used_count A (memory d) (used cfg ! 0))
          (zip (map ucast (waiting A cfg 0 d)) (map po_total rx))
     \<and> published A (memory d') (used cfg ! 1) (used_count A (memory d) (used cfg ! 1))
          (zip (map ucast (waiting A cfg 1 d)) (map po_total tx))
     \<and> interrupt_register d' = interrupt_register d @ irq_pulses cfg (length rx + length tx)"
proof -
  obtain d' rx tx where run: "device_rounds 16384 A (net_backend N S) cfg (replicate n quiet) d = Inr (Inr d')"
    and step: "nic_step A cfg d s d' s' rx tx"
    using nic_rounds [OF assms(1-5), of n] unfolding s' by blast
  from run nic_step_published [OF step] step show ?thesis
    using nic_rounds_send [of n S s] by (fastforce simp: nic_step_def traffic_def s')
qed

section \<open>Any frame at all\<close>

text \<open>C34: what becomes of any frame the driver posts, also of one the device cannot take. The oldest
  frame, a chain of any shape, is sent and completed if its last descriptor has at most 1514 bytes
  and its packet lies inside the view. If the descriptor is longer the copy overruns the host's
  buffer, and otherwise, if the packet runs out of the view, the host reads outside its mapping;
  there is no other fault, and neither the number nor the contents of the descriptors before the last
  matter. So a full frame in one descriptor with its header, of 1526 bytes, overruns the buffer.\<close>

theorem net_transmit_outcome:
  assumes A: "abi_ok A" and N: "net_abi_ok N" and ok: "rings_ok cfg 1" "1 < length (processed d)"
    and i: "waiting A cfg 1 d = i # is" and chain: "chain_of 16384 A cfg 1 (memory d) i = Some ds"
    and idle: "\<not> header_processed (dclass d)"
  shows "service_queue 16384 A (net_backend N S) cfg 1 d =
    (let a = unat (po_addr (post_of ds)); l = unat (snd (last ds)); bs = peek (memory d) a l; b = dclass d
     in if PACKET_SIZE < l then Inl Buffer_Overflow
        else if VIEW < a + l then Inl Wild_Access
        else Inr (served A cfg 1 i ds
               (b\<lparr>myslirp := snd (send S (myslirp b) bs), buffer := bs @ drop l (buffer b), header_processed := False\<rparr>,
                memory d) d))"
proof -
  have data: "queue_has_data (net_backend N S) 1 (dclass d)" by (simp add: net_backend_def net_has_data_def)
  have ap: "ops_apart (net_reach N) 1 (ring_region cfg 1) (chain_ops (queue_header_size (net_backend N S)) 0 ds)"
    by (rule net_chain_apart [OF N]) simp_all
  have size: "po_size (post_of ds) = snd (last ds)" by (simp add: post_of_def)
  let ?l = "unat (snd (last ds))" and ?a = "unat (po_addr (post_of ds))"
  have run: "run_ops (net_backend N S) 1 (chain_ops (queue_header_size (net_backend N S)) 0 ds) (dclass d, memory d)
     = (if PACKET_SIZE < ?l then Inl Buffer_Overflow else if VIEW < ?a + ?l then Inl Wild_Access
        else Inr ((dclass d)\<lparr>myslirp := snd (send S (myslirp (dclass d)) (peek (memory d) ?a ?l)),
            buffer := peek (memory d) ?a ?l @ drop ?l (buffer (dclass d)), header_processed := False\<rparr>, memory d))"
    using net_chain_run [OF N chain_of_nonempty [OF chain] idle, of 1 S "memory d"]
    by (simp add: net_complete_def net_transmit_def size fetch_def require_def)
  show ?thesis
    unfolding net.service_queue_serves [OF A ok i [unfolded waiting_def] data chain [unfolded chain_of_def] ap] run
    by (simp add: Let_def)
qed

text \<open>A frame in one descriptor with its header: 76 bytes, sent with 12 bytes from behind them, or the 1526 of
  a full frame.\<close>

definition one_descriptor_guest :: "u32 \<Rightarrow> mem" where
  "one_descriptor_guest l =
     poke (poke (poke (\<lambda>_. 0) 0x32100002 (bytes16 1)) 0x32000000 (bytes64 0x400032300000)) 0x32000008 (bytes32 l)"

definition one_descriptor_dev :: "u32 \<Rightarrow> (u8 list list \<times> u8 list list) net dev" where
  "one_descriptor_dev l = sample_net_dev\<lparr>memory := one_descriptor_guest l\<rparr>"

lemma one_descriptor_reads:
  "val16 (one_descriptor_guest l) 0x32100002 = 1" "val16 (one_descriptor_guest l) 0x32100004 = 0"
  "val64 (one_descriptor_guest l) 0x32000000 = 0x400032300000" "val32 (one_descriptor_guest l) 0x32000008 = l"
  "val16 (one_descriptor_guest l) 0x3200000C = 0"
  by (simp_all add: one_descriptor_guest_def mem_simps)

lemma one_descriptor_posted:
  "waiting linux_abi sample_cfg 1 (one_descriptor_dev l) = [0]"
  "chain_of 16384 linux_abi sample_cfg 1 (memory (one_descriptor_dev l)) 0 = Some [(0x32300000, l)]"
proof -
  show "waiting linux_abi sample_cfg 1 (one_descriptor_dev l) = [0]"
    by (simp add: waiting_def todo_def avail_at_def sample_cfg_def linux_abi_def one_descriptor_reads queue_size_def
        one_descriptor_dev_def sample_net_dev_def)
  have "chain_at (Suc 0) linux_abi (memory (one_descriptor_dev l)) (starting_address_of sample_cfg) (desc sample_cfg ! 1) 0
     = Some [(0x32300000, l)]"
    by (simp add: chain_at_Suc chain_more_def chain_next_def desc_at_def linux_abi_def one_descriptor_reads queue_size_def
        guest_offset_def Let_def one_descriptor_dev_def sample_cfg_def)
  then show "chain_of 16384 linux_abi sample_cfg 1 (memory (one_descriptor_dev l)) 0 = Some [(0x32300000, l)]"
    unfolding chain_of_def by (auto elim: chain_at_fuel)
qed

theorem net_transmit_outcome_witness:
  "service_queue 16384 linux_abi (net_backend linux_net_abi sample_slirp) sample_cfg 1 (one_descriptor_dev 1526)
     = Inl Buffer_Overflow
   \<and> (\<exists>d'. service_queue 16384 linux_abi (net_backend linux_net_abi sample_slirp) sample_cfg 1 (one_descriptor_dev 76) = Inr d'
        \<and> snd (myslirp (dclass d')) = [peek (one_descriptor_guest 76) 0x3230000C 76])"
proof -
  have d: "1 < length (processed (one_descriptor_dev l))" "\<not> header_processed (dclass (one_descriptor_dev l))" for l
    by (simp_all add: one_descriptor_dev_def sample_net_dev_def)
  note out = net_transmit_outcome [OF abi_ok_linux net_abi_ok_linux sample_rings(2) d(1) one_descriptor_posted d(2),
      of sample_slirp]
  show ?thesis
    unfolding out
    by (simp add: post_of_single PACKET_SIZE_def VIEW_def Let_def served_def set_interrupt_def one_descriptor_dev_def
        sample_net_dev_def sample_slirp_def)
qed

text \<open>A packet of three bytes and a frame of 64.\<close>

definition sample_nic :: "(u8 list list \<times> u8 list list) nic" where
  "sample_nic =
     \<lparr>n_stack = ([[1, 2, 3]], []), n_mem = sample_net_guest, 
      n_rx = [\<lparr>po_hdrs = [0x31300000], po_addr = 0x3130000C, po_size = 1526, po_total = 1526\<rparr>],
      n_tx = [\<lparr>po_hdrs = [0x32300000], po_addr = 0x32301000, po_size = 64, po_total = 76\<rparr>]\<rparr>"

lemma sample_traffic: "traffic linux_abi sample_cfg sample_net_dev sample_nic"
proof -
  have room: "span 0x31300000 (12 + PACKET_SIZE) \<inter> all_rings sample_cfg 2 = {}" using sample_net_apart(1) by blast
  moreover have "span 0x31300000 12 \<subseteq> span 0x31300000 (12 + PACKET_SIZE)" by (intro span_mono) simp_all
  ultimately have "span 0x31300000 12 \<inter> all_rings sample_cfg 2 = {}" by blast
  with room have "rx_posted linux_abi sample_cfg (memory sample_net_dev) 0
      \<lparr>po_hdrs = [0x31300000], po_addr = 0x3130000C, po_size = 1526, po_total = 1526\<rparr>"
    unfolding rx_posted_def sample_net_chain_of(1) by (simp add: post_of_single PACKET_SIZE_def VIEW_def)
  moreover have "tx_posted linux_abi sample_cfg (memory sample_net_dev) 0
      \<lparr>po_hdrs = [0x32300000], po_addr = 0x32301000, po_size = 64, po_total = 76\<rparr>"
    using sample_net_apart(2) unfolding tx_posted_def sample_net_chain_of(2)
    by (simp add: post_of_split PACKET_SIZE_def VIEW_def)
  moreover have "myslirp (dclass sample_net_dev) = n_stack sample_nic" "memory sample_net_dev = n_mem sample_nic"
    by (simp_all add: sample_net_dev_def sample_nic_def)
  ultimately show ?thesis
    using sample_net_waiting sample_net_small(1,2) by (simp add: traffic_def sample_nic_def)
qed

lemma sample_nic_rounds:
  "(nic_round sample_slirp ^^ 2) sample_nic =
     \<lparr>n_stack = ([], [peek sample_net_guest 0x32301000 64]),
      n_mem = poke sample_net_guest 0x31300000 (hdr_bytes (peek sample_net_guest 0x31300000 12) @ [1, 2, 3]),
      n_rx = [], n_tx = []\<rparr>"
proof -
  have "nic_round sample_slirp sample_nic =
     \<lparr>n_stack = ([], [peek sample_net_guest 0x32301000 64]),
      n_mem = poke sample_net_guest 0x31300000 (hdr_bytes (peek sample_net_guest 0x31300000 12) @ [1, 2, 3]),
      n_rx = [], n_tx = []\<rparr>"
    using poke_append [of sample_net_guest "0x31300000" "hdr_bytes (peek sample_net_guest 0x31300000 12)" "[1, 2, 3]"]
    by (simp add: nic_round_def nic_receive_def nic_transmit_def sample_nic_def sample_slirp_def PACKET_SIZE_def
        incoming_def put_hdrs_simps peek_poke_disjoint)
  moreover have "nic_round sample_slirp s = s" if "n_rx s = []" "n_tx s = []" for s
    using that by (simp add: nic_round_def nic_receive_def nic_transmit_def)
  moreover have "(nic_round sample_slirp ^^ 2) sample_nic = nic_round sample_slirp (nic_round sample_slirp sample_nic)"
    by (simp add: numeral_2_eq_2)
  ultimately show ?thesis by simp
qed

theorem net_is_network_card_witness:
  "\<exists>d'. device_rounds 16384 linux_abi (net_backend linux_net_abi sample_slirp) sample_cfg (replicate 2 quiet) sample_net_dev
          = Inr (Inr d')
     \<and> drop 12 (peek (memory d') 0x31300000 15) = [1, 2, 3]
     \<and> snd (myslirp (dclass d')) = [peek sample_net_guest 0x32301000 64]
     \<and> published linux_abi (memory d') (used sample_cfg ! 0) (used_count linux_abi (memory sample_net_dev) (used sample_cfg ! 0))
          [(0, 1526)]"
proof -
  let ?s = "(nic_round sample_slirp ^^ 2) sample_nic"
  from net_is_network_card [OF abi_ok_linux net_abi_ok_linux slirp_ok_sample sample_rings_apart(2) sample_traffic refl, of 2]
  obtain d' rx where d': "device_rounds 16384 linux_abi (net_backend linux_net_abi sample_slirp) sample_cfg
        (replicate 2 quiet) sample_net_dev = Inr (Inr d')" "myslirp (dclass d') = n_stack ?s"
    "same_on (- both_used sample_cfg) (n_mem ?s) (memory d')" "n_rx sample_nic = rx @ n_rx ?s"
    "published linux_abi (memory d') (used sample_cfg ! 0) (used_count linux_abi (memory sample_net_dev) (used sample_cfg ! 0))
          (zip (map ucast (waiting linux_abi sample_cfg 0 sample_net_dev)) (map po_total rx))" by blast
  have "span 0x31300000 15 \<subseteq> - both_used sample_cfg"
    by (auto simp: both_used_def used_region_def sample_cfg_def)
  then have "peek (memory d') 0x31300000 15 = peek (n_mem ?s) 0x31300000 15" by (rule same_on_peek [OF d'(3)])
  also have "\<dots> = hdr_bytes (peek sample_net_guest 0x31300000 12) @ [1, 2, 3]"
    unfolding sample_nic_rounds by (simp add: peek_poke_same)
  finally have "drop 12 (peek (memory d') 0x31300000 15) = [1, 2, 3]" by simp
  moreover have "map po_total rx = [1526]" using d'(4) unfolding sample_nic_rounds by (auto simp: sample_nic_def)
  ultimately show ?thesis
    using d'(1,2,5) sample_net_waiting(1) unfolding sample_nic_rounds by (intro exI [of _ d']) simp
qed

end
