(* ===== verification/Network_Thread.thy ===== *)
theory Network_Thread
  imports Device_Thread Nic_Run
begin

text \<open>
  The network thread of the tool from end to end (\<^verbatim>\<open>network_main\<close> of \<^verbatim>\<open>console/tt-bh-linux.cpp\<close>):
  construction, setup with the driver, and the loop as a network card on the announced queues.
\<close>

lemma net_backend_new:
  "VirtioNet_new X st g t l = (b, ns) \<Longrightarrow>
     (net_backend X S)\<lparr>queue_header_size := net_header_size ns, num_queues := net_num_queues ns\<rparr> = net_backend X S
     \<and> length (net_features_list ns) = 2 \<and> myslirp b = st \<and> \<not> header_processed b"
  by (auto simp: VirtioNet_new_def net_backend_def)

lemma traffic_at_start: "traffic A cfg (at_start m b i k) s \<longleftrightarrow> traffic A cfg (at_start m b j k) s"
  by (simp add: traffic_def waiting_def at_start_def)

text \<open>C2: a network thread from end to end. The kernel grants the windows, the driver brings the device
  up and announces its two queues, and posts receive buffers and frames as chains of any shape, the
  frames no longer than the host's buffer of 1514 bytes: the thread's pass runs without a fault for
  any number of rounds, and network stack and tile memory are what the abstract card makes of them,
  on the rings the driver announced and no others. What becomes of longer frames is
  \<open>net_transmit_outcome\<close>.\<close>

theorem network_thread_serves:
  assumes "abi_ok A" "net_abi_ok X" "mmio_abi_ok M" "slirp_ok S"
    and new: "VirtioDevice_new (p_env p) (p_window p) (p_irq p) (p_noc p) ttdevice l2cpu_idx off = (e, Inr (v, N))"
    and drv: "p_setup p = bring_up M [a0, a1]" "n_rounds p = replicate n quiet"
    and cfg: "cfg = announced (get_starting_address (v_l2cpu v)) irq [a0, a1]" "rings_apart cfg 2"
    and m: "m = p_guest p (l2cpu_mem N (v_l2cpu v))"
    and b: "b = fst (VirtioNet_new X (p_stack p) (p_buffer p) ttdevice l2cpu_idx)"
    and t: "traffic A cfg (at_start m b 0 2) s" and s': "s' = (nic_round S ^^ n) s"
  shows "\<exists>evs d rx tx. net_attempt 16384 A M X S ttdevice l2cpu_idx irq off p = (evs, Inr (In_Loop d))
     \<and> myslirp (dclass d) = n_stack s' \<and> same_on (- both_used cfg) (n_mem s') (memory d)
     \<and> n_rx s = rx @ n_rx s' \<and> n_tx s = tx @ n_tx s' \<and> n_tx s' = drop n (n_tx s)
     \<and> published A (memory d) (used cfg ! 0) (used_count A m (used cfg ! 0))
          (zip (map ucast (waiting A cfg 0 (at_start m b 0 2))) (map po_total rx))
     \<and> published A (memory d) (used cfg ! 1) (used_count A m (used cfg ! 1))
          (zip (map ucast (waiting A cfg 1 (at_start m b 0 2))) (map po_total tx))
     \<and> interrupt_register d = irq_pulses cfg (length rx + length tx)"
proof -
  obtain ns where st: "VirtioNet_new X (p_stack p) (p_buffer p) ttdevice l2cpu_idx = (b, ns)"
    unfolding b by (metis prod.collapse)
  define r where "r = (v_regs v)\<lparr>dev_id := net_device_id ns\<rparr>"
  have r: "status r = 0" "sel_generation r = 0"
    using VirtioDevice_new_regs [OF new] by (simp_all add: r_def mmio_reset_def)
  note bk = net_backend_new [OF st, of S]
  let ?run = "serve 16384 A M (net_backend X S) (net_features_list ns) (get_starting_address (v_l2cpu v)) irq r
        (bring_up M [a0, a1]) (replicate n quiet) b m"
  have len: "length [a0, a1] = 2" by simp
  have "\<exists>i. ?run
     = bindR (device_rounds 16384 A (net_backend X S) cfg (replicate n quiet) (at_start m b i 2))
         (\<lambda>e. Inr (case e of Inl d \<Rightarrow> Left_Loop d | Inr d \<Rightarrow> In_Loop d))"
    unfolding cfg(1)
    by (rule serve_announced [OF assms(3) r, of "net_features_list ns" "net_backend X S" "[a0, a1]", unfolded len])
      (use bk in simp_all)
  then obtain i where run: "?run
     = bindR (device_rounds 16384 A (net_backend X S) cfg (replicate n quiet) (at_start m b i 2))
         (\<lambda>e. Inr (case e of Inl d \<Rightarrow> Left_Loop d | Inr d \<Rightarrow> In_Loop d))" by blast
  have ti: "traffic A cfg (at_start m b i 2) s" using t traffic_at_start by blast
  obtain d rx tx where d: "device_rounds 16384 A (net_backend X S) cfg (replicate n quiet) (at_start m b i 2) = Inr (Inr d)"
    and step: "nic_step A cfg (at_start m b i 2) s d s' rx tx"
    using nic_rounds [OF assms(1,2,4) cfg(2) ti, of n] unfolding s' by blast
  have mem: "memory (at_start m b i 2) = m" "interrupt_register (at_start m b i 2) = []" by (simp_all add: at_start_def)
  have "?run = Inr (In_Loop d)" unfolding run d by simp
  then have "\<exists>evs. net_attempt 16384 A M X S ttdevice l2cpu_idx irq off p = (evs, Inr (In_Loop d))"
    using new st bk unfolding r_def m by (simp add: net_attempt_def Let_def finish_def drv)
  then show ?thesis
    using step nic_step_published [OF step, unfolded mem waiting_at_start [of A cfg _ m b i 2 0]]
      nic_rounds_send [of n S s, folded s']
    unfolding nic_step_def traffic_def mem by fastforce
qed

text \<open>A guest that brings its network device up on tile 0, with a packet waiting and a frame posted.\<close>

definition sample_net_pass :: "(u8 list list \<times> u8 list list) net_pass" where
  "sample_net_pass =
     \<lparr>p_exit = False, p_env = sample_env, p_window = sample_reply, p_irq = sample_reply,
      p_noc = (\<lambda>_ _ _. 0),
      p_setup = bring_up linux_mmio_abi [(0x400031000000, 0x400031100000, 0x400031200000),
                                         (0x400032000000, 0x400032100000, 0x400032200000)],
      p_guest = (\<lambda>_. sample_net_guest), p_stack = ([[1, 2, 3]], []), p_buffer = replicate 1514 0,
      n_rounds = replicate 2 quiet\<rparr>"

theorem network_thread_serves_witness:
  "\<exists>evs d. net_attempt 16384 linux_abi linux_mmio_abi linux_net_abi sample_slirp 0 0 33 0x400000 sample_net_pass
       = (evs, Inr (In_Loop d))
     \<and> drop 12 (peek (memory d) 0x31300000 15) = [1, 2, 3]
     \<and> snd (myslirp (dclass d)) = [peek sample_net_guest 0x32301000 64] \<and> length (interrupt_register d) = 4"
proof -
  let ?a0 = "(0x400031000000, 0x400031100000, 0x400031200000) :: u64 \<times> u64 \<times> u64"
  let ?a1 = "(0x400032000000, 0x400032100000, 0x400032200000) :: u64 \<times> u64 \<times> u64"
  let ?s = "(nic_round sample_slirp ^^ 2) sample_nic"
  obtain e v N where new: "VirtioDevice_new sample_env sample_reply sample_reply (\<lambda>_ _ _. 0) 0 0 0x400000 = (e, Inr (v, N))"
    and start: "get_starting_address (v_l2cpu v) = 0x400030000000"
    using sample_device [of 0 "0x400000" "\<lambda>_ _ _. 0"] by (auto simp: tables_at get_starting_address_def)
  have cfg: "sample_cfg = announced (get_starting_address (v_l2cpu v)) 33 [?a0, ?a1]"
    by (simp add: start announced_def sample_cfg_def guest_offset_def)
  let ?b = "fst (VirtioNet_new linux_net_abi (p_stack sample_net_pass) (p_buffer sample_net_pass) 0 0)"
  have at: "at_start sample_net_guest ?b 0 2 = sample_net_dev"
    by (simp add: at_start_def sample_net_dev_def VirtioNet_new_def sample_net_pass_def numeral_2_eq_2)
  have pass: "VirtioDevice_new (p_env sample_net_pass) (p_window sample_net_pass) (p_irq sample_net_pass)
      (p_noc sample_net_pass) 0 0 0x400000 = (e, Inr (v, N))"
    "p_setup sample_net_pass = bring_up linux_mmio_abi [?a0, ?a1]" "n_rounds sample_net_pass = replicate 2 quiet"
    "sample_net_guest = p_guest sample_net_pass (l2cpu_mem N (v_l2cpu v))"
    using new by (simp_all add: sample_net_pass_def)
  have t: "traffic linux_abi sample_cfg (at_start sample_net_guest ?b 0 2) sample_nic"
    unfolding at by (rule sample_traffic)
  obtain evs d rx tx where d: "net_attempt 16384 linux_abi linux_mmio_abi linux_net_abi sample_slirp 0 0 33 0x400000 sample_net_pass
       = (evs, Inr (In_Loop d))" "myslirp (dclass d) = n_stack ?s" "same_on (- both_used sample_cfg) (n_mem ?s) (memory d)"
    "n_rx sample_nic = rx @ n_rx ?s" "n_tx sample_nic = tx @ n_tx ?s"
    "interrupt_register d = irq_pulses sample_cfg (length rx + length tx)"
    using network_thread_serves [OF abi_ok_linux net_abi_ok_linux mmio_abi_ok_linux slirp_ok_sample pass(1-3) cfg
        sample_rings_apart(2) pass(4) refl t refl] by blast
  have "span 0x31300000 15 \<subseteq> - both_used sample_cfg"
    by (auto simp: both_used_def used_region_def sample_cfg_def)
  then have "peek (memory d) 0x31300000 15 = peek (n_mem ?s) 0x31300000 15" by (rule same_on_peek [OF d(3)])
  also have "\<dots> = hdr_bytes (peek sample_net_guest 0x31300000 12) @ [1, 2, 3]"
    unfolding sample_nic_rounds by (simp add: peek_poke_same)
  finally have "drop 12 (peek (memory d) 0x31300000 15) = [1, 2, 3]" by simp
  moreover have "length rx = 1" "length tx = 1"
    using d(4,5) unfolding sample_nic_rounds by (auto simp: sample_nic_def)
  then have "length (interrupt_register d) = 4" using d(6) by (simp add: irq_pulses_def)
  ultimately show ?thesis
    using d(1,2) unfolding sample_nic_rounds by (intro exI [of _ evs] exI [of _ d]) simp
qed

end
