(* ===== verification/Console.thy ===== *)
theory Console
  imports L2cpu
begin

text \<open>
  The console (\<^verbatim>\<open>console/console.hpp\<close>): two single-producer single-consumer rings in X280 memory,
  shared with OpenSBI, the host's accesses to them, and the search for the ring structure in guest
  memory. The guest side of the rings is outside the repository; what the host relies on is the
  predicate \<open>guest_step\<close>. The terminal loop on top of them is in \<open>Uart\<close>.
\<close>

section \<open>The shared structure\<close>

definition VIRTUAL_UART_MAGIC :: u64 where "VIRTUAL_UART_MAGIC = 0x5649525455415254"
definition BUFFER_SIZE :: u32 where "BUFFER_SIZE = 0x1000"

record queues =
  magic :: u64
  tx_buf :: "u8 list"
  rx_buf :: "u8 list"
  tx_head :: u32
  tx_tail :: u32
  rx_head :: u32
  rx_tail :: u32

definition wf_queues :: "queues \<Rightarrow> bool" where
  "wf_queues q \<longleftrightarrow> length (tx_buf q) = 4096 \<and> length (rx_buf q) = 4096"

text \<open>The C layout of the structure, packed with alignment 4.\<close>

definition queues_type :: ctype where
  "queues_type = CPacked 4
     [(''magic'', CU64), (''tx_buf'', CArr CU8 0x1000), (''rx_buf'', CArr CU8 0x1000),
      (''tx_head'', CU32), (''tx_tail'', CU32), (''rx_head'', CU32), (''rx_tail'', CU32)]"

definition can_push :: "queues \<Rightarrow> bool" where
  "can_push q \<longleftrightarrow> (rx_head q mod BUFFER_SIZE + 1) mod BUFFER_SIZE \<noteq> rx_tail q mod BUFFER_SIZE"

definition can_pop :: "queues \<Rightarrow> bool" where
  "can_pop q \<longleftrightarrow> tx_head q mod BUFFER_SIZE \<noteq> tx_tail q mod BUFFER_SIZE"

text \<open>The stores of \<open>push_char\<close> and \<open>pop_char\<close> after their spin, one definition per store: the
  slot, then (after the release fence) the index.\<close>

definition push_slot :: "u8 \<Rightarrow> queues \<Rightarrow> queues" where
  "push_slot c q = q\<lparr>rx_buf := (rx_buf q)[unat (rx_head q mod BUFFER_SIZE) := c]\<rparr>"

definition push_head :: "queues \<Rightarrow> queues" where
  "push_head q = q\<lparr>rx_head := (rx_head q + 1) mod BUFFER_SIZE\<rparr>"

definition pop_slot :: "queues \<Rightarrow> u8" where
  "pop_slot q = tx_buf q ! unat (tx_tail q mod BUFFER_SIZE)"

definition pop_tail :: "queues \<Rightarrow> queues" where
  "pop_tail q = q\<lparr>tx_tail := (tx_tail q + 1) mod BUFFER_SIZE\<rparr>"

text \<open>The spin loops re-read the shared indices: the list gives what the guest does to the
  structure before each look. \<open>None\<close>: still spinning when the list ends.\<close>

fun push_char :: "(queues \<Rightarrow> queues) list \<Rightarrow> u8 \<Rightarrow> queues \<Rightarrow> queues option" where
  "push_char [] c q = None"
| "push_char (g # gs) c q =
     (if can_push (g q) then Some (push_head (push_slot c (g q))) else push_char gs c (g q))"

fun pop_char :: "(queues \<Rightarrow> queues) list \<Rightarrow> queues \<Rightarrow> (u8 \<times> queues) option" where
  "pop_char [] q = None"
| "pop_char (g # gs) q =
     (if can_pop (g q) then Some (pop_slot (g q), pop_tail (g q)) else pop_char gs (g q))"

section \<open>Rings as lists\<close>

text \<open>The characters a ring holds, oldest first: from the tail index up to, not including, the
  head index, both modulo 4096.\<close>

definition ring_count :: "nat \<Rightarrow> nat \<Rightarrow> nat" where
  "ring_count h t = (if t \<le> h then h - t else h + 4096 - t)"

definition ring_list :: "u8 list \<Rightarrow> nat \<Rightarrow> nat \<Rightarrow> u8 list" where
  "ring_list buf h t = map (\<lambda>i. buf ! ((t + i) mod 4096)) [0..<ring_count h t]"

definition rx_contents :: "queues \<Rightarrow> u8 list" where
  "rx_contents q = ring_list (rx_buf q) (unat (rx_head q) mod 4096) (unat (rx_tail q) mod 4096)"

definition tx_contents :: "queues \<Rightarrow> u8 list" where
  "tx_contents q = ring_list (tx_buf q) (unat (tx_head q) mod 4096) (unat (tx_tail q) mod 4096)"

lemma wrap: "i < 4096 \<Longrightarrow> t < 4096 \<Longrightarrow> (t + i) mod 4096 = (if t + i < 4096 then t + i else t + i - (4096 :: nat))"
  by (simp add: mod_if)

lemma length_ring_list [simp]: "length (ring_list buf h t) = ring_count h t"
  by (simp add: ring_list_def)

lemma ring_count_bound: "h < 4096 \<Longrightarrow> t < 4096 \<Longrightarrow> ring_count h t \<le> 4095"
  by (auto simp: ring_count_def)

lemma ring_not_full:
  "h < 4096 \<Longrightarrow> t < 4096 \<Longrightarrow> (h + 1) mod 4096 \<noteq> t \<longleftrightarrow> ring_count h t < 4095"
  using wrap [of 1 h] by (auto simp: ring_count_def split: if_splits)

lemma ring_not_empty: "h < 4096 \<Longrightarrow> t < 4096 \<Longrightarrow> h \<noteq> t \<longleftrightarrow> 0 < ring_count h t"
  by (auto simp: ring_count_def)

lemma ring_store_outside:
  assumes "h < 4096" "t < 4096"
  shows "ring_list (buf[h := c]) h t = ring_list buf h t"
proof -
  have ne: "(t + i) mod 4096 \<noteq> h" if "i < ring_count h t" for i
    using that assms wrap [of i t] by (auto simp: ring_count_def split: if_splits)
  show ?thesis
    unfolding ring_list_def by (rule map_cong) (auto intro: nth_list_update_neq dest: ne)
qed

lemma ring_push:
  assumes "h < 4096" "t < 4096" "ring_count h t < 4095"
  shows "ring_list buf ((h + 1) mod 4096) t = ring_list buf h t @ [buf ! h]"
proof -
  have "ring_count ((h + 1) mod 4096) t = Suc (ring_count h t)"
    using assms wrap [of 1 h] by (auto simp: ring_count_def split: if_splits)
  moreover have "(t + ring_count h t) mod 4096 = h"
    using assms wrap [of "ring_count h t" t] by (auto simp: ring_count_def split: if_splits)
  ultimately show ?thesis by (simp add: ring_list_def)
qed

lemma ring_pop:
  assumes "h < 4096" "t < 4096" "h \<noteq> t"
  shows "ring_list buf h t = buf ! t # ring_list buf h ((t + 1) mod 4096)"
proof -
  have n: "ring_count h t = Suc (ring_count h ((t + 1) mod 4096))"
    using assms wrap [of 1 t] by (auto simp: ring_count_def split: if_splits)
  have "((t + 1) mod 4096 + i) mod 4096 = (t + Suc i) mod 4096" for i
    by (simp add: mod_add_left_eq)
  then show ?thesis
    using assms(2) unfolding ring_list_def n upt_conv_Cons [OF zero_less_Suc]
    by (simp add: map_Suc_upt [symmetric] del: upt_Suc)
qed

lemma index_mod: "unat (x mod BUFFER_SIZE) = unat x mod 4096"
  by (simp add: BUFFER_SIZE_def unat_mod_distrib)

lemma index_succ: "unat ((x + 1) mod BUFFER_SIZE) = (unat x mod 4096 + 1) mod 4096"
proof -
  have "unat (x + 1) mod 4096 = (unat x + 1) mod 2 ^ 32 mod 4096"
    by (simp add: unat_word_ariths)
  also have "\<dots> = (unat x + 1) mod 4096"
    by (rule mod_mod_cancel) simp
  finally show ?thesis by (simp add: index_mod mod_Suc_eq)
qed

lemma index_succ_mod: "unat ((x mod BUFFER_SIZE + 1) mod BUFFER_SIZE) = (unat x mod 4096 + 1) mod 4096"
  using index_succ [of "x mod BUFFER_SIZE"] by (simp only: index_mod mod_mod_trivial)

lemma can_push_iff: "can_push q \<longleftrightarrow> length (rx_contents q) < 4095"
proof -
  have "can_push q \<longleftrightarrow> (unat (rx_head q) mod 4096 + 1) mod 4096 \<noteq> unat (rx_tail q) mod 4096"
    unfolding can_push_def word_unat_eq_iff index_succ_mod unfolding index_mod ..
  also have "\<dots> \<longleftrightarrow> length (rx_contents q) < 4095"
    unfolding rx_contents_def length_ring_list by (rule ring_not_full) simp_all
  finally show ?thesis .
qed

lemma can_pop_iff: "can_pop q \<longleftrightarrow> tx_contents q \<noteq> []"
proof -
  have "can_pop q \<longleftrightarrow> unat (tx_head q mod BUFFER_SIZE) \<noteq> unat (tx_tail q mod BUFFER_SIZE)"
    by (simp add: can_pop_def word_unat_eq_iff)
  then show ?thesis
    unfolding index_mod by (simp add: tx_contents_def ring_not_empty length_greater_0_conv [symmetric] del: length_greater_0_conv)
qed

lemma contents_bound: "length (rx_contents q) \<le> 4095" "length (tx_contents q) \<le> 4095"
  by (simp_all add: rx_contents_def tx_contents_def ring_count_bound)

section \<open>What the host's accesses do to the rings\<close>

lemma wf_updates [simp]:
  "wf_queues q \<Longrightarrow> wf_queues (push_slot c q)"
  "wf_queues q \<Longrightarrow> wf_queues (push_head q)"
  "wf_queues q \<Longrightarrow> wf_queues (pop_tail q)"
  by (simp_all add: wf_queues_def push_slot_def push_head_def pop_tail_def)

lemma push_slot_contents [simp]:
  "rx_contents (push_slot c q) = rx_contents q" "tx_contents (push_slot c q) = tx_contents q"
  by (simp_all add: rx_contents_def tx_contents_def push_slot_def index_mod ring_store_outside)

lemma push_head_contents:
  assumes "length (rx_contents q) < 4095"
  shows "rx_contents (push_head q) = rx_contents q @ [rx_buf q ! (unat (rx_head q) mod 4096)]"
    and "tx_contents (push_head q) = tx_contents q"
proof -
  have "rx_contents (push_head q)
      = ring_list (rx_buf q) ((unat (rx_head q) mod 4096 + 1) mod 4096) (unat (rx_tail q) mod 4096)"
    unfolding rx_contents_def push_head_def by (simp add: index_succ del: Suc_eq_plus1 add_Suc_right)
  also have "\<dots> = rx_contents q @ [rx_buf q ! (unat (rx_head q) mod 4096)]"
    unfolding rx_contents_def using assms by (intro ring_push) (simp_all add: rx_contents_def)
  finally show "rx_contents (push_head q) = rx_contents q @ [rx_buf q ! (unat (rx_head q) mod 4096)]" .
  show "tx_contents (push_head q) = tx_contents q"
    by (simp add: tx_contents_def push_head_def)
qed

lemma pop_tail_contents:
  assumes "tx_contents q \<noteq> []"
  shows "tx_contents q = pop_slot q # tx_contents (pop_tail q)"
    and "rx_contents (pop_tail q) = rx_contents q"
proof -
  have ne: "unat (tx_head q) mod 4096 \<noteq> unat (tx_tail q) mod 4096"
    using assms by (auto simp: tx_contents_def ring_list_def ring_count_def)
  have "tx_contents (pop_tail q)
      = ring_list (tx_buf q) (unat (tx_head q) mod 4096) ((unat (tx_tail q) mod 4096 + 1) mod 4096)"
    unfolding tx_contents_def pop_tail_def by (simp add: index_succ del: Suc_eq_plus1 add_Suc_right)
  then show "tx_contents q = pop_slot q # tx_contents (pop_tail q)"
    using ring_pop [OF _ _ ne, of "tx_buf q"] by (simp add: tx_contents_def pop_slot_def index_mod)
  show "rx_contents (pop_tail q) = rx_contents q"
    by (simp add: rx_contents_def pop_tail_def)
qed

lemma push_slot_stored:
  "wf_queues q \<Longrightarrow> rx_buf (push_slot c q) ! (unat (rx_head (push_slot c q)) mod 4096) = c"
  by (simp add: push_slot_def wf_queues_def index_mod)

section \<open>Contracts of the two ends\<close>

text \<open>What a writer relies on at its end of a bounded ring, and what a reader relies on at its end.
  \<open>aside\<close> is the part of the state the operations of this end must leave alone.\<close>

locale ring_writer =
  fixes inv :: "'q \<Rightarrow> bool"
    and room :: "'q \<Rightarrow> bool"
    and put :: "'c \<Rightarrow> 'q \<Rightarrow> 'q"
    and held :: "'q \<Rightarrow> 'c list"
    and aside :: "'q \<Rightarrow> 'a"
    and cap :: nat
  assumes room_iff: "inv q \<Longrightarrow> room q \<longleftrightarrow> length (held q) < cap"
    and held_put: "inv q \<Longrightarrow> room q \<Longrightarrow> held (put c q) = held q @ [c]"
    and inv_put: "inv q \<Longrightarrow> room q \<Longrightarrow> inv (put c q)"
    and aside_put: "inv q \<Longrightarrow> room q \<Longrightarrow> aside (put c q) = aside q"
begin

lemma puts:
  "inv q \<Longrightarrow> length (held q) + length cs \<le> cap \<Longrightarrow>
     inv (fold put cs q) \<and> held (fold put cs q) = held q @ cs \<and> aside (fold put cs q) = aside q"
proof (induction cs arbitrary: q)
  case Nil
  then show ?case by simp
next
  case (Cons c cs)
  then have r: "room q" by (simp add: room_iff)
  then show ?case
    using Cons.IH [of "put c q"] Cons.prems by (simp add: held_put inv_put aside_put)
qed

end

text \<open>\<open>drain fst_of rest n q\<close>: the results of \<open>n\<close> removals, and the state after them.\<close>

fun drain :: "('q \<Rightarrow> 'c) \<Rightarrow> ('q \<Rightarrow> 'q) \<Rightarrow> nat \<Rightarrow> 'q \<Rightarrow> 'c list \<times> 'q" where
  "drain fst_of rest 0 q = ([], q)"
| "drain fst_of rest (Suc n) q = (let (cs, q') = drain fst_of rest n (rest q) in (fst_of q # cs, q'))"

locale ring_reader =
  fixes inv :: "'q \<Rightarrow> bool"
    and avail :: "'q \<Rightarrow> bool"
    and fst_of :: "'q \<Rightarrow> 'c"
    and rest :: "'q \<Rightarrow> 'q"
    and held :: "'q \<Rightarrow> 'c list"
    and aside :: "'q \<Rightarrow> 'a"
  assumes avail_iff: "inv q \<Longrightarrow> avail q \<longleftrightarrow> held q \<noteq> []"
    and held_rest: "inv q \<Longrightarrow> avail q \<Longrightarrow> held q = fst_of q # held (rest q)"
    and inv_rest: "inv q \<Longrightarrow> avail q \<Longrightarrow> inv (rest q)"
    and aside_rest: "inv q \<Longrightarrow> avail q \<Longrightarrow> aside (rest q) = aside q"
begin

lemma drains:
  "inv q \<Longrightarrow> n \<le> length (held q) \<Longrightarrow>
     fst (drain fst_of rest n q) = take n (held q) \<and> held (snd (drain fst_of rest n q)) = drop n (held q)
     \<and> inv (snd (drain fst_of rest n q)) \<and> aside (snd (drain fst_of rest n q)) = aside q"
proof (induction n arbitrary: q)
  case 0
  then show ?case by simp
next
  case (Suc n)
  then have a: "avail q" by (auto simp: avail_iff)
  note h = held_rest [OF Suc.prems(1) a]
  have "fst (drain fst_of rest n (rest q)) = take n (held (rest q))
      \<and> held (snd (drain fst_of rest n (rest q))) = drop n (held (rest q))
      \<and> inv (snd (drain fst_of rest n (rest q))) \<and> aside (snd (drain fst_of rest n (rest q))) = aside (rest q)"
    using Suc.IH [OF inv_rest [OF Suc.prems(1) a]] Suc.prems(2) h by simp
  then show ?case
    using h aside_rest [OF Suc.prems(1) a] by (auto simp: Let_def split: prod.splits)
qed

end

definition push_now :: "u8 \<Rightarrow> queues \<Rightarrow> queues" where
  "push_now c q = push_head (push_slot c q)"

definition other_end :: "queues \<Rightarrow> u8 list \<times> u32 \<times> u32 \<times> u32 \<times> u64" where
  "other_end q = (tx_buf q, tx_head q, tx_tail q, rx_tail q, magic q)"

definition far_end :: "queues \<Rightarrow> u8 list \<times> u8 list \<times> u32 \<times> u32 \<times> u32 \<times> u64" where
  "far_end q = (rx_buf q, tx_buf q, rx_head q, rx_tail q, tx_head q, magic q)"

interpretation rxq: ring_writer wf_queues can_push push_now rx_contents other_end 4095
proof unfold_locales
  fix q c
  assume q: "wf_queues q"
  show "can_push q \<longleftrightarrow> length (rx_contents q) < 4095" by (rule can_push_iff)
  assume "can_push q"
  then have "length (rx_contents (push_slot c q)) < 4095" by (simp add: can_push_iff)
  then show "rx_contents (push_now c q) = rx_contents q @ [c]"
    by (simp add: push_now_def push_head_contents(1) push_slot_stored [OF q])
  show "wf_queues (push_now c q)" using q by (simp add: push_now_def)
  show "other_end (push_now c q) = other_end q"
    by (simp add: push_now_def other_end_def push_head_def push_slot_def)
qed

interpretation txq: ring_reader wf_queues can_pop pop_slot pop_tail tx_contents far_end
proof unfold_locales
  fix q
  assume q: "wf_queues q"
  show "can_pop q \<longleftrightarrow> tx_contents q \<noteq> []" by (rule can_pop_iff)
  assume "can_pop q"
  then show "tx_contents q = pop_slot q # tx_contents (pop_tail q)"
    using pop_tail_contents(1) can_pop_iff by blast
  show "wf_queues (pop_tail q)" using q by simp
  show "far_end (pop_tail q) = far_end q" by (simp add: far_end_def pop_tail_def)
qed

section \<open>Spinning while the guest runs\<close>

text \<open>\<open>guest_step k cs q q'\<close>: what the host relies on of the guest: between two looks of the host
  it takes the \<open>k\<close> oldest characters of the receive ring and appends \<open>cs\<close> to the transmit ring,
  writing only its own two indices and free slots of its own ring.\<close>

definition guest_step :: "nat \<Rightarrow> u8 list \<Rightarrow> queues \<Rightarrow> queues \<Rightarrow> bool" where
  "guest_step k cs q q' \<longleftrightarrow>
     wf_queues q' \<and> rx_head q' = rx_head q \<and> tx_tail q' = tx_tail q \<and> rx_buf q' = rx_buf q
     \<and> k \<le> length (rx_contents q) \<and> rx_contents q' = drop k (rx_contents q)
     \<and> tx_contents q' = tx_contents q @ cs"

definition guest_act :: "(queues \<Rightarrow> queues) \<Rightarrow> bool" where
  "guest_act g \<longleftrightarrow> (\<forall>q. wf_queues q \<longrightarrow> (\<exists>k cs. guest_step k cs q (g q)))"

lemma guest_idle: "wf_queues q \<Longrightarrow> guest_step 0 [] q q"
  by (simp add: guest_step_def)

lemma guest_act_id: "guest_act id"
  by (auto simp: guest_act_def intro: guest_idle)

lemma guest_step_trans:
  assumes "guest_step k cs q q'" "guest_step k' cs' q' q''"
  shows "guest_step (k + k') (cs @ cs') q q''"
  using assms by (auto simp: guest_step_def add.commute)

lemma push_char_eq:
  "push_char gs c q = Some q' \<Longrightarrow> \<forall>g \<in> set gs. guest_act g \<Longrightarrow> wf_queues q \<Longrightarrow>
     \<exists>k cs r. guest_step k cs q r \<and> can_push r \<and> q' = push_now c r"
proof (induction gs c q rule: push_char.induct)
  case (1 c q)
  then show ?case by simp
next
  case (2 g gs c q)
  then obtain k cs where g: "guest_step k cs q (g q)" by (auto simp: guest_act_def)
  show ?case
  proof (cases "can_push (g q)")
    case True
    then show ?thesis using g 2(2) by (auto simp: push_now_def)
  next
    case False
    then obtain k' cs' r where "guest_step k' cs' (g q) r" "can_push r" "q' = push_now c r"
      using 2 g by (auto simp: guest_step_def)
    then show ?thesis using guest_step_trans [OF g] by blast
  qed
qed

lemma pop_char_eq:
  "pop_char gs q = Some (c, q') \<Longrightarrow> \<forall>g \<in> set gs. guest_act g \<Longrightarrow> wf_queues q \<Longrightarrow>
     \<exists>k cs r. guest_step k cs q r \<and> can_pop r \<and> c = pop_slot r \<and> q' = pop_tail r"
proof (induction gs q rule: pop_char.induct)
  case (1 q)
  then show ?case by simp
next
  case (2 g gs q)
  then obtain k cs where g: "guest_step k cs q (g q)" by (auto simp: guest_act_def)
  show ?case
  proof (cases "can_pop (g q)")
    case True
    then show ?thesis using g 2(2) by auto
  next
    case False
    then obtain k' cs' r where "guest_step k' cs' (g q) r" "can_pop r" "c = pop_slot r" "q' = pop_tail r"
      using 2 g by (auto simp: guest_step_def)
    then show ?thesis using guest_step_trans [OF g] by blast
  qed
qed

lemma push_char_spec:
  assumes "push_char gs c q = Some q'" "\<forall>g \<in> set gs. guest_act g" "wf_queues q"
  shows "\<exists>k cs. k \<le> length (rx_contents q) \<and> rx_contents q' = drop k (rx_contents q) @ [c]
                \<and> tx_contents q' = tx_contents q @ cs \<and> wf_queues q'"
proof -
  obtain k cs r where r: "guest_step k cs q r" "can_push r" "q' = push_now c r"
    using push_char_eq [OF assms] by blast
  then have "wf_queues r" by (simp add: guest_step_def)
  moreover have "length (rx_contents (push_slot c r)) < 4095" using r(2) by (simp add: can_push_iff)
  ultimately have "rx_contents q' = rx_contents r @ [c]" "wf_queues q'" "tx_contents q' = tx_contents r"
    using r rxq.held_put [of r c] rxq.inv_put [of r c]
    by (simp_all add: push_now_def push_head_contents(2))
  then show ?thesis using r(1) by (auto simp: guest_step_def)
qed

lemma pop_char_spec:
  assumes "pop_char gs q = Some (c, q')" "\<forall>g \<in> set gs. guest_act g" "wf_queues q"
  shows "\<exists>k cs. k \<le> length (rx_contents q) \<and> rx_contents q' = drop k (rx_contents q)
                \<and> c # tx_contents q' = tx_contents q @ cs \<and> wf_queues q'"
proof -
  obtain k cs r where r: "guest_step k cs q r" "can_pop r" "c = pop_slot r" "q' = pop_tail r"
    using pop_char_eq [OF assms] by blast
  then have "wf_queues r" by (simp add: guest_step_def)
  then have "tx_contents r = c # tx_contents q'" "wf_queues q'" "rx_contents q' = rx_contents r"
    using r txq.held_rest [of r] txq.inv_rest [of r]
    by (simp_all add: pop_tail_contents(2) can_pop_iff)
  then show ?thesis using r(1) by (auto simp: guest_step_def)
qed

text \<open>The spins end as soon as the guest makes room, or says something.\<close>

lemma push_char_returns:
  "g \<in> set gs \<Longrightarrow> (\<And>q. can_push (g q)) \<Longrightarrow> push_char gs c q \<noteq> None"
  by (induction gs c q rule: push_char.induct) auto

lemma push_char_spins:
  "\<forall>g \<in> set gs. \<forall>q. rx_contents (g q) = rx_contents q \<Longrightarrow> \<not> can_push q \<Longrightarrow> push_char gs c q = None"
  by (induction gs c q rule: push_char.induct) (auto simp: can_push_iff)

section \<open>Every interleaving of the two sides\<close>

text \<open>The host's accesses one shared memory access at a time, with the guest running in between.
  \<open>typed\<close>, \<open>printed\<close>, \<open>taken\<close> and \<open>made\<close> are histories: what came from the terminal, what went
  to it, what the guest received and what it sent.\<close>

datatype host_pc = H_Idle | H_Spin u8 | H_Slot u8 | H_Head u8 | H_Wait | H_Load | H_Tail u8

record console =
  c_q :: queues
  c_pc :: host_pc
  typed :: "u8 list"
  printed :: "u8 list"
  taken :: "u8 list"
  made :: "u8 list"

inductive console_step :: "console \<Rightarrow> console \<Rightarrow> bool" where
  key: "c_pc s = H_Idle \<Longrightarrow> console_step s (s\<lparr>c_pc := H_Spin c, typed := typed s @ [c]\<rparr>)"
| room: "c_pc s = H_Spin c \<Longrightarrow> can_push (c_q s) \<Longrightarrow> console_step s (s\<lparr>c_pc := H_Slot c\<rparr>)"
| slot: "c_pc s = H_Slot c \<Longrightarrow> console_step s (s\<lparr>c_pc := H_Head c, c_q := push_slot c (c_q s)\<rparr>)"
| head: "c_pc s = H_Head c \<Longrightarrow> console_step s (s\<lparr>c_pc := H_Idle, c_q := push_head (c_q s)\<rparr>)"
| look: "c_pc s = H_Idle \<Longrightarrow> can_pop (c_q s) \<Longrightarrow> console_step s (s\<lparr>c_pc := H_Wait\<rparr>)"
| more: "c_pc s = H_Wait \<Longrightarrow> can_pop (c_q s) \<Longrightarrow> console_step s (s\<lparr>c_pc := H_Load\<rparr>)"
| load: "c_pc s = H_Load \<Longrightarrow> console_step s (s\<lparr>c_pc := H_Tail (pop_slot (c_q s))\<rparr>)"
| tail: "c_pc s = H_Tail c \<Longrightarrow>
     console_step s (s\<lparr>c_pc := H_Idle, c_q := pop_tail (c_q s), printed := printed s @ [c]\<rparr>)"
| guest: "guest_step k cs (c_q s) q' \<Longrightarrow>
     console_step s (s\<lparr>c_q := q', taken := taken s @ take k (rx_contents (c_q s)),
                       made := made s @ cs\<rparr>)"

inductive_cases console_stepE: "console_step s s'"

fun in_flight :: "host_pc \<Rightarrow> u8 list" where
  "in_flight (H_Spin c) = [c]"
| "in_flight (H_Slot c) = [c]"
| "in_flight (H_Head c) = [c]"
| "in_flight _ = []"

text \<open>What is known at each point between two accesses, whatever the guest has done since.\<close>

fun pc_inv :: "host_pc \<Rightarrow> queues \<Rightarrow> bool" where
  "pc_inv (H_Slot c) q = (length (rx_contents q) < 4095)"
| "pc_inv (H_Head c) q =
     (length (rx_contents q) < 4095 \<and> rx_buf q ! (unat (rx_head q) mod 4096) = c)"
| "pc_inv H_Wait q = (tx_contents q \<noteq> [])"
| "pc_inv H_Load q = (tx_contents q \<noteq> [])"
| "pc_inv (H_Tail c) q = (tx_contents q \<noteq> [] \<and> pop_slot q = c)"
| "pc_inv _ q = True"

definition console_inv :: "console \<Rightarrow> bool" where
  "console_inv s \<longleftrightarrow>
     wf_queues (c_q s) \<and> pc_inv (c_pc s) (c_q s)
     \<and> typed s = taken s @ rx_contents (c_q s) @ in_flight (c_pc s)
     \<and> made s = printed s @ tx_contents (c_q s)"

lemma guest_step_slot:
  assumes "guest_step k cs q q'" "tx_contents q \<noteq> []"
  shows "pop_slot q' = pop_slot q"
proof -
  have "tx_contents q' = tx_contents q @ cs" using assms by (simp add: guest_step_def)
  then show ?thesis
    using pop_tail_contents(1) [OF assms(2)] pop_tail_contents(1) [of q'] assms(2) by auto
qed

lemma guest_keeps_pc_inv: "guest_step k cs q q' \<Longrightarrow> pc_inv pc q \<Longrightarrow> pc_inv pc q'"
  by (cases pc) (auto simp: guest_step_slot, auto simp: guest_step_def)

lemma console_step_inv: "console_step s s' \<Longrightarrow> console_inv s \<Longrightarrow> console_inv s'"
proof (induction rule: console_step.induct)
  case (slot s c)
  then show ?case by (simp add: console_inv_def push_slot_stored)
next
  case (head s c)
  then show ?case by (simp add: console_inv_def push_head_contents)
next
  case (tail s c)
  then show ?case
    using pop_tail_contents [of "c_q s"] by (auto simp: console_inv_def)
next
  case (guest k cs s q')
  then show ?case
    by (auto simp: console_inv_def guest_keeps_pc_inv) (auto simp: guest_step_def)
qed (auto simp: console_inv_def can_push_iff can_pop_iff)

lemma console_steps_inv: "console_step\<^sup>*\<^sup>* s s' \<Longrightarrow> console_inv s \<Longrightarrow> console_inv s'"
  by (induction rule: rtranclp_induct) (auto intro: console_step_inv)

definition console_start :: "queues \<Rightarrow> console" where
  "console_start q =
     \<lparr>c_q = q, c_pc = H_Idle, typed = rx_contents q, printed = [], taken = [], made = tx_contents q\<rparr>"

lemma console_start_inv: "wf_queues q \<Longrightarrow> console_inv (console_start q)"
  by (simp add: console_inv_def console_start_def)

text \<open>C11: no interleaving of the host's single memory accesses with the guest's loses, repeats,
  reorders or overwrites a character, in either direction: what was typed is what the guest has
  received, then what the ring holds, then the character being stored; what the guest sent is
  what was printed, then what the ring holds; and neither ring ever holds more than 4095.\<close>

theorem console_lossless:
  assumes "wf_queues q" and "console_step\<^sup>*\<^sup>* (console_start q) s"
  shows "typed s = taken s @ rx_contents (c_q s) @ in_flight (c_pc s)
         \<and> made s = printed s @ tx_contents (c_q s)
         \<and> length (rx_contents (c_q s)) \<le> 4095 \<and> length (tx_contents (c_q s)) \<le> 4095"
  using console_steps_inv [OF assms(2) console_start_inv [OF assms(1)]] contents_bound
  by (simp add: console_inv_def)

definition sample_queues :: queues where
  "sample_queues =
     \<lparr>magic = VIRTUAL_UART_MAGIC, tx_buf = replicate 4096 0, rx_buf = replicate 4096 0,
      tx_head = 0, tx_tail = 0, rx_head = 4095, rx_tail = 4095\<rparr>"

lemma sample_queues: "wf_queues sample_queues" "can_push sample_queues" "rx_contents sample_queues = []"
  by (simp_all add: sample_queues_def wf_queues_def can_push_def BUFFER_SIZE_def rx_contents_def
      ring_list_def ring_count_def)

theorem console_lossless_witness:
  "\<exists>s. console_step\<^sup>*\<^sup>* (console_start sample_queues) s \<and> c_pc s = H_Idle \<and> typed s = [104]
       \<and> taken s @ rx_contents (c_q s) = [104]"
proof -
  define s0 s1 s2 s3 s4 where "s0 = console_start sample_queues"
    and "s1 = s0\<lparr>c_pc := H_Spin 104, typed := typed s0 @ [104]\<rparr>"
    and "s2 = s1\<lparr>c_pc := H_Slot 104\<rparr>"
    and "s3 = s2\<lparr>c_pc := H_Head 104, c_q := push_slot 104 (c_q s2)\<rparr>"
    and "s4 = s3\<lparr>c_pc := H_Idle, c_q := push_head (c_q s3)\<rparr>"
  note defs = s0_def s1_def s2_def s3_def s4_def console_start_def
  have "console_step s0 s1" unfolding s1_def by (rule key) (simp add: defs)
  moreover have "console_step s1 s2"
    unfolding s2_def by (rule room) (simp_all add: defs sample_queues)
  moreover have "console_step s2 s3" unfolding s3_def by (rule slot) (simp add: s2_def)
  moreover have "console_step s3 s4" unfolding s4_def by (rule head) (simp add: s3_def)
  ultimately have run: "console_step\<^sup>*\<^sup>* (console_start sample_queues) s4"
    unfolding s0_def by (meson converse_rtranclp_into_rtranclp rtranclp.rtrancl_refl)
  have "c_pc s4 = H_Idle" "typed s4 = [104]" by (simp_all add: defs sample_queues)
  then show ?thesis
    using run console_lossless [OF sample_queues(1) run] by (intro exI [of _ s4]) auto
qed

text \<open>The code of \<open>push_char\<close> and \<open>pop_char\<close> runs are such interleavings.\<close>

lemma guest_steps_run:
  assumes "guest_step k cs (c_q s) r"
  shows "console_step\<^sup>*\<^sup>* s (s\<lparr>c_q := r, taken := taken s @ take k (rx_contents (c_q s)),
                                made := made s @ cs\<rparr>)"
  using assms by (blast intro: console_step.guest)

text \<open>Every run of \<open>push_char\<close> that gets past its spin is one of the interleavings: it ends idle,
  in the queue state the code computes, with the character delivered to the ring.\<close>

theorem push_char_simulated:
  assumes "push_char gs c (c_q s) = Some q'" "\<forall>g \<in> set gs. guest_act g" "wf_queues (c_q s)"
    and "c_pc s = H_Spin c"
  shows "\<exists>s'. console_step\<^sup>*\<^sup>* s s' \<and> c_q s' = q' \<and> c_pc s' = H_Idle \<and> typed s' = typed s"
proof -
  obtain k cs r where r: "guest_step k cs (c_q s) r" "can_push r" "q' = push_now c r"
    using push_char_eq [OF assms(1-3)] by blast
  define s1 where "s1 = s\<lparr>c_q := r, taken := taken s @ take k (rx_contents (c_q s)), made := made s @ cs\<rparr>"
  define s2 where "s2 = s1\<lparr>c_pc := H_Slot c\<rparr>"
  define s3 where "s3 = s2\<lparr>c_pc := H_Head c, c_q := push_slot c (c_q s2)\<rparr>"
  define s4 where "s4 = s3\<lparr>c_pc := H_Idle, c_q := push_head (c_q s3)\<rparr>"
  have "console_step\<^sup>*\<^sup>* s s1" unfolding s1_def by (rule guest_steps_run) (rule r(1))
  moreover have "console_step s1 s2"
    unfolding s2_def by (rule room) (simp_all add: s1_def assms(4) r(2))
  moreover have "console_step s2 s3" unfolding s3_def by (rule slot) (simp add: s2_def)
  moreover have "console_step s3 s4" unfolding s4_def by (rule head) (simp add: s3_def)
  ultimately have "console_step\<^sup>*\<^sup>* s s4" by (meson rtranclp.rtrancl_into_rtrancl)
  moreover have "c_q s4 = q'" "c_pc s4 = H_Idle" "typed s4 = typed s"
    by (simp_all add: s4_def s3_def s2_def s1_def r(3) push_now_def)
  ultimately show ?thesis by blast
qed

theorem push_char_simulated_witness:
  "\<exists>s s'. c_pc s = H_Spin 104 \<and> console_step\<^sup>*\<^sup>* s s' \<and> c_pc s' = H_Idle
          \<and> push_char [id] 104 (c_q s) = Some (c_q s')"
proof -
  define s where "s = (console_start sample_queues)\<lparr>c_pc := H_Spin 104\<rparr>"
  have p: "push_char [id] 104 (c_q s) = Some (push_now 104 sample_queues)"
    and pc: "c_pc s = H_Spin 104" and wf: "wf_queues (c_q s)"
    by (simp_all add: s_def console_start_def sample_queues push_now_def)
  obtain s' where "console_step\<^sup>*\<^sup>* s s'" "c_q s' = push_now 104 sample_queues" "c_pc s' = H_Idle"
    using push_char_simulated [OF p _ wf pc] guest_act_id by auto
  then show ?thesis using p pc by metis
qed

text \<open>\<open>push_char\<close> appends its character behind everything the guest has not yet taken, touches
  nothing of the other ring, and overwrites no unread character, whatever the guest does while
  the host spins.\<close>

theorem push_char_appends:
  assumes "push_char gs c q = Some q'" "\<forall>g \<in> set gs. guest_act g" "wf_queues q"
  shows "\<exists>k cs. k \<le> length (rx_contents q) \<and> rx_contents q' = drop k (rx_contents q) @ [c]
                \<and> tx_contents q' = tx_contents q @ cs \<and> wf_queues q'"
  using assms by (rule push_char_spec)

theorem push_char_appends_witness:
  "\<exists>q'. push_char [id] 104 sample_queues = Some q' \<and> wf_queues q'
     \<and> length (rx_contents q') \<ge> 1"
proof -
  have p: "push_char [id] 104 sample_queues = Some (push_now 104 sample_queues)"
    by (simp add: sample_queues push_now_def)
  show ?thesis
    using push_char_appends [OF p] guest_act_id sample_queues(1) p by force
qed

section \<open>Finding the rings\<close>

definition OPENSBI_DEBUG_PTR :: u64 where "OPENSBI_DEBUG_PTR = 0x80"

text \<open>\<open>"OSBIdbug"\<close>\<close>

definition EYE_CATCHER :: "u8 list" where
  "EYE_CATCHER = [0x4F, 0x53, 0x42, 0x49, 0x64, 0x62, 0x75, 0x67]"

definition debug_descriptor_type :: ctype where
  "debug_descriptor_type =
     CStruct [(''eye_catcher'', CArr CU8 8), (''version'', CU32), (''virtuart_base'', CU64)]"

fun check_eye_catcher :: "mem \<Rightarrow> nat \<Rightarrow> nat list \<Rightarrow> bool res" where
  "check_eye_catcher m p [] = Inr True"
| "check_eye_catcher m p (i # is) =
     bindR (ld8 (unat TWO_MEG) m (p + i)) (\<lambda>b.
       if b \<noteq> EYE_CATCHER ! i then Inr False else check_eye_catcher m p is)"

text \<open>\<open>None\<close> is the return value 1 of \<open>uart_loop\<close>: no descriptor, or no UART behind it.\<close>

definition read_descriptor :: "mem \<Rightarrow> nat \<Rightarrow> u64 option res" where
  "read_descriptor m p =
     bindR (check_eye_catcher m p [0..<8]) (\<lambda>found.
       if \<not> found then Inr None
       else bindR (ld64 (unat TWO_MEG) m (p + 16)) (\<lambda>uart_base.
         Inr (if uart_base = NOT 0 then None else Some uart_base)))"

definition find_uart :: "L2CPU \<Rightarrow> kmd_reply \<Rightarrow> kmd_reply \<Rightarrow> noc \<Rightarrow> kevent list \<times> u64 option res" where
  "find_uart c k1 k2 M =
     (case L2CPU_read32 c k1 M (get_starting_address c + OPENSBI_DEBUG_PTR) of
        (e1, Inl f) \<Rightarrow> (e1, Inl f)
      | (e1, Inr d) \<Rightarrow>
          (case get_persistent_2M_tlb_window c (get_starting_address c + ucast d) k2 of
             (e2, Inl f) \<Rightarrow> (e1 @ e2, Inl f)
           | (e2, Inr w) \<Rightarrow>
               (case read_descriptor (window_mem M (w_handle w)) (unat (TlbWindow_get_window w)) of
                  Inl f \<Rightarrow> (e1 @ e2, Inl f)
                | Inr r \<Rightarrow> (e1 @ e2 @ TlbHandle_delete (w_handle w), Inr r))))"

lemma queues_offsets:
  "offset_of queues_type ''tx_buf'' = Some 8" "offset_of queues_type ''rx_buf'' = Some 0x1008"
  "offset_of queues_type ''tx_head'' = Some 0x2008" "offset_of queues_type ''tx_tail'' = Some 0x200C"
  "offset_of queues_type ''rx_head'' = Some 0x2010" "offset_of queues_type ''rx_tail'' = Some 0x2014"
  "csize queues_type = 0x2018"
  "offset_of debug_descriptor_type ''virtuart_base'' = Some 16" "csize debug_descriptor_type = 24"
  by (simp_all add: queues_type_def debug_descriptor_type_def offset_of_def align_up_def)

lemma check_eye_catcher_Inr:
  "check_eye_catcher m p is = Inr b \<Longrightarrow> b \<longleftrightarrow> (\<forall>i \<in> set is. m (p + i) = EYE_CATCHER ! i)"
  by (induction m p "is" rule: check_eye_catcher.induct) (auto simp: res_simps split: if_splits)

lemma check_eye_catcher_fits:
  "\<forall>i \<in> set is. p + i < 2 ^ 21 \<Longrightarrow>
     check_eye_catcher m p is = Inr (\<forall>i \<in> set is. m (p + i) = EYE_CATCHER ! i)"
  by (induction m p "is" rule: check_eye_catcher.induct) (auto simp: window_sizes unat_pow2)

lemma eye_catcher_peek:
  "(\<forall>i \<in> set [0..<8]. m (p + i) = EYE_CATCHER ! i) \<longleftrightarrow> peek m p 8 = EYE_CATCHER"
proof -
  have "length EYE_CATCHER = 8" by (simp add: EYE_CATCHER_def)
  then show ?thesis by (auto simp: list_eq_iff_nth_eq)
qed

lemma read_descriptor_fits:
  assumes "p + 24 \<le> 2 ^ 21"
  shows "read_descriptor m p =
           Inr (if peek m p 8 = EYE_CATCHER \<and> val64 m (p + 16) \<noteq> NOT 0 then Some (val64 m (p + 16)) else None)"
proof -
  have "check_eye_catcher m p [0..<8] = Inr (peek m p 8 = EYE_CATCHER)"
    using check_eye_catcher_fits [of "[0..<8]" p m] assms unfolding eye_catcher_peek by simp
  then show ?thesis
    using assms by (simp add: read_descriptor_def window_sizes unat_pow2)
qed

lemma read_descriptor_Inr:
  assumes "read_descriptor m p = Inr r"
  shows "r = (if peek m p 8 = EYE_CATCHER \<and> val64 m (p + 16) \<noteq> NOT 0 then Some (val64 m (p + 16)) else None)"
proof -
  obtain b where b: "check_eye_catcher m p [0..<8] = Inr b"
    using assms by (auto simp: read_descriptor_def bindR_Inr_iff)
  then have "b \<longleftrightarrow> peek m p 8 = EYE_CATCHER"
    using check_eye_catcher_Inr [OF b] eye_catcher_peek by simp
  then show ?thesis
    using assms b by (auto simp: read_descriptor_def res_simps split: if_splits)
qed

lemma tile_start_small:
  assumes "L2CPU_new env N idx cardno = (evs, Inr (c, N'))"
  shows "unat (starting_address c) + 2 ^ 32 < 2 ^ 64" "4 dvd unat (starting_address c)"
    "0x400000000000 \<le> unat (starting_address c)"
proof -
  obtain sz where s: "l2cpu_starting_address_mapping idx = Some (starting_address c)"
    "l2cpu_memory_size_mapping idx = Some sz"
    using assms by (rule L2CPU_new_Inr) auto
  show "unat (starting_address c) + 2 ^ 32 < 2 ^ 64" "4 dvd unat (starting_address c)"
    "0x400000000000 \<le> unat (starting_address c)"
    using tables_range(3) [OF s] by auto
qed

lemma find_uart_spec:
  assumes new: "L2CPU_new env N idx cardno = (evs, Inr (c, N'))"
    and find: "find_uart c k1 k2 M = (es, Inr r)"
  shows "(let X = M (fst (coordinates c)) (snd (coordinates c));
              start = unat (starting_address c);
              d = start + unat (val32 X (start + 0x80))
          in r = (if peek X d 8 = EYE_CATCHER \<and> val64 X (d + 16) \<noteq> NOT 0
                  then Some (val64 X (d + 16)) else None))
         \<and> (\<forall>res. balance es res = 0)"
proof -
  let ?X = "M (fst (coordinates c)) (snd (coordinates c))"
  let ?s = "starting_address c"
  obtain e1 d e2 w where rd: "L2CPU_read32 c k1 M (?s + 0x80) = (e1, Inr d)"
    and win: "get_persistent_2M_tlb_window c (?s + ucast d) k2 = (e2, Inr w)"
    and desc: "read_descriptor (window_mem M (w_handle w)) (unat (TlbWindow_get_window w)) = Inr r"
    and es: "es = e1 @ e2 @ TlbHandle_delete (w_handle w)"
    using find
    by (auto simp: find_uart_def get_starting_address_def OPENSBI_DEBUG_PTR_def
        split: prod.splits sum.splits)
  note small = tile_start_small [OF new]
  have a80: "unat (?s + 0x80) = unat ?s + 0x80"
    using small(1) unat_add_less_64 [of ?s "0x80"] by simp
  have ge: "0x400000000000 \<le> unat (?s + 0x80)" using small(3) a80 by simp
  have view: "val32 (l2cpu_mem M c) (unat ?s + 0x80 - 0x400000000000) = val32 ?X (unat ?s + 0x80)"
    using small(3) by (simp add: val32_def peek_def l2cpu_mem_eq [OF new] ac_simps)
  have d: "d = val32 ?X (unat ?s + 0x80)" and b1: "\<And>r. balance e1 r = 0"
    using read32_view [OF new rd ge] a80 view by simp_all
  have "unat d < 2 ^ 32" using unsigned_less [of d] by simp
  then have "unat (ucast d :: u64) = unat d"
    by (simp add: unsigned_ucast_eq take_bit_nat_eq_self)
  with \<open>unat d < 2 ^ 32\<close> have ad: "unat (?s + ucast d) = unat ?s + unat d"
    using small(1) unat_add_less_64 [of ?s "ucast d"] by simp
  have "peek (window_mem M (w_handle w)) (unat (TlbWindow_get_window w)) 8 = peek ?X (unat ?s + unat d) 8"
    "val64 (window_mem M (w_handle w)) (unat (TlbWindow_get_window w) + 16) = val64 ?X (unat ?s + unat d + 16)"
    using two_meg_window_mem(1) [OF win, of M] ad by (simp_all add: peek_def val64_def add.assoc)
  then have r: "r = (if peek ?X (unat ?s + unat d) 8 = EYE_CATCHER \<and> val64 ?X (unat ?s + unat d + 16) \<noteq> NOT 0
                  then Some (val64 ?X (unat ?s + unat d + 16)) else None)"
    using read_descriptor_Inr [OF desc] by simp
  have "balance e2 res = holds_only (w_handle w) res" for res
    using TlbHandle_new_balance [OF TlbWindow_new_Inr(4) [OF win [unfolded get_persistent_2M_tlb_window_def]], of res]
    by simp
  then have "balance es res = 0" for res
    by (simp add: es b1 TlbHandle_delete_balance)
  then show ?thesis using r unfolding d Let_def by blast
qed

lemmas find_uart_balance = find_uart_spec [THEN conjunct2, rule_format]

text \<open>C22: \<open>uart_loop\<close> finds the rings exactly where the guest announces them: it follows the 32-bit
  offset at the bottom of the tile's memory, accepts what it points to only if it starts with the
  eye catcher and its base is not all ones, and has then released both temporary windows.\<close>

theorem find_uart_correct:
  assumes new: "L2CPU_new env N idx cardno = (evs, Inr (c, N'))"
    and find: "find_uart c k1 k2 M = (es, Inr r)"
  shows "(let X = M (fst (coordinates c)) (snd (coordinates c));
              start = unat (starting_address c);
              d = start + unat (val32 X (start + 0x80))
          in r = (if peek X d 8 = EYE_CATCHER \<and> val64 X (d + 16) \<noteq> NOT 0
                  then Some (val64 X (d + 16)) else None))
         \<and> (\<forall>res. balance es res = 0)"
  using assms by (rule find_uart_spec)

lemma find_uart_runs:
  assumes new: "L2CPU_new env N idx cardno = (evs, Inr (c, N'))"
    and reply: "rep_allocate k \<noteq> None" "rep_configure k" "rep_mmap k \<noteq> None"
    and small: "unat (val32 (M (fst (coordinates c)) (snd (coordinates c))) (unat (starting_address c) + 0x80)) = 0"
    and al: "2 ^ 21 dvd unat (starting_address c)"
  shows "\<exists>es r. find_uart c k k M = (es, Inr r)"
proof -
  let ?s = "starting_address c"
  let ?X = "M (fst (coordinates c)) (snd (coordinates c))"
  obtain out m where "rep_allocate k = Some out" "rep_mmap k = Some m" using reply by auto
  then have win: "\<exists>e w. get_persistent_2M_tlb_window c a k = (e, Inr w)" for a
    using sample_window_new [of k] reply(2) by (simp add: get_persistent_2M_tlb_window_def)
  have a80: "unat (?s + 0x80) = unat ?s + 0x80"
    using tile_start_small(1) [OF new] unat_add_less_64 [of ?s "0x80"] by simp
  obtain e w where w: "get_persistent_2M_tlb_window c (?s + 0x80) k = (e, Inr w)" using win by blast
  have "4 dvd unat (?s + 0x80)" using tile_start_small(2) [OF new] a80 by simp
  then have v: "TlbWindow_read32 M w 0 = Inr (val32 ?X (unat ?s + 0x80))"
    using two_meg_window(1) [OF w [unfolded get_persistent_2M_tlb_window_def]] a80 by simp
  have z: "val32 ?X (unat ?s + 0x80) = 0" using small by (simp add: unat_eq_0)
  obtain e' w' where w': "get_persistent_2M_tlb_window c ?s k = (e', Inr w')" using win by blast
  have "unat (TlbWindow_get_window w') = 0"
    using two_meg_window_mem(2) [OF w'] al by simp
  then show ?thesis
    using w v w' z read_descriptor_fits [of 0 "window_mem M (w_handle w')"]
    by (simp add: find_uart_def L2CPU_read32_def get_starting_address_def OPENSBI_DEBUG_PTR_def)
qed

definition sample_chip :: noc where
  "sample_chip = (\<lambda>_ _. poke (poke (\<lambda>_. 0) 0x4000b0000000 EYE_CATCHER)
                           0x4000b0000010 (bytes64 0x4000b0100000))"

lemma sample_uart:
  assumes new: "L2CPU_new sample_env (\<lambda>_ _ _. 0) 3 0 = (evs, Inr (c, N'))"
  shows "\<exists>es. find_uart c sample_reply sample_reply sample_chip = (es, Inr (Some 0x4000b0100000))"
proof -
  have start: "starting_address c = 0x4000b0000000"
    using new by (rule L2CPU_new_Inr) (simp add: tables_at)
  have len: "length EYE_CATCHER = 8" by (simp add: EYE_CATCHER_def)
  have x: "sample_chip x y = poke (poke (\<lambda>_. 0) 0x4000b0000000 EYE_CATCHER)
                           0x4000b0000010 (bytes64 0x4000b0100000)" for x y
    by (simp add: sample_chip_def)
  have "val32 (\<lambda>_. 0) p = 0" for p
    by (simp add: val32_def peek_def upt_rec)
  then have z: "val32 (sample_chip x y) 0x4000b0000080 = 0" for x y
    by (simp add: x val_poke_disjoint len)
  have e: "peek (sample_chip x y) 0x4000b0000000 8 = EYE_CATCHER" for x y
    by (simp add: x peek_poke_disjoint peek_poke_same len)
  have b: "val64 (sample_chip x y) 0x4000b0000010 = 0x4000b0100000" for x y
    by (simp add: x val_poke_same)
  obtain es r where f: "find_uart c sample_reply sample_reply sample_chip = (es, Inr r)"
    using find_uart_runs [OF new, of sample_reply sample_chip]
    by (auto simp: start z sample_reply_def)
  have "r = Some 0x4000b0100000"
    using find_uart_spec [OF new f] by (simp add: start z e b)
  then show ?thesis using f by blast
qed

theorem find_uart_correct_witness:
  "\<exists>evs c N' es. L2CPU_new sample_env (\<lambda>_ _ _. 0) 3 0 = (evs, Inr (c, N'))
     \<and> find_uart c sample_reply sample_reply sample_chip = (es, Inr (Some 0x4000b0100000))
     \<and> balance es (Res_Tlb 3 7) = 0"
proof -
  obtain evs c N' where new: "L2CPU_new sample_env (\<lambda>_ _ _. 0) 3 0 = (evs, Inr (c, N'))"
    using sample_l2cpu by blast
  obtain es where f: "find_uart c sample_reply sample_reply sample_chip = (es, Inr (Some 0x4000b0100000))"
    using sample_uart [OF new] by blast
  show ?thesis using find_uart_correct [OF new f] new f by blast
qed

end
