(* ===== verification/Uart.thy ===== *)
theory Uart
  imports Console
begin

text \<open>
  The terminal side of the console (\<^verbatim>\<open>console/console.hpp\<close>): the raw mode of the terminal, the loop with
  its Ctrl-A escape, and the whole of \<open>uart_loop\<close>. The terminal driver and the flag values of
  \<^verbatim>\<open>termios.h\<close> are outside the repository and are the parameters \<open>tty_ops\<close> and \<open>tty_flags\<close>.
\<close>

section \<open>Raw mode\<close>

record termios =
  c_iflag :: u32
  c_oflag :: u32
  c_cflag :: u32
  c_lflag :: u32
  c_cc :: "u8 list"

record tty_flags =
  ECHO :: u32
  ICANON :: u32
  ISIG :: u32
  IEXTEN :: u32
  BRKINT :: u32
  INPCK :: u32
  ISTRIP :: u32
  IXON :: u32
  ICRNL :: u32
  OPOST :: u32
  CS8 :: u32

text \<open>\<open>tcgetattr\<close> fails (\<open>None\<close>) when standard input is no terminal. \<open>tty_ok\<close> is what POSIX says: what was
  set is what one gets, the last setting counts, setting what is set changes nothing, and without
  a terminal nothing happens.\<close>

record 't tty_ops =
  tcgetattr :: "'t \<Rightarrow> termios option"
  tcsetattr :: "termios \<Rightarrow> 't \<Rightarrow> 't"

definition tty_ok :: "'t tty_ops \<Rightarrow> bool" where
  "tty_ok T \<longleftrightarrow>
     (\<forall>t a. tcgetattr T t \<noteq> None \<longrightarrow> tcgetattr T (tcsetattr T a t) = Some a)
     \<and> (\<forall>t a b. tcsetattr T a (tcsetattr T b t) = tcsetattr T a t)
     \<and> (\<forall>t a. tcgetattr T t = Some a \<longrightarrow> tcsetattr T a t = t)
     \<and> (\<forall>t a. tcgetattr T t = None \<longrightarrow> tcsetattr T a t = t)"

definition make_raw :: "tty_flags \<Rightarrow> termios \<Rightarrow> termios" where
  "make_raw F a =
     a\<lparr>c_lflag := c_lflag a AND NOT (ECHO F OR ICANON F OR ISIG F OR IEXTEN F),
       c_iflag := c_iflag a AND NOT (BRKINT F OR INPCK F OR ISTRIP F OR IXON F OR ICRNL F),
       c_oflag := c_oflag a AND NOT (OPOST F),
       c_cflag := c_cflag a OR CS8 F\<rparr>"

text \<open>Constructor and destructor of \<open>TerminalRawMode\<close>: the member keeps the settings found, or its
  uninitialised bytes when there is no terminal.\<close>

definition TerminalRawMode_new :: "'t tty_ops \<Rightarrow> tty_flags \<Rightarrow> termios \<Rightarrow> 't \<Rightarrow> termios \<times> 't" where
  "TerminalRawMode_new T F garbage t =
     (let orig_termios = (case tcgetattr T t of None \<Rightarrow> garbage | Some a \<Rightarrow> a)
      in (orig_termios, tcsetattr T (make_raw F orig_termios) t))"

definition TerminalRawMode_delete :: "'t tty_ops \<Rightarrow> termios \<Rightarrow> 't \<Rightarrow> 't" where
  "TerminalRawMode_delete T orig_termios t = tcsetattr T orig_termios t"

lemma raw_mode_restored:
  assumes "tty_ok T" "TerminalRawMode_new T F garbage t = (orig, t1)"
  shows "TerminalRawMode_delete T orig t1 = t"
  using assms
  by (auto simp: TerminalRawMode_new_def TerminalRawMode_delete_def tty_ok_def Let_def split: option.splits)

lemma raw_mode_settings:
  assumes "tty_ok T" "TerminalRawMode_new T F garbage t = (orig, t1)" "tcgetattr T t = Some a"
  shows "tcgetattr T t1 = Some (make_raw F a)"
  using assms by (auto simp: TerminalRawMode_new_def tty_ok_def Let_def)

lemma raw_mode_no_terminal:
  assumes "tty_ok T" "TerminalRawMode_new T F garbage t = (orig, t1)" "tcgetattr T t = None"
  shows "t1 = t"
  using assms by (auto simp: TerminalRawMode_new_def tty_ok_def Let_def)

lemma make_raw_bits:
  "c_lflag (make_raw F a) AND (ECHO F OR ICANON F OR ISIG F OR IEXTEN F) = 0"
  "c_oflag (make_raw F a) AND OPOST F = 0" "c_iflag (make_raw F a) AND (IXON F OR ICRNL F) = 0"
  by (rule bit_word_eqI, auto simp: make_raw_def bit_simps)+

text \<open>Linux's values, and a terminal that keeps its settings.\<close>

definition linux_tty_flags :: tty_flags where
  "linux_tty_flags =
     \<lparr>ECHO = 8, ICANON = 2, ISIG = 1, IEXTEN = 0x8000, BRKINT = 2, INPCK = 0x10, ISTRIP = 0x20, IXON = 0x400,
      ICRNL = 0x100, OPOST = 1, CS8 = 0x30\<rparr>"

definition sample_tty :: "termios option tty_ops" where
  "sample_tty = \<lparr>tcgetattr = id, tcsetattr = (\<lambda>a. map_option (\<lambda>_. a))\<rparr>"

lemma sample_tty_ok: "tty_ok sample_tty"
  by (auto simp: tty_ok_def sample_tty_def option.map_comp comp_def)

definition cooked :: termios where
  "cooked = \<lparr>c_iflag = 0x500, c_oflag = 5, c_cflag = 0xBF, c_lflag = 0x8A3B, c_cc = [3, 28, 127]\<rparr>"

section \<open>The terminal loop\<close>

text \<open>What one iteration meets: the exit flag, what the guest does before the magic is read, a key
  if \<open>select\<close> and \<open>read\<close> give one, and what the guest does at each look of the ring accesses.\<close>

record uart_input =
  in_exit :: bool
  in_guest :: "queues \<Rightarrow> queues"
  in_key :: "u8 option"
  in_spin :: "(queues \<Rightarrow> queues) list"
  in_between :: "queues \<Rightarrow> queues"
  in_wait :: "(queues \<Rightarrow> queues) list"

record uart =
  u_q :: queues
  ctrl_a_pressed :: bool
  out :: "u8 list"

datatype uart_result =
    Running uart
  | Returned int uart
  | Spinning
  | Wild

definition EAGAIN :: int where "EAGAIN = 11"

definition CTRL_A :: u8 where "CTRL_A = 1"
definition KEY_x :: u8 where "KEY_x = 0x78"

text \<open>Whether the rings lie inside the 2 MiB window: offsets \<open>off\<close> to \<open>off + sizeof(queues)\<close>.\<close>

definition rings_mapped :: "nat \<Rightarrow> bool" where
  "rings_mapped off \<longleftrightarrow> off + csize queues_type \<le> unat TWO_MEG"

text \<open>The key branch: \<open>Inl\<close> a result that ends the call, \<open>Inr\<close> the state to go on with.\<close>

definition uart_key :: "nat \<Rightarrow> uart_input \<Rightarrow> uart \<Rightarrow> uart_result + uart" where
  "uart_key off i s =
     (case in_key i of
        None \<Rightarrow> Inr s
      | Some c \<Rightarrow>
          if ctrl_a_pressed s then
            (if c = KEY_x then Inl (Returned 0 s) else Inr (s\<lparr>ctrl_a_pressed := False\<rparr>))
          else if c = CTRL_A then Inr (s\<lparr>ctrl_a_pressed := True\<rparr>)
          else if \<not> rings_mapped off then Inl Wild
          else (case push_char (in_spin i) c (u_q s) of
                  None \<Rightarrow> Inl Spinning
                | Some q \<Rightarrow> Inr (s\<lparr>u_q := q\<rparr>)))"

definition uart_output :: "nat \<Rightarrow> uart_input \<Rightarrow> uart \<Rightarrow> uart_result + uart" where
  "uart_output off i s =
     (if \<not> rings_mapped off then Inl Wild
      else let q = in_between i (u_q s) in
        if can_pop q then
          (case pop_char (in_wait i) q of
             None \<Rightarrow> Inl Spinning
           | Some (c, q') \<Rightarrow> Inr (s\<lparr>u_q := q', out := out s @ [c]\<rparr>))
        else Inr (s\<lparr>u_q := q\<rparr>))"

fun uart_run :: "nat \<Rightarrow> uart_input list \<Rightarrow> uart \<Rightarrow> uart_result" where
  "uart_run off [] s = Running s"
| "uart_run off (i # is) s =
     (if in_exit i then Returned 0 s
      else let s1 = s\<lparr>u_q := in_guest i (u_q s)\<rparr> in
        if off + 8 > unat TWO_MEG then Wild
        else if magic (u_q s1) \<noteq> VIRTUAL_UART_MAGIC then Returned (- EAGAIN) s1
        else (case uart_key off i s1 of
                Inl r \<Rightarrow> r
              | Inr s2 \<Rightarrow>
                  (case uart_output off i s2 of
                     Inl r \<Rightarrow> r
                   | Inr s3 \<Rightarrow> uart_run off is s3)))"

text \<open>What the escape is meant to do: Ctrl-A starts it, \<open>x\<close> then quits, any other key ends it and
  is dropped; all other keys are for the guest.\<close>

fun escape :: "bool \<Rightarrow> u8 list \<Rightarrow> u8 list" where
  "escape a [] = []"
| "escape True (k # ks) = (if k = KEY_x then [] else escape False ks)"
| "escape False (k # ks) = (if k = CTRL_A then escape True ks else k # escape False ks)"

fun quits :: "bool \<Rightarrow> u8 list \<Rightarrow> bool" where
  "quits a [] = False"
| "quits True (k # ks) = (k = KEY_x \<or> quits False ks)"
| "quits False (k # ks) = quits (k = CTRL_A) ks"

text \<open>The structure as it lies in the window, and the whole of \<open>uart_loop\<close>: \<open>boot\<close> is what the
  guest does to the chip before its structures are read. The result is the return code, or
  \<open>None\<close> while the loop is still running after the given inputs.\<close>

definition queues_at :: "mem \<Rightarrow> nat \<Rightarrow> queues" where
  "queues_at m p =
     \<lparr>magic = val64 m p, tx_buf = peek m (p + 8) 4096, rx_buf = peek m (p + 0x1008) 4096,
      tx_head = val32 m (p + 0x2008), tx_tail = val32 m (p + 0x200C),
      rx_head = val32 m (p + 0x2010), rx_tail = val32 m (p + 0x2014)\<rparr>"

definition uart_loop ::
  "l2cpu_env \<Rightarrow> (nat \<Rightarrow> kmd_reply) \<Rightarrow> noc \<Rightarrow> (noc \<Rightarrow> noc) \<Rightarrow> 't tty_ops \<Rightarrow> tty_flags \<Rightarrow> termios \<Rightarrow> int \<Rightarrow> int
     \<Rightarrow> uart_input list \<Rightarrow> 't \<Rightarrow> kevent list \<times> int option res \<times> 't" where
  "uart_loop env k N boot T F garbage ttdevice l2cpu_idx is t =
     (case L2CPU_new env N l2cpu_idx ttdevice of
        (e0, Inl f) \<Rightarrow> (e0, Inl f, t)
      | (e0, Inr (c, N')) \<Rightarrow>
          (case find_uart c (k 0) (k 1) (boot N') of
             (e1, Inl f) \<Rightarrow> (e0 @ e1, Inl f, t)
           | (e1, Inr None) \<Rightarrow> (e0 @ e1 @ L2CPU_delete c, Inr (Some 1), t)
           | (e1, Inr (Some uart_base)) \<Rightarrow>
               (case get_persistent_2M_tlb_window c uart_base (k 2) of
                  (e2, Inl f) \<Rightarrow> (e0 @ e1 @ e2, Inl f, t)
                | (e2, Inr w) \<Rightarrow>
                    let off = unat (TlbWindow_get_window w);
                        q = queues_at (window_mem (boot N') (w_handle w)) off;
                        (raw_mode, t1) = TerminalRawMode_new T F garbage t
                    in (case uart_run off is \<lparr>u_q = q, ctrl_a_pressed = False, out = []\<rparr> of
                          Returned r s \<Rightarrow>
                            (e0 @ e1 @ e2 @ TlbHandle_delete (w_handle w) @ L2CPU_delete c, Inr (Some r),
                             TerminalRawMode_delete T raw_mode t1)
                        | Wild \<Rightarrow> (e0 @ e1 @ e2, Inl Wild_Access, t1)
                        | _ \<Rightarrow> (e0 @ e1 @ e2, Inr None, t1)))))"

lemma wf_queues_at [simp]: "wf_queues (queues_at m p)"
  by (simp add: wf_queues_def queues_at_def)

text \<open>\<open>flow q cs pr q'\<close>: from \<open>q\<close> to \<open>q'\<close> the host has delivered \<open>cs\<close> and received \<open>pr\<close>; all else is
  the guest taking from one ring and adding to the other.\<close>

definition flow :: "queues \<Rightarrow> u8 list \<Rightarrow> u8 list \<Rightarrow> queues \<Rightarrow> bool" where
  "flow q cs pr q' \<longleftrightarrow>
     wf_queues q' \<and> (\<exists>tk. rx_contents q @ cs = tk @ rx_contents q')
     \<and> (\<exists>mk. tx_contents q @ mk = pr @ tx_contents q')"

lemma flow_refl: "wf_queues q \<Longrightarrow> flow q [] [] q"
  by (simp add: flow_def)

lemma flow_trans:
  assumes "flow q cs pr q'" "flow q' cs' pr' q''"
  shows "flow q (cs @ cs') (pr @ pr') q''"
proof -
  obtain tk mk tk' mk' where
    "rx_contents q @ cs = tk @ rx_contents q'" "rx_contents q' @ cs' = tk' @ rx_contents q''"
    "tx_contents q @ mk = pr @ tx_contents q'" "tx_contents q' @ mk' = pr' @ tx_contents q''"
    using assms by (auto simp: flow_def)
  then have "rx_contents q @ (cs @ cs') = (tk @ tk') @ rx_contents q''"
    "tx_contents q @ (mk @ mk') = (pr @ pr') @ tx_contents q''"
    by (simp_all add: append_assoc [symmetric] del: append_assoc) simp_all
  then show ?thesis using assms(2) unfolding flow_def by blast
qed

lemma flow_guest: "guest_act g \<Longrightarrow> wf_queues q \<Longrightarrow> flow q [] [] (g q)"
proof -
  assume "guest_act g" "wf_queues q"
  then obtain k cs where "guest_step k cs q (g q)" by (auto simp: guest_act_def)
  then show ?thesis
    by (auto simp: flow_def guest_step_def intro: exI [of _ "take k (rx_contents q)"])
qed

lemma flow_push:
  assumes "push_char gs c q = Some q'" "\<forall>g \<in> set gs. guest_act g" "wf_queues q"
  shows "flow q [c] [] q'"
proof -
  obtain k cs where "rx_contents q' = drop k (rx_contents q) @ [c]"
    "tx_contents q' = tx_contents q @ cs" "wf_queues q'"
    using push_char_spec [OF assms] by blast
  then show ?thesis
    by (auto simp: flow_def intro: exI [of _ "take k (rx_contents q)"])
qed

lemma flow_pop:
  assumes "pop_char gs q = Some (c, q')" "\<forall>g \<in> set gs. guest_act g" "wf_queues q"
  shows "flow q [] [c] q'"
proof -
  obtain k cs where "rx_contents q' = drop k (rx_contents q)"
    "c # tx_contents q' = tx_contents q @ cs" "wf_queues q'"
    using pop_char_spec [OF assms] by blast
  then show ?thesis
    by (auto simp: flow_def intro: exI [of _ "take k (rx_contents q)"])
qed

definition input_ok :: "uart_input \<Rightarrow> bool" where
  "input_ok i \<longleftrightarrow> guest_act (in_guest i) \<and> guest_act (in_between i)
     \<and> (\<forall>g \<in> set (in_spin i). guest_act g) \<and> (\<forall>g \<in> set (in_wait i). guest_act g)"

definition key_of :: "uart_input \<Rightarrow> u8 list" where
  "key_of i = (case in_key i of None \<Rightarrow> [] | Some k \<Rightarrow> [k])"

definition typed_keys :: "uart_input list \<Rightarrow> u8 list" where
  "typed_keys is = concat (map key_of is)"

lemma typed_keys_simps [simp]: "typed_keys [] = []" "typed_keys (i # is) = key_of i @ typed_keys is"
  by (simp_all add: typed_keys_def)

lemma uart_key_Inr:
  assumes "uart_key off i s = Inr s'" "input_ok i" "wf_queues (u_q s)"
  obtains cs where "flow (u_q s) cs [] (u_q s')" "out s' = out s"
    "\<And>ks. escape (ctrl_a_pressed s) (key_of i @ ks) = cs @ escape (ctrl_a_pressed s') ks"
    "\<And>ks. quits (ctrl_a_pressed s) (key_of i @ ks) = quits (ctrl_a_pressed s') ks"
  using assms
proof (cases "in_key i")
  case None
  show ?thesis
    by (rule that [of "[]"]) (use assms None in \<open>simp_all add: uart_key_def key_of_def flow_refl\<close>)
next
  case (Some c)
  consider (esc) "ctrl_a_pressed s" | (ctrl) "\<not> ctrl_a_pressed s" "c = CTRL_A"
    | (char) "\<not> ctrl_a_pressed s" "c \<noteq> CTRL_A" by blast
  then show ?thesis
  proof cases
    case esc
    show ?thesis
      by (rule that [of "[]"])
        (use assms Some esc in \<open>auto simp: uart_key_def key_of_def flow_refl split: if_splits\<close>)
  next
    case ctrl
    show ?thesis
      by (rule that [of "[]"])
        (use assms Some ctrl in \<open>auto simp: uart_key_def key_of_def flow_refl split: if_splits\<close>)
  next
    case char
    then obtain q where q: "push_char (in_spin i) c (u_q s) = Some q" "s' = s\<lparr>u_q := q\<rparr>"
      using assms(1) Some by (auto simp: uart_key_def split: if_splits option.splits)
    have "flow (u_q s) [c] [] q"
      using flow_push [OF q(1)] assms(2,3) by (simp add: input_ok_def)
    then show ?thesis
      by (intro that [of "[c]"]) (use char Some q(2) in \<open>simp_all add: key_of_def\<close>)
  qed
qed

lemma uart_key_Inl:
  "uart_key off i s = Inl r \<Longrightarrow>
     r = Wild \<and> \<not> rings_mapped off \<or> r = Spinning \<or> r = Returned 0 s \<and> key_of i = [KEY_x] \<and> ctrl_a_pressed s"
  by (auto simp: uart_key_def key_of_def split: option.splits if_splits)

lemma uart_output_Inr:
  assumes "uart_output off i s = Inr s'" "input_ok i" "wf_queues (u_q s)"
  shows "\<exists>pr. flow (u_q s) [] pr (u_q s') \<and> out s' = out s @ pr
              \<and> ctrl_a_pressed s' = ctrl_a_pressed s"
proof -
  let ?q = "in_between i (u_q s)"
  have g: "flow (u_q s) [] [] ?q" using flow_guest assms by (simp add: input_ok_def)
  then have wf: "wf_queues ?q" by (simp add: flow_def)
  show ?thesis
  proof (cases "can_pop ?q")
    case True
    then obtain c q' where p: "pop_char (in_wait i) ?q = Some (c, q')"
      "s' = s\<lparr>u_q := q', out := out s @ [c]\<rparr>"
      using assms(1) by (auto simp: uart_output_def Let_def split: if_splits option.splits)
    have "flow ?q [] [c] q'" using flow_pop [OF p(1)] assms(2) wf by (simp add: input_ok_def)
    then show ?thesis using flow_trans [OF g] p(2) by fastforce
  next
    case False
    then show ?thesis
      using assms(1) g by (auto simp: uart_output_def Let_def split: if_splits)
  qed
qed

lemma uart_output_Inl: "uart_output off i s = Inl r \<Longrightarrow> r = Wild \<and> \<not> rings_mapped off \<or> r = Spinning"
  by (auto simp: uart_output_def Let_def split: option.splits if_splits)

text \<open>What a run of the loop has delivered when it stands at \<open>s'\<close> after the keys \<open>ks\<close>.\<close>

definition delivered :: "uart \<Rightarrow> u8 list \<Rightarrow> uart \<Rightarrow> bool" where
  "delivered s ks s' \<longleftrightarrow>
     (\<exists>pr. flow (u_q s) (escape (ctrl_a_pressed s) ks) pr (u_q s') \<and> out s' = out s @ pr)"

lemma delivered_refl: "wf_queues (u_q s) \<Longrightarrow> delivered s [] s"
  by (auto simp: delivered_def flow_refl intro: exI [of _ "[]"])

text \<open>The outcome a call may have, as a specification over the typed keys.\<close>

definition uart_outcome :: "nat \<Rightarrow> uart_input list \<Rightarrow> uart \<Rightarrow> uart_result \<Rightarrow> bool" where
  "uart_outcome off is s r \<longleftrightarrow>
     (case r of
        Running s' \<Rightarrow> delivered s (typed_keys is) s' \<and> \<not> quits (ctrl_a_pressed s) (typed_keys is)
      | Returned code s' \<Rightarrow>
          (\<exists>ks rest. typed_keys is = ks @ rest \<and> delivered s ks s'
             \<and> (code = 0 \<and> (quits (ctrl_a_pressed s) ks \<or> list_ex in_exit is)
                \<or> code = - EAGAIN \<and> magic (u_q s') \<noteq> VIRTUAL_UART_MAGIC))
      | Spinning \<Rightarrow> True
      | Wild \<Rightarrow> \<not> rings_mapped off)"

lemma uart_step:
  assumes "uart_key off i (s\<lparr>u_q := in_guest i (u_q s)\<rparr>) = Inr s2" "uart_output off i s2 = Inr s3"
    "input_ok i" "wf_queues (u_q s)"
  shows "wf_queues (u_q s3)"
    "delivered s3 ks s' \<Longrightarrow> delivered s (key_of i @ ks) s'"
    "quits (ctrl_a_pressed s) (key_of i @ ks) = quits (ctrl_a_pressed s3) ks"
proof -
  let ?s1 = "s\<lparr>u_q := in_guest i (u_q s)\<rparr>"
  have g: "flow (u_q s) [] [] (u_q ?s1)" using flow_guest assms by (simp add: input_ok_def)
  then have wf1: "wf_queues (u_q ?s1)" by (simp add: flow_def)
  obtain cs where cs: "flow (u_q ?s1) cs [] (u_q s2)" "out s2 = out s"
    "\<And>ks. escape (ctrl_a_pressed s) (key_of i @ ks) = cs @ escape (ctrl_a_pressed s2) ks"
    "\<And>ks. quits (ctrl_a_pressed s) (key_of i @ ks) = quits (ctrl_a_pressed s2) ks"
    using uart_key_Inr [OF assms(1,3) wf1] by auto
  then have wf2: "wf_queues (u_q s2)" by (simp add: flow_def)
  obtain pr where pr: "flow (u_q s2) [] pr (u_q s3)" "out s3 = out s2 @ pr"
    "ctrl_a_pressed s3 = ctrl_a_pressed s2"
    using uart_output_Inr [OF assms(2,3) wf2] by blast
  have step: "flow (u_q s) cs pr (u_q s3)"
    using flow_trans [OF flow_trans [OF g cs(1)] pr(1)] by simp
  then show "wf_queues (u_q s3)" by (simp add: flow_def)
  show "quits (ctrl_a_pressed s) (key_of i @ ks) = quits (ctrl_a_pressed s3) ks"
    using cs(4) pr(3) by simp
  assume "delivered s3 ks s'"
  then show "delivered s (key_of i @ ks) s'"
    using flow_trans [OF step] cs(2,3) pr(2,3) by (auto simp: delivered_def)
qed

lemma uart_outcome_step:
  assumes "uart_outcome off is s3 r"
    and d: "\<And>ks s'. delivered s3 ks s' \<Longrightarrow> delivered s (key_of i @ ks) s'"
    and q: "\<And>ks. quits (ctrl_a_pressed s) (key_of i @ ks) = quits (ctrl_a_pressed s3) ks"
  shows "uart_outcome off (i # is) s r"
proof (cases r)
  case (Running s')
  then show ?thesis using assms(1) d q by (simp add: uart_outcome_def)
next
  case (Returned code s')
  then obtain ks rest where k: "typed_keys is = ks @ rest" "delivered s3 ks s'"
    "code = 0 \<and> (quits (ctrl_a_pressed s3) ks \<or> list_ex in_exit is)
       \<or> code = - EAGAIN \<and> magic (u_q s') \<noteq> VIRTUAL_UART_MAGIC"
    using assms(1) by (auto simp: uart_outcome_def)
  then have "typed_keys (i # is) = (key_of i @ ks) @ rest" "delivered s (key_of i @ ks) s'"
    "code = 0 \<and> (quits (ctrl_a_pressed s) (key_of i @ ks) \<or> list_ex in_exit (i # is))
       \<or> code = - EAGAIN \<and> magic (u_q s') \<noteq> VIRTUAL_UART_MAGIC"
    using d q by auto
  then show ?thesis unfolding Returned uart_outcome_def uart_result.case by blast
qed (use assms(1) in \<open>simp_all add: uart_outcome_def\<close>)

lemma uart_run_outcome:
  "\<forall>i \<in> set is. input_ok i \<Longrightarrow> wf_queues (u_q s) \<Longrightarrow> uart_outcome off is s (uart_run off is s)"
proof (induction off "is" s rule: uart_run.induct)
  case (1 off s)
  then show ?case by (simp add: uart_outcome_def delivered_refl)
next
  case (2 off i "is" s)
  let ?s1 = "s\<lparr>u_q := in_guest i (u_q s)\<rparr>"
  have ok: "input_ok i" "\<forall>i \<in> set is. input_ok i" and wf: "wf_queues (u_q s)" using 2(2,3) by auto
  have g: "flow (u_q s) [] [] (u_q ?s1)" using flow_guest ok wf by (simp add: input_ok_def)
  then have d1: "delivered s [] ?s1" by (auto simp: delivered_def intro: exI [of _ "[]"])
  consider (exit) "in_exit i" | (wild) "\<not> in_exit i" "off + 8 > unat TWO_MEG"
    | (gone) "\<not> in_exit i" "\<not> off + 8 > unat TWO_MEG" "magic (u_q ?s1) \<noteq> VIRTUAL_UART_MAGIC"
    | (go) "\<not> in_exit i" "\<not> off + 8 > unat TWO_MEG" "\<not> magic (u_q ?s1) \<noteq> VIRTUAL_UART_MAGIC"
    by blast
  then show ?case
  proof cases
    case exit
    then show ?thesis using delivered_refl [OF wf] by (auto simp: uart_outcome_def)
  next
    case wild
    then show ?thesis by (simp add: uart_outcome_def rings_mapped_def queues_offsets)
  next
    case gone
    then show ?thesis using d1 by (auto simp: uart_outcome_def)
  next
    case go
    show ?thesis
    proof (cases "uart_key off i ?s1")
      case (Inl r)
      then have run: "uart_run off (i # is) s = r" using go by simp
      show ?thesis
      proof (cases "r = Returned 0 ?s1")
        case True
        then have k: "key_of i = [KEY_x]" "ctrl_a_pressed s" using uart_key_Inl [OF Inl] by auto
        then have "typed_keys (i # is) = [KEY_x] @ typed_keys is" "delivered s [KEY_x] ?s1"
          "quits (ctrl_a_pressed s) [KEY_x]"
          using d1 by (simp_all add: delivered_def)
        then show ?thesis unfolding run True uart_outcome_def uart_result.case by blast
      next
        case False
        then show ?thesis
          unfolding run using uart_key_Inl [OF Inl] by (auto simp: uart_outcome_def)
      qed
    next
      case s2: (Inr s2)
      show ?thesis
      proof (cases "uart_output off i s2")
        case (Inl r)
        then have "uart_run off (i # is) s = r" using go s2 by simp
        then show ?thesis using uart_output_Inl [OF Inl] by (auto simp: uart_outcome_def)
      next
        case s3: (Inr s3)
        then have run: "uart_run off (i # is) s = uart_run off is s3" using go s2 by simp
        note st = uart_step [OF s2 s3 ok(1) wf]
        have "uart_outcome off is s3 (uart_run off is s3)"
          by (rule 2(1) [OF go(1) refl go(2,3) s2 s3 ok(2) st(1)])
        then show ?thesis unfolding run by (rule uart_outcome_step) (erule st(2), rule st(3))
      qed
    qed
  qed
qed

text \<open>C13: the terminal loop does what its keys say. While it runs, the guest has been given exactly
  the typed keys with the escape sequences taken out, in order, and the terminal has shown what
  the guest sent, in order; a call returns 0 only after Ctrl-A x or when the tool shuts down,
  returns \<open>-EAGAIN\<close> only when the magic of the ring structure is gone, and keeps running only if
  Ctrl-A x was not typed. Memory outside the window is touched only when the rings do not lie
  inside it.\<close>

theorem uart_run_correct:
  assumes "\<forall>i \<in> set is. input_ok i" and "wf_queues (u_q s)"
  shows "uart_outcome off is s (uart_run off is s)"
  using assms by (rule uart_run_outcome)

definition sample_input :: "u8 \<Rightarrow> uart_input" where
  "sample_input k = \<lparr>in_exit = False, in_guest = id, in_key = Some k, in_spin = [id], in_between = id,
                     in_wait = [id]\<rparr>"

theorem uart_run_correct_witness:
  "uart_outcome 0 (map sample_input [104, 1, 0x78]) \<lparr>u_q = sample_queues, ctrl_a_pressed = False, out = []\<rparr>
     (uart_run 0 (map sample_input [104, 1, 0x78])
        \<lparr>u_q = sample_queues, ctrl_a_pressed = False, out = []\<rparr>)"
  by (rule uart_run_correct)
    (simp_all add: input_ok_def sample_input_def guest_act_id sample_queues)

section \<open>The whole call\<close>

lemma read32_on_descriptor:
  "L2CPU_read32 c k N a = (es, Inr v) \<Longrightarrow> list_all (on_descriptor (l2_fd c)) es"
  by (auto simp: L2CPU_read32_def get_persistent_2M_tlb_window_def dest: TlbWindow_on_descriptor
      split: prod.splits sum.splits)

lemma find_uart_on_descriptor:
  "find_uart c k1 k2 M = (es, Inr r) \<Longrightarrow> list_all (on_descriptor (l2_fd c)) es"
  by (auto simp: find_uart_def get_persistent_2M_tlb_window_def dest: TlbWindow_on_descriptor read32_on_descriptor
      split: prod.splits sum.splits)

text \<open>C23: a call of \<open>uart_loop\<close> that returns 0, 1 or \<open>-EAGAIN\<close>, and it returns nothing else, has on
  every path released each window it made through the descriptor it was made with, while that was
  open, but for the two windows of the 8 GiB view: counting the releases in time only, exactly these
  two are still held. They are asked for once each, in the destructor, after it has closed the
  descriptor, and no other release of the call comes late.\<close>

theorem uart_loop_returns_tlbs:
  assumes "uart_loop env k N boot T F garbage ttdevice idx is t = (evs, Inr (Some code), t')"
    and "\<forall>i \<in> set is. input_ok i"
  shows "code \<in> {0, 1, - EAGAIN}
     \<and> (\<exists>e c N'. L2CPU_new env N idx ttdevice = (e, Inr (c, N'))
          \<and> late_frees {} evs = [(l2_fd c, tlb_id (w_handle (l2_second c))), (l2_fd c, tlb_id (w_handle (l2_first c)))]
          \<and> (\<forall>x. tlbs_held {} evs x = int (count_list (late_frees {} evs) x)))"
proof -
  obtain e0 c N' where new: "L2CPU_new env N idx ttdevice = (e0, Inr (c, N'))"
    using assms(1) by (auto simp: uart_loop_def split: prod.splits sum.splits)
  obtain e1 r where find: "find_uart c (k 0) (k 1) (boot N') = (e1, Inr r)"
    using assms(1) new by (auto simp: uart_loop_def split: prod.splits sum.splits)
  note on1 = find_uart_on_descriptor [OF find]
  have b: "balance (e0 @ e1 @ L2CPU_delete c) (Res_Tlb f i) = 0" for f i
    using find_uart_balance [OF new find]
    by (simp add: L2CPU_new_tlbs [OF new] L2CPU_delete_tlbs)
  have "code \<in> {0, 1, - EAGAIN} \<and> (\<exists>es. evs = e0 @ es @ L2CPU_delete c \<and> list_all (on_descriptor (l2_fd c)) es)
      \<and> (\<forall>f i. balance evs (Res_Tlb f i) = 0)"
  proof (cases r)
    case None
    then have "evs = e0 @ e1 @ L2CPU_delete c" "code = 1"
      using assms(1) new find by (simp_all add: uart_loop_def)
    then show ?thesis using b on1 by blast
  next
    case (Some base)
    then obtain e2 w where w: "get_persistent_2M_tlb_window c base (k 2) = (e2, Inr w)"
      using assms(1) new find by (auto simp: uart_loop_def split: prod.splits sum.splits)
    define s0 off where "s0 = \<lparr>u_q = queues_at (window_mem (boot N') (w_handle w)) (unat (TlbWindow_get_window w)),
        ctrl_a_pressed = False, out = []\<rparr>" and "off = unat (TlbWindow_get_window w)"
    have outcome: "uart_outcome off is s0 (uart_run off is s0)"
      using assms(2) by (intro uart_run_outcome) (simp_all add: s0_def)
    obtain s' where ret: "uart_run off is s0 = Returned code s'"
      and evs: "evs = e0 @ e1 @ e2 @ TlbHandle_delete (w_handle w) @ L2CPU_delete c"
      using assms(1) new find Some w
      by (auto simp: uart_loop_def s0_def off_def Let_def split: uart_result.splits prod.splits)
    have "balance e2 res = holds_only (w_handle w) res" for res
      using TlbWindow_new_balance w by (simp add: get_persistent_2M_tlb_window_def)
    then have "balance evs (Res_Tlb f i) = balance (e0 @ e1 @ L2CPU_delete c) (Res_Tlb f i)" for f i
      by (simp add: evs TlbHandle_delete_balance)
    then have "\<forall>f i. balance evs (Res_Tlb f i) = 0" using b by presburger
    moreover have "code \<in> {0, 1, - EAGAIN}" using outcome unfolding ret by (auto simp: uart_outcome_def)
    moreover have "list_all (on_descriptor (l2_fd c)) (e1 @ e2 @ TlbHandle_delete (w_handle w))"
      using on1 TlbWindow_on_descriptor w by (simp add: get_persistent_2M_tlb_window_def)
    moreover have "evs = e0 @ (e1 @ e2 @ TlbHandle_delete (w_handle w)) @ L2CPU_delete c" by (simp add: evs)
    ultimately show ?thesis by blast
  qed
  then show ?thesis
    using L2CPU_life_late [OF new, of _ "{}"] by (auto simp: new view_tlbs_def tlbs_held_late)
qed

theorem uart_loop_returns_tlbs_witness:
  "\<exists>evs. uart_loop sample_env (\<lambda>_. sample_reply) (\<lambda>_ _ _. 0) (\<lambda>_ _ _ _. 0) sample_tty
          linux_tty_flags cooked 0 3 [] (Some cooked) = (evs, Inr (Some 1), Some cooked)
     \<and> length (late_frees {} evs) = 2"
proof -
  obtain e0 c N' where new: "L2CPU_new sample_env (\<lambda>_ _ _. 0) 3 0 = (e0, Inr (c, N'))"
    using sample_l2cpu by blast
  have start: "starting_address c = 0x4000b0000000"
    using new by (rule L2CPU_new_Inr) (simp add: tables_at)
  have z: "val32 (\<lambda>_. 0) p = 0" "peek (\<lambda>_. 0) p 8 \<noteq> EYE_CATCHER" for p
    by (simp_all add: val32_def peek_def upt_rec EYE_CATCHER_def)
  obtain e1 r where find: "find_uart c sample_reply sample_reply (\<lambda>_ _ _. 0) = (e1, Inr r)"
    using find_uart_runs [OF new, of sample_reply "\<lambda>_ _ _. 0"]
    by (auto simp: start z sample_reply_def)
  have "r = None" using find_uart_spec [OF new find] by (simp add: z Let_def)
  then have run: "uart_loop sample_env (\<lambda>_. sample_reply) (\<lambda>_ _ _. 0) (\<lambda>_ _ _ _. 0) sample_tty linux_tty_flags cooked 0 3 [] (Some cooked)
      = (e0 @ e1 @ L2CPU_delete c, Inr (Some 1), Some cooked)"
    using new find by (simp add: uart_loop_def)
  then show ?thesis using uart_loop_returns_tlbs [OF run] by auto
qed

text \<open>C30: the terminal is the user's again after every return of \<open>uart_loop\<close>, exactly as it was found,
  whichever way the loop ends and also when standard input is no terminal; while the loop runs it is
  in raw mode, so that keys reach the loop one by one, unechoed and uninterpreted; and a failure
  before the loop leaves it alone. Only an access outside the window, which ends the process, can
  leave it raw.\<close>

theorem uart_loop_restores_terminal:
  assumes "tty_ok T" and "uart_loop env k N boot T F garbage ttdevice idx is t = (evs, r, t')"
  shows "case r of
           Inr (Some code) \<Rightarrow> t' = t
         | Inr None \<Rightarrow>
             (case tcgetattr T t of
                None \<Rightarrow> t' = t
              | Some a \<Rightarrow> tcgetattr T t' = Some (make_raw F a)
                  \<and> c_lflag (make_raw F a) AND (ECHO F OR ICANON F OR ISIG F OR IEXTEN F) = 0)
         | Inl f \<Rightarrow> f \<noteq> Wild_Access \<longrightarrow> t' = t"
proof -
  obtain raw t1 where raw: "TerminalRawMode_new T F garbage t = (raw, t1)" by fastforce
  have restored: "TerminalRawMode_delete T raw t1 = t" by (rule raw_mode_restored [OF assms(1) raw])
  have "r \<in> Inr ` range Some \<and> t' = t \<or> r = Inr None \<and> t' = t1 \<or> (\<exists>f. r = Inl f \<and> (f = Wild_Access \<or> t' = t))"
    using assms(2)
    by (auto simp: uart_loop_def raw restored Let_def split: prod.splits sum.splits option.splits uart_result.splits)
  then consider (ret) code where "r = Inr (Some code)" "t' = t" | (run) "r = Inr None" "t' = t1"
    | (fail) f where "r = Inl f" "f = Wild_Access \<or> t' = t" by blast
  then show ?thesis
  proof cases
    case run
    then show ?thesis
      using raw_mode_settings [OF assms(1) raw] raw_mode_no_terminal [OF assms(1) raw] make_raw_bits(1)
      by (auto split: option.splits)
  qed auto
qed

theorem uart_loop_restores_terminal_witness:
  "\<exists>evs r. uart_loop sample_env (\<lambda>_. sample_reply) (\<lambda>_ _ _. 0) (\<lambda>_. sample_chip) sample_tty linux_tty_flags cooked
       0 3 [] (Some cooked) = (evs, Inr None, Some r)
     \<and> c_lflag r AND (ECHO linux_tty_flags OR ICANON linux_tty_flags OR ISIG linux_tty_flags OR IEXTEN linux_tty_flags) = 0"
proof -
  obtain e0 c N' where new: "L2CPU_new sample_env (\<lambda>_ _ _. 0) 3 0 = (e0, Inr (c, N'))"
    using sample_l2cpu by blast
  obtain e1 where find: "find_uart c sample_reply sample_reply sample_chip = (e1, Inr (Some 0x4000b0100000))"
    using sample_uart [OF new] by blast
  obtain e2 w where w: "get_persistent_2M_tlb_window c 0x4000b0100000 sample_reply = (e2, Inr w)"
    using sample_window_new [of sample_reply] by (fastforce simp: get_persistent_2M_tlb_window_def sample_reply_def)
  obtain evs t' where run: "uart_loop sample_env (\<lambda>_. sample_reply) (\<lambda>_ _ _. 0) (\<lambda>_. sample_chip) sample_tty
      linux_tty_flags cooked 0 3 [] (Some cooked) = (evs, Inr None, t')"
    using new find w by (cases "TerminalRawMode_new sample_tty linux_tty_flags cooked (Some cooked)")
      (auto simp: uart_loop_def Let_def)
  from uart_loop_restores_terminal [OF sample_tty_ok run] run show ?thesis
    by (auto simp: sample_tty_def)
qed

end
