(* ===== verification/Host_Tool.thy ===== *)
theory Host_Tool
  imports Uart Device_Thread
begin

text \<open>
  The tool itself (\<^verbatim>\<open>console/tt-bh-linux.cpp\<close>): its options, the threads it starts and the retry
  loops they run, and the agreement between where it puts its devices and where \<^verbatim>\<open>boot.py\<close> tells
  Linux they are. \<open>getopt_long\<close> is libc's: the model starts from the options it delivers.
\<close>

section \<open>Options\<close>

text \<open>\<open>std::stoi\<close>: leading white space, a sign, decimal digits; what follows is ignored. It throws when
  there is no digit and when the value does not fit an \<open>int\<close>.\<close>

definition is_space :: "char \<Rightarrow> bool" where
  "is_space c \<longleftrightarrow> (of_char c :: nat) = 32 \<or> 9 \<le> (of_char c :: nat) \<and> (of_char c :: nat) \<le> 13"

definition is_digit :: "char \<Rightarrow> bool" where
  "is_digit c \<longleftrightarrow> 48 \<le> (of_char c :: nat) \<and> (of_char c :: nat) \<le> 57"

definition digits_value :: "string \<Rightarrow> int" where
  "digits_value ds = foldl (\<lambda>v c. 10 * v + (of_char c - 48)) 0 ds"

definition stoi :: "string \<Rightarrow> int res" where
  "stoi str =
     (let s = dropWhile is_space str;
          neg = (s \<noteq> [] \<and> hd s = CHR ''-'');
          rest = (if s \<noteq> [] \<and> (hd s = CHR ''-'' \<or> hd s = CHR ''+'') then tl s else s);
          ds = takeWhile is_digit rest;
          v = (if neg then - digits_value ds else digits_value ds)
      in if ds = [] \<or> v < - (2 ^ 31) \<or> 2 ^ 31 \<le> v then Inl Std_Exception else Inr v)"

datatype opt = Opt_t string | Opt_l string | Opt_d string | Opt_c string | Opt_h | Opt_other

record options =
  ttdevice :: int
  l2cpu :: int
  disk_image_path :: string
  cloud_init_path :: string

definition default_options :: options where
  "default_options =
     \<lparr>ttdevice = 0, l2cpu = 0, disk_image_path = ''rootfs.ext4'', cloud_init_path = ''''\<rparr>"

fun parse_options :: "opt list \<Rightarrow> options \<Rightarrow> options res" where
  "parse_options [] o' = Inr o'"
| "parse_options (Opt_t a # os) o' = bindR (stoi a) (\<lambda>v. parse_options os (o'\<lparr>ttdevice := v\<rparr>))"
| "parse_options (Opt_l a # os) o' = bindR (stoi a) (\<lambda>v. parse_options os (o'\<lparr>l2cpu := v\<rparr>))"
| "parse_options (Opt_d a # os) o' = parse_options os (o'\<lparr>disk_image_path := a\<rparr>)"
| "parse_options (Opt_c a # os) o' = parse_options os (o'\<lparr>cloud_init_path := a\<rparr>)"
| "parse_options (Opt_h # os) o' = Inl Exit_Failure"
| "parse_options (Opt_other # os) o' = Inl Exit_Failure"

section \<open>Threads\<close>

text \<open>The threads with their arguments: card, tile, interrupt number, offset of the registers from
  the end of the tile's memory, image.\<close>

datatype thread =
    Console_Main int int
  | Disk_Main int int nat u64 string
  | Network_Main int int nat u64

definition main_threads :: "options \<Rightarrow> thread list" where
  "main_threads o' =
     [Console_Main (ttdevice o') (l2cpu o'),
      Disk_Main (ttdevice o') (l2cpu o') 33 (2 * 1024 * 1024) (disk_image_path o'),
      Network_Main (ttdevice o') (l2cpu o') 32 (4 * 1024 * 1024)]
     @ (if cloud_init_path o' \<noteq> ''''
        then [Disk_Main (ttdevice o') (l2cpu o') 31 (6 * 1024 * 1024) (cloud_init_path o')] else [])"

definition tool_main :: "opt list \<Rightarrow> thread list res" where
  "tool_main os =
     bindR (parse_options os default_options) (\<lambda>o'.
       if l2cpu o' < 0 \<or> 3 < l2cpu o' then Inl Exit_Failure else Inr (main_threads o'))"

text \<open>The retry loop of the console thread, over its attempts: the exit flag before each and the
  result of \<open>uart_loop\<close>. An exception of the standard library is caught; other faults end the
  process. The result says whether the loop has returned and whether it set the exit flag.\<close>

fun console_main :: "(bool \<times> int res) list \<Rightarrow> thread_end res" where
  "console_main [] = Inr Retrying"
| "console_main ((exit_thread_flag, r) # rs) =
     (if exit_thread_flag then Inr Stopped
      else case r of
             Inr code \<Rightarrow> if code = - EAGAIN then console_main rs else Inr Stopped_And_Set_Flag
           | Inl e \<Rightarrow> if e = Std_Exception then console_main rs else Inl e)"

section \<open>What boot.py puts into the device tree\<close>

text \<open>The nodes of the loop \<open>for i in range(3, -1, -1)\<close>: address and interrupt; and the reserved
  range.\<close>

definition boot_nodes :: "nat \<Rightarrow> (nat \<times> nat) list" where
  "boot_nodes mem_end = map (\<lambda>i. (mem_end - 0x200000 * (i + 1), 33 - i)) [3, 2, 1, 0]"

definition boot_reserved :: "nat \<Rightarrow> nat set" where
  "boot_reserved mem_end = span (mem_end - 0x600000) 0x600000"

section \<open>Properties of the options\<close>

fun thread_tile :: "thread \<Rightarrow> int" where
  "thread_tile (Console_Main t l) = l"
| "thread_tile (Disk_Main t l i off p) = l"
| "thread_tile (Network_Main t l i off) = l"

fun thread_device :: "thread \<Rightarrow> (nat \<times> u64) list" where
  "thread_device (Console_Main t l) = []"
| "thread_device (Disk_Main t l i off p) = [(i, off)]"
| "thread_device (Network_Main t l i off) = [(i, off)]"

definition devices :: "thread list \<Rightarrow> (nat \<times> u64) list" where
  "devices ts = concat (map thread_device ts)"

text \<open>What a command line asks for, option by option: the last argument given for each, or the default.\<close>

definition t_args :: "opt list \<Rightarrow> string list" where "t_args os = [a. Opt_t a \<leftarrow> os]"
definition l_args :: "opt list \<Rightarrow> string list" where "l_args os = [a. Opt_l a \<leftarrow> os]"
definition d_args :: "opt list \<Rightarrow> string list" where "d_args os = [a. Opt_d a \<leftarrow> os]"
definition c_args :: "opt list \<Rightarrow> string list" where "c_args os = [a. Opt_c a \<leftarrow> os]"

lemmas args_defs = t_args_def l_args_def d_args_def c_args_def

definition well_formed :: "opt list \<Rightarrow> bool" where
  "well_formed os \<longleftrightarrow>
     Opt_h \<notin> set os \<and> Opt_other \<notin> set os \<and> (\<forall>a \<in> set (t_args os @ l_args os). stoi a \<in> range Inr)"

definition asked :: "opt list \<Rightarrow> thread list \<Rightarrow> bool" where
  "asked os ts \<longleftrightarrow>
     well_formed os \<and>
     (\<exists>t l. last (Inr 0 # map stoi (t_args os)) = Inr t \<and> last (Inr 0 # map stoi (l_args os)) = Inr l
        \<and> 0 \<le> l \<and> l < 4
        \<and> ts = [Console_Main t l,
                Disk_Main t l 33 0x200000 (last (''rootfs.ext4'' # d_args os)),
                Network_Main t l 32 0x400000]
              @ (if c_args os = [] \<or> last (c_args os) = [] then []
                 else [Disk_Main t l 31 0x600000 (last (c_args os))]))"

lemma parse_options_spec:
  "parse_options os o' = Inr r \<longleftrightarrow>
     well_formed os
     \<and> last (Inr (ttdevice o') # map stoi (t_args os)) = Inr (ttdevice r)
     \<and> last (Inr (l2cpu o') # map stoi (l_args os)) = Inr (l2cpu r)
     \<and> last (disk_image_path o' # d_args os) = disk_image_path r
     \<and> last (cloud_init_path o' # c_args os) = cloud_init_path r"
  by (induction os o' rule: parse_options.induct)
    (auto simp: args_defs well_formed_def bindR_Inr_iff simp del: last.simps
      simp add: last_ConsR last_ConsL intro: options.equality split: sum.splits)

lemma parse_options_faults: "parse_options os o' = Inl e \<Longrightarrow> e \<in> {Exit_Failure, Std_Exception}"
  by (induction os o' rule: parse_options.induct)
    (auto simp: bindR_def stoi_def Let_def split: sum.splits if_splits)

text \<open>C28: the tool starts exactly what its command line asks for. It starts threads if and only if the
  options are well formed and the tile is one of the four, and then they are the console, the root
  disk and the network device, and a third device, the cloud-init disk, exactly when the last
  cloud-init argument is not empty: each with the card, the tile and the image of the last such
  option, or its default, at its own interrupt and register offset. Otherwise it ends by \<open>exit\<close> or
  by the exception of a malformed number before it starts any thread. So the assertion on the tile
  in the constructor of \<open>L2CPU\<close> cannot fail in any of them.\<close>

theorem tool_main_starts_asked:
  "(\<forall>ts. tool_main os = Inr ts \<longleftrightarrow> asked os ts)
   \<and> (\<forall>e. tool_main os = Inl e \<longrightarrow> e \<in> {Exit_Failure, Std_Exception})
   \<and> (\<forall>ts t. tool_main os = Inr ts \<and> t \<in> set ts \<longrightarrow>
        0 \<le> thread_tile t \<and> thread_tile t < 4 \<and> L2CPU_new env N (thread_tile t) cardno \<noteq> ([], Inl Assert_Failed))"
proof (intro conjI allI impI)
  fix ts
  have "tool_main os = Inr ts \<longleftrightarrow>
      (\<exists>r. parse_options os default_options = Inr r \<and> 0 \<le> l2cpu r \<and> l2cpu r < 4 \<and> ts = main_threads r)"
    by (cases "parse_options os default_options") (auto simp: tool_main_def)
  also have "\<dots> \<longleftrightarrow> asked os ts" (is "?l \<longleftrightarrow> ?r")
  proof
    assume ?l
    then show ?r
      unfolding parse_options_spec asked_def
      by (auto simp: default_options_def main_threads_def split: if_splits)
  next
    assume ?r
    then obtain t l where tl: "well_formed os" "last (Inr 0 # map stoi (t_args os)) = Inr t"
      "last (Inr 0 # map stoi (l_args os)) = Inr l" "0 \<le> l" "l < 4"
      and ts: "ts = [Console_Main t l, Disk_Main t l 33 0x200000 (last (''rootfs.ext4'' # d_args os)),
                Network_Main t l 32 0x400000]
              @ (if c_args os = [] \<or> last (c_args os) = [] then [] else [Disk_Main t l 31 0x600000 (last (c_args os))])"
      unfolding asked_def by blast
    let ?o = "\<lparr>ttdevice = t, l2cpu = l, disk_image_path = last (''rootfs.ext4'' # d_args os),
        cloud_init_path = last ('''' # c_args os)\<rparr>"
    have "parse_options os default_options = Inr ?o" using tl by (simp add: parse_options_spec default_options_def)
    moreover have "ts = main_threads ?o" by (simp add: ts main_threads_def)
    ultimately show ?l using tl by (intro exI [of _ ?o]) simp
  qed
  finally show "tool_main os = Inr ts \<longleftrightarrow> asked os ts" .
next
  fix e
  assume "tool_main os = Inl e"
  then show "e \<in> {Exit_Failure, Std_Exception}"
    using parse_options_faults [of os default_options] by (auto simp: tool_main_def bindR_def split: sum.splits if_splits)
next
  fix ts t
  assume a: "tool_main os = Inr ts \<and> t \<in> set ts"
  then obtain o' where o': "ts = main_threads o'" "0 \<le> l2cpu o'" "l2cpu o' < 4"
    by (auto simp: tool_main_def bindR_Inr_iff split: if_splits)
  have tile: "thread_tile t = l2cpu o'"
    using a unfolding o'(1) by (auto simp: main_threads_def split: if_splits)
  have "fst (L2CPU_new env N (l2cpu o') cardno) \<noteq> []"
    using o'(2,3) by (auto simp: L2CPU_new_def Let_def split: prod.splits sum.splits)
  then show "0 \<le> thread_tile t" "thread_tile t < 4" "L2CPU_new env N (thread_tile t) cardno \<noteq> ([], Inl Assert_Failed)"
    using tile o'(2,3) by auto
qed

theorem tool_main_starts_asked_witness:
  "\<exists>ts. tool_main [Opt_l ''3'', Opt_c ''ci.img'', Opt_l ''2''] = Inr ts \<and> length ts = 4 \<and> thread_tile (ts ! 3) = 2
     \<and> L2CPU_new sample_env (\<lambda>_ _ _. 0) (thread_tile (ts ! 3)) 0 \<noteq> ([], Inl Assert_Failed)"
proof -
  let ?os = "[Opt_l ''3'', Opt_c ''ci.img'', Opt_l ''2'']"
  let ?ts = "[Console_Main 0 2, Disk_Main 0 2 33 0x200000 ''rootfs.ext4'', Network_Main 0 2 32 0x400000,
      Disk_Main 0 2 31 0x600000 ''ci.img'']"
  have n: "stoi ''3'' = Inr 3" "stoi ''2'' = Inr 2"
    by (simp_all add: stoi_def is_space_def is_digit_def digits_value_def)
  have "asked ?os ?ts" by (simp add: asked_def well_formed_def args_defs n)
  then have run: "tool_main ?os = Inr ?ts" using tool_main_starts_asked by blast
  have "?ts ! 3 \<in> set ?ts" by simp
  then have "L2CPU_new sample_env (\<lambda>_ _ _. 0) (thread_tile (?ts ! 3)) 0 \<noteq> ([], Inl Assert_Failed)"
    using tool_main_starts_asked [of ?os sample_env "\<lambda>_ _ _. 0" 0] run by blast
  then show ?thesis using run by (intro exI [of _ ?ts]) simp
qed

section \<open>Where the devices are\<close>

text \<open>The register window of a device, as guest physical addresses.\<close>

definition device_window :: "L2CPU \<Rightarrow> u64 \<Rightarrow> nat set" where
  "device_window c off = span (unat (mmio_address c off)) 0x200000"

lemma tile_memory:
  assumes "L2CPU_new env N idx cardno = (evs, Inr (c, N'))"
  shows "(starting_address c, memory_size c) \<in>
    {(0x400030000000, 0x100000000), (0x400030000000, 0x80000000), (0x4000b0000000, 0x80000000)}"
proof -
  have "l2cpu_starting_address_mapping idx = Some (starting_address c)
      \<and> l2cpu_memory_size_mapping idx = Some (memory_size c)"
    using assms by (rule L2CPU_new_Inr) auto
  then show ?thesis using tables_range(3) by blast
qed

lemma mmio_address_value:
  assumes "L2CPU_new env N idx cardno = (evs, Inr (c, N'))" and "off \<in> {0x200000, 0x400000, 0x600000}"
  shows "unat (mmio_address c off) = unat (starting_address c) + unat (memory_size c) - unat off"
    "2 ^ 21 dvd unat (mmio_address c off)"
    "unat off \<le> unat (memory_size c)"
  using tile_memory [OF assms(1)] assms(2)
  by (auto simp: mmio_address_def get_starting_address_def get_memory_size_def)

text \<open>C25: the register windows of the devices the tool starts lie in the last 6 MiB of the tile's own
  memory, are aligned to the 2 MiB NOC window, so the 512 bytes the constructor clears are inside
  it, and do not overlap; their interrupt lines are distinct bits of the 32-bit interrupt register,
  and no two devices share one.\<close>

theorem device_windows_disjoint:
  assumes new: "L2CPU_new env N idx cardno = (evs, Inr (c, N'))" and run: "tool_main os = Inr ts"
    and d: "(i, off) \<in> set (devices ts)" "(j, off') \<in> set (devices ts)"
  shows "device_window c off \<subseteq> span (unat (starting_address c) + unat (memory_size c) - 0x600000) 0x600000
     \<and> 2 ^ 21 dvd unat (mmio_address c off)
     \<and> 5 \<le> i \<and> i - 5 < 32
     \<and> ((i, off) \<noteq> (j, off') \<longrightarrow>
          device_window c off \<inter> device_window c off' = {} \<and> push_bit (i - 5) (1 :: u32) AND push_bit (j - 5) 1 = 0)"
proof -
  have "set (devices ts) \<subseteq> {(33, 0x200000), (32, 0x400000), (31, 0x600000)}"
    using run by (auto simp: tool_main_def bindR_Inr_iff main_threads_def devices_def split: if_splits)
  then have cs: "(i, off) \<in> {(33, 0x200000), (32, 0x400000), (31, 0x600000)}"
    "(j, off') \<in> {(33, 0x200000), (32, 0x400000), (31, 0x600000)}"
    using d by blast+
  then have offs: "off \<in> {0x200000, 0x400000, 0x600000}" "off' \<in> {0x200000, 0x400000, 0x600000}"
    by auto
  note a = mmio_address_value [OF new offs(1)] and a' = mmio_address_value [OF new offs(2)]
  define e where "e = unat (starting_address c) + unat (memory_size c)"
  have e: "0x600000 \<le> e" using tile_memory [OF new] by (auto simp: e_def)
  have w: "device_window c off = span (e - unat off) 0x200000"
    "device_window c off' = span (e - unat off') 0x200000"
    using a(1) a'(1) by (simp_all add: device_window_def e_def)
  have sub: "device_window c off \<subseteq> span (e - 0x600000) 0x600000"
    unfolding w(1) using offs(1) e by (auto simp: span_def)
  have "device_window c off \<inter> device_window c off' = {} \<and> push_bit (i - 5) (1 :: u32) AND push_bit (j - 5) 1 = 0"
    if "(i, off) \<noteq> (j, off')"
    unfolding w using cs that e by (auto simp: span_def)
  then show ?thesis using sub a(2) cs by (auto simp: e_def)
qed

theorem device_windows_disjoint_witness:
  "\<exists>evs c N' ts. L2CPU_new sample_env (\<lambda>_ _ _. 0) 3 0 = (evs, Inr (c, N'))
     \<and> tool_main [Opt_l ''3''] = Inr ts
     \<and> device_window c 0x200000 \<inter> device_window c 0x400000 = {}"
proof -
  obtain evs c N' where new: "L2CPU_new sample_env (\<lambda>_ _ _. 0) 3 0 = (evs, Inr (c, N'))"
    using sample_l2cpu by blast
  have run: "tool_main [Opt_l ''3''] = Inr (main_threads (default_options\<lparr>l2cpu := 3\<rparr>))" (is "_ = Inr ?ts")
    by (simp add: tool_main_def stoi_def is_space_def is_digit_def digits_value_def default_options_def)
  have "(33, 0x200000) \<in> set (devices ?ts)" "(32, 0x400000) \<in> set (devices ?ts)"
    by (simp_all add: devices_def main_threads_def)
  then have "device_window c 0x200000 \<inter> device_window c 0x400000 = {}"
    using device_windows_disjoint [OF new run, of 33 "0x200000" 32 "0x400000"] by simp
  then show ?thesis using new run by blast
qed

text \<open>Tool and boot script agree: every device of the tool stands at the address and interrupt of
  a node that \<open>boot.py\<close> puts into the device tree, inside the range it reserves. But the script
  makes a fourth node that no device of the tool stands behind, and whose registers lie outside
  the reserved range, in memory Linux uses as its own.\<close>

theorem boot_nodes_agree:
  assumes new: "L2CPU_new env N idx cardno = (evs, Inr (c, N'))" and run: "tool_main os = Inr ts"
  defines "mem_end \<equiv> unat (starting_address c) + unat (memory_size c)"
  shows "(\<forall>(i, off) \<in> set (devices ts).
            (unat (mmio_address c off), i) \<in> set (boot_nodes mem_end) \<and> device_window c off \<subseteq> boot_reserved mem_end)
     \<and> (mem_end - 0x800000, 30) \<in> set (boot_nodes mem_end)
     \<and> span (mem_end - 0x800000) 0x200000 \<inter> boot_reserved mem_end = {}
     \<and> 30 \<notin> fst ` set (devices ts)"
proof -
  have sub: "set (devices ts) \<subseteq> {(33, 0x200000), (32, 0x400000), (31, 0x600000)}"
    using run by (auto simp: tool_main_def bindR_Inr_iff main_threads_def devices_def split: if_splits)
  have e: "0x800000 \<le> mem_end" using tile_memory [OF new] by (auto simp: mem_end_def)
  have "(unat (mmio_address c off), i) \<in> set (boot_nodes mem_end) \<and> device_window c off \<subseteq> boot_reserved mem_end"
    if "(i, off) \<in> set (devices ts)" for i off
  proof -
    have cs: "(i, off) \<in> {(33, 0x200000), (32, 0x400000), (31, 0x600000)}" using sub that by blast
    then have off: "off \<in> {0x200000, 0x400000, 0x600000}" by auto
    have a: "unat (mmio_address c off) = mem_end - unat off"
      using mmio_address_value(1) [OF new off] by (simp add: mem_end_def)
    show ?thesis
      using cs e by (auto simp: a boot_nodes_def boot_reserved_def device_window_def span_def)
  qed
  moreover have "(mem_end - 0x800000, 30) \<in> set (boot_nodes mem_end)" by (simp add: boot_nodes_def)
  moreover have "span (mem_end - 0x800000) 0x200000 \<inter> boot_reserved mem_end = {}"
    using e by (auto simp: boot_reserved_def span_def)
  moreover have "30 \<notin> fst ` set (devices ts)" using sub by force
  ultimately show ?thesis by auto
qed

theorem boot_nodes_agree_witness:
  "\<exists>evs c N' ts. L2CPU_new sample_env (\<lambda>_ _ _. 0) 3 0 = (evs, Inr (c, N'))
     \<and> tool_main [] = Inr ts \<and> 30 \<notin> fst ` set (devices ts)"
proof -
  obtain evs c N' where new: "L2CPU_new sample_env (\<lambda>_ _ _. 0) 3 0 = (evs, Inr (c, N'))"
    using sample_l2cpu by blast
  have run: "tool_main [] = Inr (main_threads default_options)"
    by (simp add: tool_main_def default_options_def)
  show ?thesis using boot_nodes_agree [OF new run] new run by blast
qed

section \<open>When a device cannot be made\<close>

lemma devices_offsets:
  "tool_main os = Inr ts \<Longrightarrow> (i, off) \<in> set (devices ts) \<Longrightarrow> off \<in> {0x200000, 0x400000, 0x600000}"
  by (auto simp: tool_main_def bindR_Inr_iff main_threads_def devices_def split: if_splits)

lemma mmio_window_inside:
  assumes new: "L2CPU_new env N idx cardno = (evs, Inr (c, N'))" and "off \<in> {0x200000, 0x400000, 0x600000}"
    and w: "get_persistent_2M_tlb_window c (mmio_address c off) k = (e, Inr w)"
  shows "TlbWindow_get_window w = 0"
proof -
  have "unat (TlbWindow_get_window w) = unat (mmio_address c off) mod 2 ^ 21"
    by (rule two_meg_window_mem(2) [OF w])
  then show ?thesis using mmio_address_value(2) [OF new assms(2)] by (simp add: unat_eq_0 dvd_eq_mod_eq_0)
qed

text \<open>C36: for every device that the tool starts, on every card and with any answers of the kernel, the
  constructor of \<open>VirtioDevice\<close> either succeeds or the tool ends: no assertion fails, no exception is
  thrown, the registers lie inside their window, and the one failure is the \<open>exit\<close> of \<open>TlbHandle\<close>
  when the kernel refuses a window. That \<open>exit\<close> ends the whole tool from the device's thread, so
  neither the retry loop nor the console's destructor that restores the terminal gets to run.\<close>

theorem device_construction_fails_by_exit:
  assumes run: "tool_main os = Inr ts" and t: "t \<in> set ts" and d: "(i, off) \<in> set (devices ts)"
    and new: "VirtioDevice_new env kw ki N cardno (thread_tile t) off = (e, r)"
  shows "r = Inl Exit_Failure \<or> (\<exists>v N'. r = Inr (v, N') \<and> TlbWindow_get_window (v_window v) = 0)"
proof -
  obtain o' where o': "ts = main_threads o'" "0 \<le> l2cpu o'" "l2cpu o' < 4"
    using run by (auto simp: tool_main_def bindR_Inr_iff split: if_splits)
  have tile: "0 \<le> thread_tile t" "thread_tile t < 4"
    using t o' by (auto simp: main_threads_def split: if_splits)
  note off = devices_offsets [OF run d]
  obtain e0 r0 where L: "L2CPU_new env N (thread_tile t) cardno = (e0, r0)" by fastforce
  show ?thesis
  proof (cases r0)
    case (Inl f)
    then show ?thesis using L2CPU_new_exit [OF tile, of env N cardno e0 f] L new by (simp add: VirtioDevice_new_def)
  next
    case (Inr cN)
    obtain c N' where c: "cN = (c, N')" by (cases cN)
    note L = L [unfolded Inr c]
    obtain e1 r1 where w: "get_persistent_2M_tlb_window c (mmio_address c off) kw = (e1, r1)" by fastforce
    obtain e2 r2 where wi: "get_persistent_2M_tlb_window c interrupt_address ki = (e2, r2)" by fastforce
    have fail: "r1 = Inl f \<Longrightarrow> f = Exit_Failure" "r2 = Inl f \<Longrightarrow> f = Exit_Failure" for f
      using w wi TlbWindow_new_fault by (auto simp: get_persistent_2M_tlb_window_def)
    have inside: "r1 = Inr w1 \<Longrightarrow> TlbWindow_get_window w1 = 0" for w1
      using mmio_window_inside [OF L off] w by simp
    show ?thesis
      using new fail inside by (cases r1; cases r2) (auto simp: VirtioDevice_new_def L w wi TWO_MEG_def)
  qed
qed

theorem device_construction_fails_by_exit_witness:
  "\<exists>e v N'. VirtioDevice_new sample_env sample_reply sample_reply (\<lambda>_ _ _. 0) 0 3 0x400000 = (e, Inr (v, N'))
     \<and> TlbWindow_get_window (v_window v) = 0"
proof -
  have run: "tool_main [Opt_l ''3''] = Inr (main_threads (default_options\<lparr>l2cpu := 3\<rparr>))" (is "_ = Inr ?ts")
    by (simp add: tool_main_def stoi_def is_space_def is_digit_def digits_value_def default_options_def)
  have t: "Console_Main 0 3 \<in> set ?ts" by (simp add: main_threads_def default_options_def)
  have d: "(32, 0x400000) \<in> set (devices ?ts)" by (simp add: devices_def main_threads_def)
  obtain e v N' where "VirtioDevice_new sample_env sample_reply sample_reply (\<lambda>_ _ _. 0) 0 3 0x400000 = (e, Inr (v, N'))"
    using sample_device [of 3 "0x400000" "\<lambda>_ _ _. 0"] by auto
  then show ?thesis using device_construction_fails_by_exit [OF run t d] by fastforce
qed

section \<open>The retry loop of the console\<close>

lemma ex_nat_cases: "(\<exists>k. Q k) \<longleftrightarrow> Q 0 \<or> (\<exists>k. Q (Suc k))"
  by (metis not0_implies_Suc)

text \<open>The console thread tries again after a vanished UART or an exception and only then: it sets
  the exit flag, which stops every other thread, exactly when an attempt made with the flag clear
  returns another code than \<open>-EAGAIN\<close> and all attempts before it were of those two kinds.\<close>

theorem console_main_retries:
  "console_main rs = Inr Stopped_And_Set_Flag \<longleftrightarrow>
     (\<exists>k code. k < length rs \<and> \<not> fst (rs ! k) \<and> snd (rs ! k) = Inr code \<and> code \<noteq> - EAGAIN
        \<and> (\<forall>j < k. \<not> fst (rs ! j) \<and> snd (rs ! j) \<in> {Inr (- EAGAIN), Inl Std_Exception}))"
proof (induction rs rule: console_main.induct)
  case 1
  then show ?case by simp
next
  case (2 x r rs)
  let ?P = "\<lambda>rs k code. k < length rs \<and> \<not> fst (rs ! k) \<and> snd (rs ! k) = Inr code \<and> code \<noteq> - EAGAIN
        \<and> (\<forall>j < k. \<not> fst (rs ! j) \<and> snd (rs ! j) \<in> {Inr (- EAGAIN), Inl Std_Exception})"
  have cons: "?P ((x, r) # rs) (Suc k) code \<longleftrightarrow>
      \<not> x \<and> r \<in> {Inr (- EAGAIN), Inl Std_Exception} \<and> ?P rs k code" for k code
    unfolding All_less_Suc2 nth_Cons_Suc nth_Cons_0 by auto
  have zero: "?P ((x, r) # rs) 0 code \<longleftrightarrow> \<not> x \<and> r = Inr code \<and> code \<noteq> - EAGAIN" for code
    by auto
  have split: "(\<exists>k code. ?P ((x, r) # rs) k code) \<longleftrightarrow>
      (\<exists>code. ?P ((x, r) # rs) 0 code) \<or> (\<exists>k code. ?P ((x, r) # rs) (Suc k) code)"
    by (rule ex_nat_cases)
  consider (stop) x | (fin) code where "\<not> x" "r = Inr code" "code \<noteq> - EAGAIN"
    | (again) "\<not> x" "r = Inr (- EAGAIN)" | (caught) "\<not> x" "r = Inl Std_Exception"
    | (other) e where "\<not> x" "r = Inl e" "e \<noteq> Std_Exception"
    by (cases r) auto
  then show ?case
  proof cases
    case stop
    then show ?thesis unfolding split zero cons by simp
  next
    case fin
    then show ?thesis unfolding split zero cons by simp
  next
    case again
    then show ?thesis unfolding split zero cons using 2(2) [OF again(1) again(2) refl] by simp
  next
    case caught
    then show ?thesis unfolding split zero cons using 2(1) [OF caught(1) caught(2) refl] by simp
  next
    case other
    then show ?thesis unfolding split zero cons by simp
  qed
qed

theorem console_main_retries_witness:
  "console_main [(False, Inr (- EAGAIN)), (False, Inl Std_Exception), (False, Inr 0)] = Inr Stopped_And_Set_Flag"
  by (subst console_main_retries) (intro exI [of _ 2] exI [of _ 0], auto simp: EAGAIN_def less_Suc_eq numeral_2_eq_2)

end
