(* ===== verification/Clock_Script.thy ===== *)
theory Clock_Script
  imports L2cpu
begin

text \<open>
  The ramp of \<^verbatim>\<open>clock.py\<close>, the script that sets the clock before the tool runs. It drives the same two
  registers as \<open>L2CPU::set_frequency\<close>, with frequencies to choose from, other loops and Python's
  unbounded integers: a field of a \<open>ctypes\<close> structure is read as an \<open>int\<close> and truncated when written.
  Its \<open>while\<close> loops are partial functions: a target that the field cannot hold would never be
  reached, and the value \<open>None\<close> stands for that. \<open>pyluwen\<close> delivers the two registers at the start (the
  arguments \<open>raw5\<close> and \<open>raw1\<close>) and takes the values written.
\<close>

section \<open>The script\<close>

definition solutions :: "int \<Rightarrow> (int \<times> int list) option" where
  "solutions =
     [200 \<mapsto> (128, [15, 15, 15, 15]), 1750 \<mapsto> (140, [1, 1, 1, 1]), 15 \<mapsto> (120, [99, 99, 99, 99])]"

definition py_one_step :: "int \<Rightarrow> int \<Rightarrow> int" where
  "py_one_step target value = max (min (target - value) 1) (-1)"

text \<open>The loops of \<open>PLLCNTL5.step\<close> and \<open>PLLCNTL1.step_fbdiv\<close>, with the values they write.\<close>

partial_function (option) py_step_loop :: "int \<Rightarrow> int \<Rightarrow> nat \<Rightarrow> PLLCNTL5 \<Rightarrow> PLLCNTL5 list option" where
  "py_step_loop target d field p =
     (if uint (p ! field) = target then Some []
      else let q = p[field := word_of_int (uint (p ! field) + d)]
           in Option.bind (py_step_loop target d field q) (\<lambda>ws. Some (q # ws)))"

partial_function (option) py_fbdiv_loop :: "int \<Rightarrow> int \<Rightarrow> PLLCNTL1 \<Rightarrow> PLLCNTL1 list option" where
  "py_fbdiv_loop target d r =
     (if uint (fbdiv r) = target then Some []
      else let q = r\<lparr>fbdiv := word_of_int (uint (fbdiv r) + d)\<rparr>
           in Option.bind (py_fbdiv_loop target d q) (\<lambda>ws. Some (q # ws)))"

definition py_step :: "int \<Rightarrow> nat \<Rightarrow> PLLCNTL5 \<Rightarrow> PLLCNTL5 list option" where
  "py_step target field p = py_step_loop target (py_one_step target (uint (p ! field))) field p"

definition py_step_fbdiv :: "int \<Rightarrow> PLLCNTL1 \<Rightarrow> PLLCNTL1 list option" where
  "py_step_fbdiv target r = py_fbdiv_loop target (py_one_step target (uint (fbdiv r))) r"

text \<open>A \<open>for\<close> loop over pairs of index and target.\<close>

fun py_steps :: "(nat \<times> int) list \<Rightarrow> PLLCNTL5 \<Rightarrow> PLLCNTL5 list option" where
  "py_steps [] p = Some []"
| "py_steps ((field, target) # its) p =
     Option.bind (py_step target field p) (\<lambda>ws.
     Option.bind (py_steps its (final p ws)) (\<lambda>vs. Some (ws @ vs)))"

definition set_l2cpu_pll :: "int \<Rightarrow> u32 \<Rightarrow> u32 \<Rightarrow> pll_write list res option" where
  "set_l2cpu_pll mhz raw5 raw1 =
     (case solutions mhz of
        None \<Rightarrow> Some (Inl Std_Exception)
      | Some (sol_fbdiv, sol_postdivs) \<Rightarrow>
          let p = cntl5_of_raw raw5;
              r = cntl1_of_raw raw1;
              increasing = filter (\<lambda>(i, target). target > uint (p ! i)) (enumerate 0 sol_postdivs);
              decreasing = filter (\<lambda>(i, target). target < uint (p ! i)) (enumerate 0 sol_postdivs)
          in Option.bind (py_steps increasing p) (\<lambda>up.
             Option.bind (py_step_fbdiv sol_fbdiv r) (\<lambda>fb.
             Option.bind (py_steps decreasing (final p up)) (\<lambda>down.
             Some (Inr (map Write_Cntl5 up @ map Write_Cntl1 fb @ map Write_Cntl5 down))))))"

section \<open>Its loops are those of set_frequency\<close>

lemma py_step_loop_eq:
  "field < length p \<Longrightarrow>
     py_step_loop (uint t) (if up then 1 else -1) field p = Some (postdiv_loop up field t p)"
proof (induction up field t p rule: postdiv_loop.induct)
  case (1 up i t p)
  show ?case
    using 1
    by (subst py_step_loop.simps, subst postdiv_loop.simps)
      (cases up; simp add: Let_def one_step_def word_uint_eq_iff [symmetric])
qed

lemma py_fbdiv_loop_eq:
  "py_fbdiv_loop (uint t) (if up then 1 else -1) r = Some (fbdiv_loop up t r)"
proof (induction up t r rule: fbdiv_loop.induct)
  case (1 up t r)
  show ?case
    using 1
    by (subst py_fbdiv_loop.simps, subst fbdiv_loop.simps)
      (cases up; simp add: Let_def one_step_def word_uint_eq_iff [symmetric])
qed

lemma py_one_step_eq: "t \<noteq> x \<Longrightarrow> py_one_step (uint t) (uint x) = (if x < t then 1 else -1)"
  by (auto simp: py_one_step_def word_less_def min_def max_def word_uint_eq_iff)

lemma py_step_eq:
  assumes "field < length p" "t \<noteq> p ! field"
  shows "py_step (uint t) field p = Some (postdiv_loop (p ! field < t) field t p)"
  using py_step_loop_eq [OF assms(1), of t "p ! field < t"] py_one_step_eq [OF assms(2)]
  by (simp add: py_step_def)

lemma py_step_fbdiv_eq: "py_step_fbdiv (uint t) r = Some (adjust_fbdiv t r)"
proof (cases "fbdiv r = t")
  case True
  then show ?thesis by (simp add: py_step_fbdiv_def adjust_fbdiv_def py_fbdiv_loop.simps)
next
  case False
  then show ?thesis
    using py_fbdiv_loop_eq [of t "fbdiv r < t" r] py_one_step_eq [of t "fbdiv r"]
    by (simp add: py_step_fbdiv_def adjust_fbdiv_def)
qed

text \<open>The script selects the dividers to move before it moves any, the C++ code one by one; moving
  one does not change the choice of the others.\<close>

lemma py_steps_raise:
  assumes "distinct is" and "\<forall>i \<in> set is. i < length p \<and> (P i \<longleftrightarrow> p ! i < tp ! i)"
  shows "py_steps (map (\<lambda>i. (i, uint (tp ! i))) (filter P is)) p = Some (raise_postdivs is tp p)"
  using assms
proof (induction "is" arbitrary: p)
  case (Cons i "is")
  show ?case
  proof (cases "P i")
    case True
    then have lt: "p ! i < tp ! i" "i < length p" using Cons.prems(2) by auto
    have "py_step (uint (tp ! i)) i p = Some (postdiv_loop True i (tp ! i) p)"
      using py_step_eq [of i p "tp ! i"] lt by auto
    moreover have "\<forall>j \<in> set is. j < length (p[i := tp ! i]) \<and> (P j \<longleftrightarrow> p[i := tp ! i] ! j < tp ! j)"
      using Cons.prems by (auto simp: nth_list_update)
    ultimately show ?thesis
      using Cons.IH [of "p[i := tp ! i]"] Cons.prems(1) True lt
      by (simp add: final_postdiv_loop Let_def)
  next
    case False
    then show ?thesis using Cons by (auto simp: Let_def)
  qed
qed simp

lemma py_steps_lower:
  assumes "distinct is" and "\<forall>i \<in> set is. i < length p \<and> (P i \<longleftrightarrow> tp ! i < p ! i)"
  shows "py_steps (map (\<lambda>i. (i, uint (tp ! i))) (filter P is)) p = Some (lower_postdivs is tp p)"
  using assms
proof (induction "is" arbitrary: p)
  case (Cons i "is")
  show ?case
  proof (cases "P i")
    case True
    then have lt: "tp ! i < p ! i" "i < length p" using Cons.prems(2) by auto
    have "py_step (uint (tp ! i)) i p = Some (postdiv_loop False i (tp ! i) p)"
      using py_step_eq [of i p "tp ! i"] lt by (simp add: less_imp_neq order_less_not_sym)
    moreover have "\<forall>j \<in> set is. j < length (p[i := tp ! i]) \<and> (P j \<longleftrightarrow> tp ! j < p[i := tp ! i] ! j)"
      using Cons.prems by (auto simp: nth_list_update)
    ultimately show ?thesis
      using Cons.IH [of "p[i := tp ! i]"] Cons.prems(1) True lt
      by (simp add: final_postdiv_loop Let_def)
  next
    case False
    then show ?thesis using Cons by (auto simp: Let_def)
  qed
qed simp

section \<open>The script ramps as the tool does\<close>

lemma enumerate_targets:
  assumes "length tp = 4"
  shows "filter P (enumerate 0 (map uint tp)) = map (\<lambda>i. (i, uint (tp ! i))) (filter (\<lambda>i. P (i, uint (tp ! i))) [0..<4])"
proof -
  have "enumerate 0 (map uint tp) = map (\<lambda>i. (i, uint (tp ! i))) [0..<4]"
    using assms by (simp add: enumerate_eq_zip list_eq_iff_nth_eq)
  then show ?thesis by (simp add: filter_map o_def)
qed

lemma set_l2cpu_pll_eq:
  assumes sol: "solutions mhz = Some (uint tf, map uint tp)" and len: "length tp = 4"
  shows "set_l2cpu_pll mhz raw5 raw1 = Some (Inr (ramp tf tp (cntl5_of_raw raw5) (cntl1_of_raw raw1)))"
proof -
  define p where "p = cntl5_of_raw raw5"
  define up where "up = raise_postdivs [0..<4] tp p"
  have [simp]: "length p = 4" by (simp add: p_def)
  have fin: "length (final p up) = 4" "j < 4 \<Longrightarrow> final p up ! j = max (p ! j) (tp ! j)" for j
    using raise_postdivs_spec [of "[0..<4]" p 0 tp] raise_postdivs_spec [of "[0..<4]" p j tp]
    by (simp_all add: up_def)
  have inc: "py_steps (filter (\<lambda>(i, target). target > uint (p ! i)) (enumerate 0 (map uint tp))) p = Some up"
    unfolding enumerate_targets [OF len] up_def
    by (rule py_steps_raise) (auto simp: word_less_def)
  have dec: "py_steps (filter (\<lambda>(i, target). target < uint (p ! i)) (enumerate 0 (map uint tp))) (final p up)
      = Some (lower_postdivs [0..<4] tp (final p up))"
    unfolding enumerate_targets [OF len]
    by (rule py_steps_lower) (auto simp: fin word_less_def [symmetric] less_max_iff_disj)
  show ?thesis
    unfolding set_l2cpu_pll_def sol
    by (simp add: Let_def p_def [symmetric] inc [unfolded up_def] dec [unfolded up_def]
        py_step_fbdiv_eq ramp_def up_def)
qed

text \<open>C32: for every frequency of its table the script returns, and writes exactly the sequence of
  register values that the tool's ramp writes for the same target, whatever the registers hold; its
  entry for 1750 MHz is the target of \<open>set_frequency\<close>. A frequency that is not in the table raises
  \<open>KeyError\<close> before anything is written. So what is proved of \<open>ramp\<close> holds of the script.\<close>

theorem clock_script_ramps_as_tool:
  "set_l2cpu_pll mhz raw5 raw1 =
     Some (case solutions mhz of
       None \<Rightarrow> Inl Std_Exception
     | Some (f, pds) \<Rightarrow> Inr (ramp (word_of_int f) (map word_of_int pds) (cntl5_of_raw raw5) (cntl1_of_raw raw1)))
   \<and> solutions 1750 = Some (uint target_fbdiv, map uint target_postdiv)"
proof (cases "solutions mhz")
  case None
  then show ?thesis by (simp add: set_l2cpu_pll_def solutions_def target_fbdiv_def target_postdiv_def)
next
  case (Some sol)
  obtain f pds where sol: "sol = (f, pds)" by (cases sol)
  define tf :: u16 where "tf = word_of_int f"
  define tp :: "u8 list" where "tp = map word_of_int pds"
  have "f = uint tf" "pds = map uint tp" "length tp = 4"
    using Some by (auto simp: solutions_def sol tf_def tp_def split: if_splits)
  then show ?thesis
    using set_l2cpu_pll_eq [of mhz tf tp] Some
    by (simp add: sol o_def) (simp add: solutions_def target_fbdiv_def target_postdiv_def)
qed

end
