(* ===== verification/Boot_Script.thy ===== *)
theory Boot_Script
  imports Host_Tool Clock_Script
begin

text \<open>
  \<^verbatim>\<open>boot.py\<close>, the script that loads the tiles and takes them out of reset before the tool runs: its checks,
  the patched device tree, and the sequence of accesses to the chip. The chip (pyluwen), libfdt and
  the files are inputs; a string stands for its UTF-8 bytes. An \<open>AssertionError\<close> is \<open>Assert_Failed\<close>, \<open>exit\<close> is
  \<open>Exit_Failure\<close>, any other exception \<open>Std_Exception\<close>.
\<close>

section \<open>Arguments and inputs\<close>

record boot_args =
  boot :: bool
  l2cpus :: "int list"
  boot_device :: string
  dt_no_virtio_devices :: bool
  extra_bootargs :: string
  rootfs_bin :: "string option"
  rootfs_dst :: "string list"
  opensbi_bin :: string
  opensbi_dst :: "string list"
  kernel_bin :: "string option"
  kernel_dst :: "string list option"
  dtb_bin :: "string list option"
  dtb_dst :: "string list option"

text \<open>What libfdt finds in a device tree; the edits the script makes; the machine the script runs on.\<close>

record fdt_reply =
  has_chosen :: bool
  has_memory :: bool
  memory_reg :: "u8 list option"
  has_reserved :: bool
  has_soc :: bool
  has_plic :: bool
  plic_phandle :: u32
  max_phandle :: u32

datatype dt_edit = Add_Subnode string string | Set_Prop string string "u8 list"

record boot_env =
  files :: "string \<Rightarrow> u8 list option"
  enabled_l2cpu :: int
  enabled_gddr :: int
  fdt :: "u8 list \<Rightarrow> fdt_reply"
  fdt_edit :: "u8 list \<Rightarrow> dt_edit list \<Rightarrow> u8 list option"
  reset_val :: u32
  pll_before :: "u32 \<times> u32"
  pll_after :: "u32 \<times> u32"

datatype chip_event =
    Board_Reset
  | Noc_Write32 "u16 \<times> u16" int int
  | Noc_Read32 "u16 \<times> u16" int
  | Noc_Write "u16 \<times> u16" int "u8 list"
  | Axi_Read32 int
  | Axi_Write32 int u32
  | Pll_Write pll_write

text \<open>\<open>len(a) == len(b) == \<dots>\<close>, of which each is evaluated only when the ones before it agree; \<open>len(None)\<close> raises.\<close>

fun same_lengths :: "nat \<Rightarrow> nat option list \<Rightarrow> unit res" where
  "same_lengths n [] = Inr ()"
| "same_lengths n (None # ms) = Inl Std_Exception"
| "same_lengths n (Some m # ms) = (if n = m then same_lengths m ms else Inl Assert_Failed)"

definition parse_args :: "boot_args \<Rightarrow> unit res" where
  "parse_args a =
     bindR (same_lengths (length (l2cpus a))
              [Some (length (rootfs_dst a)), Some (length (opensbi_dst a)), map_option length (kernel_dst a),
               map_option length (dtb_bin a), map_option length (dtb_dst a)]) (\<lambda>_.
       require Assert_Failed (\<forall>l \<in> set (l2cpus a). 0 \<le> l \<and> l < 4))"

text \<open>The options for kernel and device tree are declared optional, but nothing goes without them.\<close>

lemma kernel_and_dtb_required:
  "kernel_dst a = None \<or> dtb_bin a = None \<or> dtb_dst a = None \<Longrightarrow> parse_args a \<noteq> Inr ()"
  by (cases "kernel_dst a"; cases "dtb_bin a"; cases "dtb_dst a")
    (auto simp: parse_args_def bindR_Inr_iff split: if_splits)

section \<open>Python's conversions\<close>

text \<open>\<open>int(s, 16)\<close>: white space around, a sign, the prefix \<open>0x\<close>, single underscores between digits.\<close>

definition py_space :: "char \<Rightarrow> bool" where
  "py_space c \<longleftrightarrow> is_space c \<or> 28 \<le> (of_char c :: nat) \<and> (of_char c :: nat) \<le> 31"

definition hex_digit :: "char \<Rightarrow> int option" where
  "hex_digit c =
     (let n = of_char c in
      if 48 \<le> n \<and> n \<le> 57 then Some (n - 48) else if 97 \<le> n \<and> n \<le> 102 then Some (n - 87)
      else if 65 \<le> n \<and> n \<le> 70 then Some (n - 55) else None)"

fun hex_digits :: "int \<Rightarrow> bool \<Rightarrow> string \<Rightarrow> int option" where
  "hex_digits v d [] = (if d then Some v else None)"
| "hex_digits v d (c # cs) =
     (if c = CHR ''_'' then (if d then hex_digits v False cs else None)
      else case hex_digit c of None \<Rightarrow> None | Some x \<Rightarrow> hex_digits (16 * v + x) True cs)"

definition py_int16 :: "string \<Rightarrow> int res" where
  "py_int16 str =
     (let s = rev (dropWhile py_space (rev (dropWhile py_space str)));
          neg = (s \<noteq> [] \<and> hd s = CHR ''-'');
          t = (if s \<noteq> [] \<and> (hd s = CHR ''-'' \<or> hd s = CHR ''+'') then tl s else s);
          u = (if take 2 t = ''0x'' \<or> take 2 t = ''0X''
               then (if take 1 (drop 2 t) = ''_'' then drop 3 t else drop 2 t) else t)
      in case hex_digits 0 False u of None \<Rightarrow> Inl Std_Exception | Some v \<Rightarrow> Inr (if neg then - v else v))"

text \<open>Numbers in f-strings, decimal and with \<open>:x\<close>.\<close>

fun digits_of :: "nat \<Rightarrow> nat \<Rightarrow> string" where
  "digits_of b n =
     (let c = (\<lambda>d. char_of (if d < 10 then 48 + d else 87 + d))
      in if b < 2 \<or> n < b then [c n] else digits_of b (n div b) @ [c (n mod b)])"

declare digits_of.simps [simp del]

definition py_hex :: "int \<Rightarrow> string" where
  "py_hex z = (if z < 0 then ''-'' @ digits_of 16 (nat (- z)) else digits_of 16 (nat z))"

definition str_bytes :: "string \<Rightarrow> u8 list" where
  "str_bytes s = map of_char s"

text \<open>\<open>struct\<close> with \<open>>QQ\<close>, and libfdt's big-endian cells.\<close>

definition pack_QQ :: "int \<Rightarrow> int \<Rightarrow> u8 list res" where
  "pack_QQ a b =
     (if 0 \<le> a \<and> a < 2 ^ 64 \<and> 0 \<le> b \<and> b < 2 ^ 64
      then Inr (rev (bytes64 (word_of_int a)) @ rev (bytes64 (word_of_int b))) else Inl Std_Exception)"

definition be_value :: "u8 list \<Rightarrow> int" where
  "be_value bs = foldl (\<lambda>v b. 256 * v + uint b) 0 bs"

definition unpack_QQ :: "u8 list \<Rightarrow> (int \<times> int) res" where
  "unpack_QQ bs =
     (if length bs = 16 then Inr (be_value (take 8 bs), be_value (drop 8 bs)) else Inl Std_Exception)"

lemma be_value_rev: "be_value (rev bs) = int (of_le bs)"
  by (induction bs) (simp_all add: be_value_def)

lemma of_le_bytes64:
  assumes "0 \<le> a" "a < 2 ^ 64"
  shows "int (of_le (bytes64 (word_of_int a))) = a"
proof -
  have "unat (word_of_int a :: u64) < 256 ^ 8" using unsigned_less [of "word_of_int a :: u64"] by simp
  then have "int (of_le (bytes64 (word_of_int a))) = uint (word_of_int a :: u64)"
    by (simp add: bytes64_def of_le_to_le)
  then show ?thesis using assms by (simp add: uint_word_of_int_eq take_bit_int_eq_self_iff)
qed

lemma unpack_pack: "pack_QQ a b = Inr bs \<Longrightarrow> unpack_QQ bs = Inr (a, b)"
  by (auto simp: pack_QQ_def unpack_QQ_def be_value_rev of_le_bytes64 split: if_splits)

definition cell :: "u32 \<Rightarrow> u8 list" where
  "cell v = rev (bytes32 v)"

section \<open>Files\<close>

definition read_bin_file :: "boot_env \<Rightarrow> string \<Rightarrow> u8 list res" where
  "read_bin_file env file_path =
     (case files env file_path of
        None \<Rightarrow> Inl Std_Exception
      | Some file_bytes \<Rightarrow>
          let padding = length file_bytes mod 4
          in Inr (if padding \<noteq> 0 then file_bytes @ replicate (4 - padding) 0 else file_bytes))"

lemma read_bin_file_padded:
  assumes "read_bin_file env p = Inr bs" "files env p = Some fs"
  shows "4 dvd length bs \<and> length fs \<le> length bs \<and> length bs < length fs + 4 \<and> take (length fs) bs = fs
     \<and> set (drop (length fs) bs) \<subseteq> {0}"
proof (cases "length fs mod 4 = 0")
  case True
  then show ?thesis using assms by (auto simp: read_bin_file_def Let_def dvd_eq_mod_eq_0)
next
  case False
  define r where "r = length fs mod 4"
  have r: "r < 4" "length fs = 4 * (length fs div 4) + r" "r \<noteq> 0" using False by (simp_all add: r_def)
  then have "4 dvd length fs + (4 - r)" by presburger
  then show ?thesis using assms r by (auto simp: read_bin_file_def Let_def r_def [symmetric])
qed

section \<open>The device tree\<close>

text \<open>The edits made until the script is through or fails.\<close>

definition virtio_node :: "int \<Rightarrow> u32 \<Rightarrow> int \<Rightarrow> dt_edit list \<times> unit res" where
  "virtio_node mem_end phandle i =
     (let virtio_addr = mem_end - 0x200000 * (i + 1);
          virtio_irq = 33 - i;
          node = ''virtio@'' @ py_hex virtio_addr;
          path = ''/soc/'' @ node;
          begun = [Add_Subnode ''/soc'' node, Set_Prop path ''compatible'' (str_bytes ''virtio,mmio'' @ [0])]
      in case pack_QQ virtio_addr 0x200000 of
           Inl e \<Rightarrow> (begun, Inl e)
         | Inr virtio_reg \<Rightarrow>
             (begun @ [Set_Prop path ''reg'' virtio_reg, Set_Prop path ''interrupts'' (cell (word_of_int virtio_irq)),
                       Set_Prop path ''interrupt-parent'' (cell phandle)], Inr ()))"

fun virtio_nodes :: "int \<Rightarrow> u32 \<Rightarrow> int list \<Rightarrow> dt_edit list \<times> unit res" where
  "virtio_nodes mem_end phandle [] = ([], Inr ())"
| "virtio_nodes mem_end phandle (i # is) =
     (case virtio_node mem_end phandle i of
        (es, Inl e) \<Rightarrow> (es, Inl e)
      | (es, Inr _) \<Rightarrow> (case virtio_nodes mem_end phandle is of (fs, r) \<Rightarrow> (es @ fs, r)))"

definition patch_virtio :: "fdt_reply \<Rightarrow> dt_edit list \<times> unit res" where
  "patch_virtio t =
     (case bindR (case memory_reg t of None \<Rightarrow> Inl Std_Exception | Some mem \<Rightarrow> Inr mem) unpack_QQ of
        Inl e \<Rightarrow> ([], Inl e)
      | Inr (mem_start, mem_size) \<Rightarrow>
          let mem_end = mem_start + mem_size;
              node = ''/reserved-memory/memory@4000afa00000'';
              reserved = (if has_reserved t then []
                else [Add_Subnode ''/'' ''reserved-memory'', Set_Prop ''/reserved-memory'' ''#address-cells'' (cell 2),
                      Set_Prop ''/reserved-memory'' ''#size-cells'' (cell 2), Set_Prop ''/reserved-memory'' ''ranges'' []])
                @ [Add_Subnode ''/reserved-memory'' ''memory@4000afa00000'']
          in case pack_QQ (mem_end - 0x600000) 0x600000 of
               Inl e \<Rightarrow> (reserved, Inl e)
             | Inr reserved_reg \<Rightarrow>
                 let reserved = reserved @ [Set_Prop node ''reg'' reserved_reg, Set_Prop node ''no-map'' []]
                 in if \<not> has_soc t \<or> \<not> has_plic t then (reserved, Inl Exit_Failure)
                    else
                      let phandle = (if plic_phandle t = 0 then max_phandle t + 1 else plic_phandle t);
                          plic = (if plic_phandle t = 0
                            then [Set_Prop ''/soc/interrupt-controller@c000000'' ''phandle'' (cell phandle)] else [])
                      in case virtio_nodes mem_end phandle [3, 2, 1, 0] of (es, r) \<Rightarrow> (reserved @ plic @ es, r))"

definition patch_tree :: "boot_args \<Rightarrow> fdt_reply \<Rightarrow> string res \<Rightarrow> dt_edit list \<times> unit res" where
  "patch_tree a t args =
     (let chosen = (if has_chosen t then [] else [Add_Subnode ''/'' ''chosen''])
      in case args of
           Inl e \<Rightarrow> (chosen, Inl e)
         | Inr str \<Rightarrow>
             let begun = chosen @ [Set_Prop ''/chosen'' ''bootargs'' (str_bytes str @ [0])]
             in if \<not> has_memory t then (begun, Inl Exit_Failure)
                else if dt_no_virtio_devices a then (begun, Inr ())
                else case patch_virtio t of (es, r) \<Rightarrow> (begun @ es, r))"

text \<open>An edit that libfdt refuses raises, before whatever comes after it.\<close>

definition patched :: "boot_env \<Rightarrow> u8 list \<Rightarrow> dt_edit list \<times> unit res \<Rightarrow> u8 list res" where
  "patched env dtb p =
     (case fdt_edit env dtb (fst p) of
        None \<Rightarrow> Inl Std_Exception
      | Some dtb' \<Rightarrow> bindR (snd p) (\<lambda>_. Inr dtb'))"

definition bootargs :: "boot_env \<Rightarrow> boot_args \<Rightarrow> nat \<Rightarrow> (int \<times> u8 list) option \<Rightarrow> string res" where
  "bootargs env a idx rootfs =
     (let base = ''rw console=hvc0 earlycon=sbi'';
          extra = (if extra_bootargs a \<noteq> '''' then '' '' @ extra_bootargs a else '''')
      in if take 3 (boot_device a) = ''vda'' then Inr (base @ '' root=/dev/'' @ boot_device a @ extra)
         else if boot_device a = ''initramfs''
         then (case rootfs_bin a of
                 None \<Rightarrow> Inl Std_Exception
               | Some p \<Rightarrow>
                   if files env p = None then Inr (base @ extra)
                   else case rootfs of
                          None \<Rightarrow> Inl Std_Exception
                        | Some (_, bs) \<Rightarrow>
                            Inr (base @ '' initrd='' @ (rootfs_dst a ! idx) @ '','' @ digits_of 10 (length bs) @ extra))
         else Inl Exit_Failure)"

section \<open>Loading a tile\<close>

definition boot_tile_mapping :: "int \<Rightarrow> (u16 \<times> u16) option" where
  "boot_tile_mapping = [0 \<mapsto> (8, 3), 1 \<mapsto> (8, 9), 2 \<mapsto> (8, 5), 3 \<mapsto> (8, 7)]"

definition l2cpu_gddr_enable_bit_mapping :: "int \<Rightarrow> nat option" where
  "l2cpu_gddr_enable_bit_mapping = [0 \<mapsto> 5, 1 \<mapsto> 6, 2 \<mapsto> 7, 3 \<mapsto> 7]"

definition l2cpu_base :: int where "l2cpu_base = 0xfffff7fefff10000"
definition L3_REG_BASE :: int where "L3_REG_BASE = 0x02010000"
definition L2_PREFETCH_BASE :: int where "L2_PREFETCH_BASE = 0x02030000"

definition image :: "boot_env \<Rightarrow> string \<Rightarrow> string \<Rightarrow> (int \<times> u8 list) res" where
  "image env dst p = bindR (py_int16 dst) (\<lambda>addr. bindR (read_bin_file env p) (\<lambda>bytes. Inr (addr, bytes)))"

definition rootfs_image :: "boot_env \<Rightarrow> boot_args \<Rightarrow> nat \<Rightarrow> (int \<times> u8 list) option res" where
  "rootfs_image env a idx =
     (case rootfs_bin a of
        None \<Rightarrow> Inr None
      | Some p \<Rightarrow>
          if rootfs_dst a \<noteq> [] \<and> p \<noteq> '''' \<and> files env p \<noteq> None
          then bindR (image env (rootfs_dst a ! idx) p) (\<lambda>x. Inr (Some x)) else Inr None)"

definition kernel_image :: "boot_env \<Rightarrow> boot_args \<Rightarrow> nat \<Rightarrow> (int \<times> u8 list) option res" where
  "kernel_image env a idx =
     (case (kernel_dst a, kernel_bin a) of
        (Some dst, Some p) \<Rightarrow>
          if dst \<noteq> [] \<and> p \<noteq> '''' then bindR (image env (dst ! idx) p) (\<lambda>x. Inr (Some x)) else Inr None
      | _ \<Rightarrow> Inr None)"

text \<open>Without the device tree the name \<open>dtb_bytes\<close> is not bound.\<close>

definition dtb_image :: "boot_env \<Rightarrow> boot_args \<Rightarrow> nat \<Rightarrow> (int \<times> u8 list) res" where
  "dtb_image env a idx =
     (case (dtb_bin a, dtb_dst a) of
        (Some ps, Some dst) \<Rightarrow> if ps \<noteq> [] \<and> dst \<noteq> [] then image env (dst ! idx) (ps ! idx) else Inl Std_Exception
      | _ \<Rightarrow> Inl Std_Exception)"

definition reset_vectors :: "u16 \<times> u16 \<Rightarrow> int \<Rightarrow> chip_event list" where
  "reset_vectors xy opensbi_addr =
     concat (map (\<lambda>c. [Noc_Write32 xy (l2cpu_base + 8 * c) (opensbi_addr mod 2 ^ 32),
                      Noc_Write32 xy (l2cpu_base + 8 * c + 4) (opensbi_addr div 2 ^ 32)]) [0, 1, 2, 3])"

definition block_write :: "u16 \<times> u16 \<Rightarrow> (int \<times> u8 list) option \<Rightarrow> chip_event list" where
  "block_write xy x = (case x of None \<Rightarrow> [] | Some (addr, bytes) \<Rightarrow> [Noc_Write xy addr bytes])"

definition load_tile :: "boot_env \<Rightarrow> boot_args \<Rightarrow> nat \<Rightarrow> int \<Rightarrow> chip_event list res" where
  "load_tile env a idx l =
     bindR (map_at boot_tile_mapping l) (\<lambda>xy.
     bindR (image env (opensbi_dst a ! idx) (opensbi_bin a)) (\<lambda>opensbi.
     bindR (rootfs_image env a idx) (\<lambda>rootfs.
     bindR (kernel_image env a idx) (\<lambda>kernel.
     bindR (dtb_image env a idx) (\<lambda>dtb.
     bindR (patched env (snd dtb) (patch_tree a (fdt env (snd dtb)) (bootargs env a idx rootfs))) (\<lambda>dtb_bytes.
       Inr ([Noc_Write32 xy (L3_REG_BASE + 8) 0xf, Noc_Read32 xy (L3_REG_BASE + 8), Noc_Write xy (fst opensbi) (snd opensbi)]
            @ block_write xy rootfs @ block_write xy kernel @ [Noc_Write xy (fst dtb) dtb_bytes]
            @ reset_vectors xy (fst opensbi))))))))"

section \<open>The whole script\<close>

fun load_tiles :: "boot_env \<Rightarrow> boot_args \<Rightarrow> (nat \<times> int) list \<Rightarrow> chip_event list \<times> unit res" where
  "load_tiles env a [] = ([], Inr ())"
| "load_tiles env a ((idx, l) # its) =
     (case load_tile env a idx l of
        Inl e \<Rightarrow> ([], Inl e)
      | Inr evs \<Rightarrow> (case load_tiles env a its of (rest, r) \<Rightarrow> (evs @ rest, r)))"

fun check_harvested :: "boot_env \<Rightarrow> int list \<Rightarrow> unit res" where
  "check_harvested env [] = Inr ()"
| "check_harvested env (l # ls) =
     bindR (require Assert_Failed (bit (enabled_l2cpu env) (nat l))) (\<lambda>_.
     bindR (map_at l2cpu_gddr_enable_bit_mapping l) (\<lambda>b.
     bindR (require Assert_Failed (bit (enabled_gddr env) b)) (\<lambda>_. check_harvested env ls)))"

definition L2CPU_RESET :: int where "L2CPU_RESET = 0x80030000 + 0x14"

text \<open>The result is \<open>None\<close> should a ramp not return.\<close>

definition reset_x280 :: "boot_env \<Rightarrow> int list \<Rightarrow> (chip_event list \<times> unit res) option" where
  "reset_x280 env ls =
     Option.bind (set_l2cpu_pll 200 (fst (pll_before env)) (snd (pll_before env))) (\<lambda>slow.
       case slow of
         Inl e \<Rightarrow> Some ([], Inl e)
       | Inr slow \<Rightarrow>
           let v = fold (\<lambda>l v. v OR push_bit (nat (l + 4)) 1) ls (reset_val env);
               evs = map Pll_Write slow @ [Axi_Read32 L2CPU_RESET, Axi_Write32 L2CPU_RESET v, Axi_Read32 L2CPU_RESET]
           in Option.bind (set_l2cpu_pll 1750 (fst (pll_after env)) (snd (pll_after env))) (\<lambda>fast.
                case fast of
                  Inl e \<Rightarrow> Some (evs, Inl e)
                | Inr fast \<Rightarrow> Some (evs @ map Pll_Write fast, Inr ())))"

fun set_prefetchers :: "int list \<Rightarrow> chip_event list res" where
  "set_prefetchers [] = Inr []"
| "set_prefetchers (l # ls) =
     bindR (map_at boot_tile_mapping l) (\<lambda>xy.
     bindR (set_prefetchers ls) (\<lambda>evs.
       Inr (concat (map (\<lambda>off. [Noc_Write32 xy (L2_PREFETCH_BASE + off) 0x15811,
                              Noc_Write32 xy (L2_PREFETCH_BASE + 4 + off) 0x38c84e]) [0, 0x2000, 0x4000, 0x6000]) @ evs)))"

definition finish_boot :: "boot_args \<Rightarrow> chip_event list \<times> unit res \<Rightarrow> chip_event list \<times> unit res" where
  "finish_boot a s =
     (case s of
        (evs, Inl e) \<Rightarrow> (evs, Inl e)
      | (evs, Inr _) \<Rightarrow> (case set_prefetchers (l2cpus a) of Inl e \<Rightarrow> (evs, Inl e) | Inr pre \<Rightarrow> (evs @ pre, Inr ())))"

definition boot_main :: "boot_env \<Rightarrow> boot_args \<Rightarrow> (chip_event list \<times> unit res) option" where
  "boot_main env a =
     (case parse_args a of
        Inl e \<Rightarrow> Some ([], Inl e)
      | Inr _ \<Rightarrow>
          (case check_harvested env (l2cpus a) of
             Inl e \<Rightarrow> Some ([Board_Reset], Inl e)
           | Inr _ \<Rightarrow>
               (case load_tiles env a (enumerate 0 (l2cpus a)) of
                  (evs, Inl e) \<Rightarrow> Some (Board_Reset # evs, Inl e)
                | (evs, Inr _) \<Rightarrow>
                    if boot a
                    then Option.bind (reset_x280 env (l2cpus a)) (\<lambda>(revs, r).
                           Some (finish_boot a (Board_Reset # evs @ revs, r)))
                    else Some (finish_boot a (Board_Reset # evs, Inr ())))))"

section \<open>What a tile reads\<close>

text \<open>The word last written to an address of a tile, unless a block has been written over it since.\<close>

fun word_after :: "u16 \<times> u16 \<Rightarrow> int \<Rightarrow> chip_event \<Rightarrow> int option \<Rightarrow> int option" where
  "word_after xy p (Noc_Write32 xy' p' v) w = (if xy' = xy \<and> p' = p then Some v else w)"
| "word_after xy p (Noc_Write xy' p' bs) w = (if xy' = xy \<and> p' - 4 < p \<and> p < p' + int (length bs) then None else w)"
| "word_after xy p e w = w"

definition word_at :: "chip_event list \<Rightarrow> u16 \<times> u16 \<Rightarrow> int \<Rightarrow> int option" where
  "word_at evs xy p = fold (word_after xy p) evs None"

fun tile_of :: "chip_event \<Rightarrow> (u16 \<times> u16) option" where
  "tile_of (Noc_Write32 xy p v) = Some xy"
| "tile_of (Noc_Write xy p bs) = Some xy"
| "tile_of (Noc_Read32 xy p) = Some xy"
| "tile_of e = None"

lemma word_after_other: "tile_of e \<noteq> Some xy \<Longrightarrow> word_after xy p e w = w"
  by (cases e) auto

lemma words_after_other: "\<forall>e \<in> set evs. tile_of e \<noteq> Some xy \<Longrightarrow> fold (word_after xy p) evs w = w"
  by (induction evs) (simp_all add: word_after_other)

lemma reset_vectors_words:
  assumes "c < 4"
  shows "fold (word_after xy (l2cpu_base + 8 * int c)) (reset_vectors xy addr) w = Some (addr mod 2 ^ 32)"
    "fold (word_after xy (l2cpu_base + 8 * int c + 4)) (reset_vectors xy addr) w = Some (addr div 2 ^ 32)"
proof -
  consider "c = 0" | "c = 1" | "c = 2" | "c = 3" using assms by linarith
  then show "fold (word_after xy (l2cpu_base + 8 * int c)) (reset_vectors xy addr) w = Some (addr mod 2 ^ 32)"
    "fold (word_after xy (l2cpu_base + 8 * int c + 4)) (reset_vectors xy addr) w = Some (addr div 2 ^ 32)"
    by (cases; simp add: reset_vectors_def)+
qed

lemma load_tile_events:
  assumes "load_tile env a idx l = Inr evs"
  obtains xy addr bytes rest where "boot_tile_mapping l = Some xy" "image env (opensbi_dst a ! idx) (opensbi_bin a) = Inr (addr, bytes)"
    "evs = rest @ reset_vectors xy addr" "Noc_Write xy addr bytes \<in> set rest" "\<forall>e \<in> set evs. tile_of e = Some xy"
proof -
  obtain xy addr bytes rootfs kernel dtb t where e: "boot_tile_mapping l = Some xy"
    "image env (opensbi_dst a ! idx) (opensbi_bin a) = Inr (addr, bytes)"
    "evs = ([Noc_Write32 xy (L3_REG_BASE + 8) 0xf, Noc_Read32 xy (L3_REG_BASE + 8), Noc_Write xy addr bytes]
            @ block_write xy rootfs @ block_write xy kernel @ [Noc_Write xy (fst dtb) t]) @ reset_vectors xy addr"
    using assms by (auto simp: load_tile_def map_at_def bindR_Inr_iff split: option.splits)
  have "\<forall>e \<in> set evs. tile_of e = Some xy"
    unfolding e(3) by (auto simp: block_write_def reset_vectors_def split: option.splits)
  then show thesis by (intro that [OF e]) simp_all
qed

lemma boot_tiles_differ: "boot_tile_mapping l = Some xy \<Longrightarrow> boot_tile_mapping l' = Some xy \<Longrightarrow> l = l'"
  by (auto simp: boot_tile_mapping_def split: if_splits)

text \<open>The script's table is the tool's.\<close>

lemma boot_tile_mapping_eq: "boot_tile_mapping = l2cpu_tile_mapping"
  by (simp add: boot_tile_mapping_def l2cpu_tile_mapping_def)

text \<open>A tile that has been loaded: its cores start at the OpenSBI image.\<close>

definition tile_loaded :: "boot_env \<Rightarrow> boot_args \<Rightarrow> chip_event list \<Rightarrow> nat \<Rightarrow> int \<Rightarrow> bool" where
  "tile_loaded env a evs idx l \<longleftrightarrow>
     (\<exists>xy addr bytes. boot_tile_mapping l = Some xy \<and> py_int16 (opensbi_dst a ! idx) = Inr addr
        \<and> read_bin_file env (opensbi_bin a) = Inr bytes \<and> Noc_Write xy addr bytes \<in> set evs
        \<and> (\<forall>c < 4. word_at evs xy (l2cpu_base + 8 * int c) = Some (addr mod 2 ^ 32)
             \<and> word_at evs xy (l2cpu_base + 8 * int c + 4) = Some (addr div 2 ^ 32)))"

lemma load_tiles_loaded:
  "load_tiles env a its = (evs, Inr ()) \<Longrightarrow> distinct (map snd its) \<Longrightarrow>
     (\<forall>(idx, l) \<in> set its. tile_loaded env a (pre @ evs) idx l)
     \<and> (\<forall>e \<in> set evs. \<exists>l \<in> set (map snd its). \<exists>xy. tile_of e = Some xy \<and> boot_tile_mapping l = Some xy)"
proof (induction its arbitrary: evs pre)
  case Nil
  then show ?case by simp
next
  case (Cons it its)
  obtain idx l where it: "it = (idx, l)" by (cases it)
  obtain evs1 evs2 where e: "load_tile env a idx l = Inr evs1" "load_tiles env a its = (evs2, Inr ())" "evs = evs1 @ evs2"
    using Cons.prems(1) by (auto simp: it split: sum.splits prod.splits)
  obtain xy addr bytes rest where t: "boot_tile_mapping l = Some xy"
    "image env (opensbi_dst a ! idx) (opensbi_bin a) = Inr (addr, bytes)" "evs1 = rest @ reset_vectors xy addr"
    "Noc_Write xy addr bytes \<in> set rest" "\<forall>e \<in> set evs1. tile_of e = Some xy"
    by (rule load_tile_events [OF e(1)])
  note ih = Cons.IH [OF e(2), of "pre @ evs1"]
  have "tile_of e \<noteq> Some xy" if "e \<in> set evs2" for e
    using that ih Cons.prems(2) boot_tiles_differ [OF t(1)] by (fastforce simp: it)
  then have "word_at (pre @ evs) xy p = fold (word_after xy p) (reset_vectors xy addr) (word_at (pre @ rest) xy p)" for p
    unfolding e(3) t(3) word_at_def using words_after_other [of evs2 xy p] by simp
  then have "tile_loaded env a (pre @ evs) idx l"
    using t e(3) reset_vectors_words by (auto simp: tile_loaded_def image_def bindR_Inr_iff)
  then show ?case using ih Cons.prems(2) t(1,5) by (auto simp: it e(3))
qed

lemma check_harvested_ok:
  "check_harvested env ls = Inr () \<Longrightarrow> l \<in> set ls \<Longrightarrow>
     bit (enabled_l2cpu env) (nat l) \<and> (\<exists>b. l2cpu_gddr_enable_bit_mapping l = Some b \<and> bit (enabled_gddr env) b)"
  by (induction ls) (auto simp: bindR_Inr_iff res_simps map_at_def split: option.splits)

lemma reset_bits:
  fixes v :: u32
  assumes "\<forall>l \<in> set ls. 0 \<le> l \<and> l < 4" "n < 32"
  shows "bit (fold (\<lambda>l v. v OR push_bit (nat (l + 4)) 1) ls v) n \<longleftrightarrow> bit v n \<or> (\<exists>l \<in> set ls. n = nat l + 4)"
  using assms
proof (induction ls arbitrary: v)
  case (Cons l ls)
  have "bit (push_bit (nat (l + 4)) (1 :: u32)) n \<longleftrightarrow> n = nat l + 4"
    using Cons.prems by (auto simp: bit_exp_iff nat_add_distrib)
  then show ?case using Cons by (auto simp: bit_or_iff)
qed simp

lemma pll_returns:
  "set_l2cpu_pll 200 r5 r1 = Some (Inr (ramp 128 [15, 15, 15, 15] (cntl5_of_raw r5) (cntl1_of_raw r1)))"
  "set_l2cpu_pll 1750 r5 r1 = Some (Inr (ramp target_fbdiv target_postdiv (cntl5_of_raw r5) (cntl1_of_raw r1)))"
  by (rule set_l2cpu_pll_eq; simp add: solutions_def target_fbdiv_def target_postdiv_def)+

text \<open>C26: the boot script releases no tile before it is loaded. When it returns with \<open>--boot\<close>, the tiles in the
  list are not harvested; it has first loaded each of them, so that all four cores will start at its
  OpenSBI image, without touching the reset register; it has then brought the clock down to 200 MHz by the
  ramp of the tool, released exactly the tiles of the list by one write, brought the clock up again and
  only then set the prefetchers.\<close>

theorem boot_releases_loaded_tiles:
  assumes run: "boot_main env a = Some (evs, Inr ())" and "boot a" and dist: "distinct (l2cpus a)"
  shows "\<exists>load slow fast pre v.
     evs = Board_Reset # load @ map Pll_Write slow @ [Axi_Read32 L2CPU_RESET, Axi_Write32 L2CPU_RESET v, Axi_Read32 L2CPU_RESET]
            @ map Pll_Write fast @ pre
     \<and> (\<forall>e \<in> set load. \<exists>l \<in> set (l2cpus a). tile_of e = l2cpu_tile_mapping l \<and> tile_of e \<noteq> None)
     \<and> (\<forall>i < length (l2cpus a). tile_loaded env a load i (l2cpus a ! i))
     \<and> (\<forall>l \<in> set (l2cpus a). bit (enabled_l2cpu env) (nat l)
          \<and> (\<exists>b. l2cpu_gddr_enable_bit_mapping l = Some b \<and> bit (enabled_gddr env) b))
     \<and> (\<forall>n < 32. bit v n \<longleftrightarrow> bit (reset_val env) n \<or> (\<exists>l \<in> set (l2cpus a). n = nat l + 4))
     \<and> slow = ramp 128 [15, 15, 15, 15] (cntl5_of_raw (fst (pll_before env))) (cntl1_of_raw (snd (pll_before env)))
     \<and> fast = ramp target_fbdiv target_postdiv (cntl5_of_raw (fst (pll_after env))) (cntl1_of_raw (snd (pll_after env)))
     \<and> set_prefetchers (l2cpus a) = Inr pre"
proof -
  have args: "parse_args a = Inr ()" and harv: "check_harvested env (l2cpus a) = Inr ()"
    using run by (auto simp: boot_main_def split: sum.splits prod.splits)
  have range: "\<forall>l \<in> set (l2cpus a). 0 \<le> l \<and> l < 4" using args by (auto simp: parse_args_def bindR_Inr_iff res_simps)
  obtain load where load: "load_tiles env a (enumerate 0 (l2cpus a)) = (load, Inr ())"
    using run args harv by (auto simp: boot_main_def split: sum.splits prod.splits)
  define v where "v = fold (\<lambda>l v. v OR push_bit (nat (l + 4)) 1) (l2cpus a) (reset_val env)"
  define slow where "slow = ramp 128 [15, 15, 15, 15] (cntl5_of_raw (fst (pll_before env))) (cntl1_of_raw (snd (pll_before env)))"
  define fast where "fast = ramp target_fbdiv target_postdiv (cntl5_of_raw (fst (pll_after env))) (cntl1_of_raw (snd (pll_after env)))"
  obtain pre where pre: "set_prefetchers (l2cpus a) = Inr pre"
    and evs: "evs = Board_Reset # load @ map Pll_Write slow @ [Axi_Read32 L2CPU_RESET, Axi_Write32 L2CPU_RESET v, Axi_Read32 L2CPU_RESET]
            @ map Pll_Write fast @ pre"
    using run args harv load assms(2)
    by (auto simp: boot_main_def reset_x280_def pll_returns finish_boot_def v_def slow_def fast_def split: sum.splits)
  have d: "distinct (map snd (enumerate 0 (l2cpus a)))" "set (map snd (enumerate 0 (l2cpus a))) = set (l2cpus a)"
    using dist by (simp_all add: enumerate_eq_zip)
  note tiles = load_tiles_loaded [OF load d(1), of "[]", unfolded d(2)]
  have "tile_loaded env a load i (l2cpus a ! i)" if "i < length (l2cpus a)" for i
  proof -
    have "(i, l2cpus a ! i) \<in> set (enumerate 0 (l2cpus a))" using that by (auto simp: in_set_enumerate_eq)
    then show ?thesis using tiles by auto
  qed
  moreover have "\<forall>e \<in> set load. \<exists>l \<in> set (l2cpus a). tile_of e = l2cpu_tile_mapping l \<and> tile_of e \<noteq> None"
    using tiles unfolding boot_tile_mapping_eq by (metis option.distinct(1))
  moreover have "bit v n \<longleftrightarrow> bit (reset_val env) n \<or> (\<exists>l \<in> set (l2cpus a). n = nat l + 4)" if "n < 32" for n
    unfolding v_def by (rule reset_bits [OF range that])
  ultimately show ?thesis
    using evs pre check_harvested_ok [OF harv] unfolding slow_def fast_def
    by (intro exI [of _ load] exI [of _ slow] exI [of _ fast] exI [of _ pre] exI [of _ v]) (auto simp: slow_def fast_def)
qed

definition sample_boot_args :: boot_args where
  "sample_boot_args =
     \<lparr>boot = True, l2cpus = [0, 3], boot_device = ''vda'', dt_no_virtio_devices = False, extra_bootargs = '''',
      rootfs_bin = None, rootfs_dst = [''0x0'', ''0x0''], opensbi_bin = ''fw'',
      opensbi_dst = [''0x400030000000'', ''4000b0000000''], kernel_bin = Some ''image'', kernel_dst = Some [''0x400030200000'', ''4000b0200000''],
      dtb_bin = Some [''dtb'', ''dtb''], dtb_dst = Some [''0x400030100000'', ''4000b0100000'']\<rparr>"

definition sample_boot_env :: boot_env where
  "sample_boot_env =
     \<lparr>files = (\<lambda>p. Some [1, 2, 3]), enabled_l2cpu = 9, enabled_gddr = 160,
      fdt = (\<lambda>_. \<lparr>has_chosen = True, has_memory = True,
                 memory_reg = Some (rev (bytes64 0x400030000000) @ rev (bytes64 0x100000000)),
                 has_reserved = False, has_soc = True, has_plic = True, plic_phandle = 0, max_phandle = 7\<rparr>),
      fdt_edit = (\<lambda>dtb es. Some dtb), reset_val = 0, pll_before = (0, 0), pll_after = (0, 0)\<rparr>"

lemma sample_addresses:
  "py_int16 ''0x400030000000'' = Inr 0x400030000000" "py_int16 ''4000b0000000'' = Inr 0x4000b0000000"
  "py_int16 ''0x400030200000'' = Inr 0x400030200000" "py_int16 ''4000b0200000'' = Inr 0x4000b0200000"
  "py_int16 ''0x400030100000'' = Inr 0x400030100000" "py_int16 ''4000b0100000'' = Inr 0x4000b0100000"
  by (simp_all add: py_int16_def py_space_def is_space_def hex_digit_def Let_def)

lemma sample_tree:
  "snd (patch_tree sample_boot_args (fdt sample_boot_env dtb) (Inr str)) = Inr ()"
proof -
  have "pack_QQ 0x400030000000 0x100000000 = Inr (rev (bytes64 0x400030000000) @ rev (bytes64 0x100000000))"
    by (simp add: pack_QQ_def)
  then have "unpack_QQ (rev (bytes64 0x400030000000) @ rev (bytes64 0x100000000)) = Inr (0x400030000000, 0x100000000)"
    by (rule unpack_pack)
  then show ?thesis
    by (simp add: patch_tree_def sample_boot_args_def sample_boot_env_def patch_virtio_def Let_def pack_QQ_def virtio_node_def)
qed

lemma sample_loads:
  "idx < 2 \<Longrightarrow> l \<in> {0, 3} \<Longrightarrow> \<exists>evs. load_tile sample_boot_env sample_boot_args idx l = Inr evs"
proof -
  assume idx: "idx < 2" and l: "l \<in> {0, 3}"
  obtain xy where xy: "boot_tile_mapping l = Some xy" using l by (auto simp: boot_tile_mapping_def)
  have tree: "patched sample_boot_env dtb (patch_tree sample_boot_args (fdt sample_boot_env dtb) (Inr str)) = Inr dtb" for dtb str
    using sample_tree by (simp add: patched_def) (simp add: sample_boot_env_def)
  have pad: "read_bin_file sample_boot_env p = Inr [1, 2, 3, 0]" for p
    by (simp add: read_bin_file_def sample_boot_env_def)
  have fields: "rootfs_bin sample_boot_args = None" "opensbi_dst sample_boot_args = [''0x400030000000'', ''4000b0000000'']"
    "kernel_bin sample_boot_args = Some ''image''" "kernel_dst sample_boot_args = Some [''0x400030200000'', ''4000b0200000'']"
    "dtb_bin sample_boot_args = Some [''dtb'', ''dtb'']" "dtb_dst sample_boot_args = Some [''0x400030100000'', ''4000b0100000'']"
    "boot_device sample_boot_args = ''vda''"
    by (simp_all add: sample_boot_args_def)
  have "idx = 0 \<or> idx = 1" using idx by linarith
  then show ?thesis
    by (elim disjE) (simp_all add: load_tile_def map_at_def xy image_def pad rootfs_image_def kernel_image_def dtb_image_def
        bootargs_def tree sample_addresses fields Let_def)
qed

theorem boot_releases_loaded_tiles_witness:
  "\<exists>evs load rest. boot_main sample_boot_env sample_boot_args = Some (evs, Inr ()) \<and> evs = Board_Reset # load @ rest
     \<and> word_at load (8, 3) l2cpu_base = Some 0x30000000 \<and> word_at load (8, 7) (l2cpu_base + 4) = Some 0x4000"
proof -
  have ls: "l2cpus sample_boot_args = [0, 3]" "boot sample_boot_args" "opensbi_dst sample_boot_args ! 0 = ''0x400030000000''"
    "opensbi_dst sample_boot_args ! 1 = ''4000b0000000''"
    by (simp_all add: sample_boot_args_def)
  obtain e0 e1 where l: "load_tile sample_boot_env sample_boot_args 0 0 = Inr e0"
    "load_tile sample_boot_env sample_boot_args 1 3 = Inr e1"
    using sample_loads [of 0 0] sample_loads [of 1 3] by auto
  have "parse_args sample_boot_args = Inr ()" by (simp add: parse_args_def sample_boot_args_def)
  moreover have "check_harvested sample_boot_env [0, 3] = Inr ()"
    by (simp add: check_harvested.simps map_at_def l2cpu_gddr_enable_bit_mapping_def sample_boot_env_def bit_iff_odd)
  moreover have "load_tiles sample_boot_env sample_boot_args (enumerate 0 [0, 3]) = (e0 @ e1, Inr ())"
    using l by simp
  moreover have "\<exists>pre. set_prefetchers [0, 3] = Inr pre" by (simp add: map_at_def boot_tile_mapping_def)
  moreover have "\<exists>revs. reset_x280 sample_boot_env [0, 3] = Some (revs, Inr ())"
    by (simp add: reset_x280_def pll_returns Let_def)
  ultimately obtain evs where run: "boot_main sample_boot_env sample_boot_args = Some (evs, Inr ())"
    by (auto simp: boot_main_def ls finish_boot_def)
  obtain load rest where e: "evs = Board_Reset # load @ rest"
    "\<forall>i < length (l2cpus sample_boot_args). tile_loaded sample_boot_env sample_boot_args load i (l2cpus sample_boot_args ! i)"
    using boot_releases_loaded_tiles [OF run ls(2)] ls(1) by auto
  have "tile_loaded sample_boot_env sample_boot_args load 0 0" "tile_loaded sample_boot_env sample_boot_args load 1 3"
    using e(2) ls(1) by (auto dest: spec [of _ 0] spec [of _ "1 :: nat"])
  then have "word_at load (8, 3) l2cpu_base = Some 0x30000000" "word_at load (8, 7) (l2cpu_base + 4) = Some 0x4000"
    unfolding tile_loaded_def ls sample_addresses
    by (auto simp: boot_tile_mapping_def dest!: spec [of _ "0 :: nat"])
  then show ?thesis using run e(1) by blast
qed

section \<open>The devices in the tree are the tool's\<close>

lemma virtio_nodes_events:
  "virtio_nodes e ph is = (es, Inr ()) \<Longrightarrow> i \<in> set is \<Longrightarrow>
     \<exists>es'. virtio_node e ph i = (es', Inr ()) \<and> set es' \<subseteq> set es"
  by (induction "is" arbitrary: es) (fastforce split: prod.splits sum.splits)+

lemma virtio_node_props:
  assumes "virtio_node e ph i = (es, Inr ())"
  defines "addr \<equiv> e - 0x200000 * (i + 1)"
  obtains r where "pack_QQ addr 0x200000 = Inr r" "Set_Prop (''/soc/virtio@'' @ py_hex addr) ''reg'' r \<in> set es"
    "Set_Prop (''/soc/virtio@'' @ py_hex addr) ''interrupts'' (cell (word_of_int (33 - i))) \<in> set es"
  using assms(1) unfolding virtio_node_def Let_def addr_def [symmetric]
  by (auto split: sum.splits)

lemma patch_tree_virtio:
  assumes "patch_tree a t args = (es, Inr ())" "\<not> dt_no_virtio_devices a"
  obtains reg mem_start mem_size rr ph where "memory_reg t = Some reg" "unpack_QQ reg = Inr (mem_start, mem_size)"
    "pack_QQ (mem_start + mem_size - 0x600000) 0x600000 = Inr rr"
    "Set_Prop ''/reserved-memory/memory@4000afa00000'' ''reg'' rr \<in> set es"
    "\<exists>es'. virtio_nodes (mem_start + mem_size) ph [3, 2, 1, 0] = (es', Inr ()) \<and> set es' \<subseteq> set es"
proof -
  have "\<exists>es1. patch_virtio t = (es1, Inr ()) \<and> set es1 \<subseteq> set es"
    using assms by (auto simp: patch_tree_def Let_def split: if_splits prod.splits sum.splits)
  then obtain es1 where p: "patch_virtio t = (es1, Inr ())" "set es1 \<subseteq> set es" by blast
  then obtain reg mem_start mem_size where r: "memory_reg t = Some reg" "unpack_QQ reg = Inr (mem_start, mem_size)"
    by (auto simp: patch_virtio_def split: sum.splits option.splits)
  then obtain rr where rr: "pack_QQ (mem_start + mem_size - 0x600000) 0x600000 = Inr rr"
    using p(1) by (auto simp: patch_virtio_def Let_def split: sum.splits)
  define ph where "ph = (if plic_phandle t = 0 then max_phandle t + 1 else plic_phandle t)"
  have soc: "has_soc t \<and> has_plic t" using p(1) r rr by (auto simp: patch_virtio_def Let_def split: if_splits)
  obtain es2 res where n: "virtio_nodes (mem_start + mem_size) ph [3, 2, 1, 0] = (es2, res)"
    by (cases "virtio_nodes (mem_start + mem_size) ph [3, 2, 1, 0]")
  have "res = Inr ()" "set es2 \<subseteq> set es1" "Set_Prop ''/reserved-memory/memory@4000afa00000'' ''reg'' rr \<in> set es1"
    using p(1) soc n unfolding patch_virtio_def r(1) option.case bindR_simps r(2) sum.case prod.case Let_def rr ph_def [symmetric]
    by auto
  then show thesis using n p(2) by (intro that [OF r rr]) auto
qed

text \<open>C27: the device tree announces the tool's devices. When the script has patched a tree whose memory node
  gives the memory that the tool uses, then for every device the tool starts the tree has a node with
  exactly the address of the device's register window, 2 MiB of it, and the device's interrupt, and the
  range the script reserves holds the window. A fourth node, with interrupt 30, has no device behind it, and
  its registers lie outside the reserved range, in memory that Linux uses as its own.\<close>

theorem boot_tree_announces_devices:
  assumes new: "L2CPU_new env N idx cardno = (evs, Inr (c, N'))" and run: "tool_main os = Inr ts"
    and tree: "patch_tree a t args = (es, Inr ())" "\<not> dt_no_virtio_devices a"
    and mem: "memory_reg t = Some reg" "unpack_QQ reg = Inr (mem_start, mem_size)"
      "mem_start + mem_size = int (unat (starting_address c) + unat (memory_size c))"
  shows "\<exists>rr s. Set_Prop ''/reserved-memory/memory@4000afa00000'' ''reg'' rr \<in> set es \<and> unpack_QQ rr = Inr (int s, 0x600000)
     \<and> (\<forall>(i, off) \<in> set (devices ts). device_window c off \<subseteq> span s 0x600000
          \<and> (\<exists>r. unpack_QQ r = Inr (uint (mmio_address c off), 0x200000)
               \<and> Set_Prop (''/soc/virtio@'' @ py_hex (uint (mmio_address c off))) ''reg'' r \<in> set es
               \<and> Set_Prop (''/soc/virtio@'' @ py_hex (uint (mmio_address c off))) ''interrupts'' (cell (of_nat i)) \<in> set es))
     \<and> (\<exists>r. unpack_QQ r = Inr (int s - 0x200000, 0x200000)
          \<and> Set_Prop (''/soc/virtio@'' @ py_hex (int s - 0x200000)) ''reg'' r \<in> set es
          \<and> Set_Prop (''/soc/virtio@'' @ py_hex (int s - 0x200000)) ''interrupts'' (cell 30) \<in> set es)
     \<and> 30 \<notin> fst ` set (devices ts)"
proof -
  define e where "e = unat (starting_address c) + unat (memory_size c)"
  have e: "0x800000 \<le> e" using tile_memory [OF new] by (auto simp: e_def)
  have sub: "set (devices ts) \<subseteq> {(33, 0x200000), (32, 0x400000), (31, 0x600000)}"
    using run by (auto simp: tool_main_def bindR_Inr_iff main_threads_def devices_def split: if_splits)
  obtain rr ph es' where rr: "pack_QQ (int e - 0x600000) 0x600000 = Inr rr"
      "Set_Prop ''/reserved-memory/memory@4000afa00000'' ''reg'' rr \<in> set es"
    and nodes: "virtio_nodes (int e) ph [3, 2, 1, 0] = (es', Inr ())" "set es' \<subseteq> set es"
    by (rule patch_tree_virtio [OF tree]) (use mem in \<open>auto simp: e_def\<close>)
  have node: "\<exists>r. unpack_QQ r = Inr (int e - 0x200000 * (i + 1), 0x200000)
       \<and> Set_Prop (''/soc/virtio@'' @ py_hex (int e - 0x200000 * (i + 1))) ''reg'' r \<in> set es
       \<and> Set_Prop (''/soc/virtio@'' @ py_hex (int e - 0x200000 * (i + 1))) ''interrupts'' (cell (word_of_int (33 - i))) \<in> set es"
    if i: "i \<in> {0, 1, 2, 3}" for i
  proof -
    obtain es1 where n: "virtio_node (int e) ph i = (es1, Inr ())" "set es1 \<subseteq> set es'"
      using virtio_nodes_events [OF nodes(1), of i] i by auto
    obtain r where r: "pack_QQ (int e - 0x200000 * (i + 1)) 0x200000 = Inr r"
      "Set_Prop (''/soc/virtio@'' @ py_hex (int e - 0x200000 * (i + 1))) ''reg'' r \<in> set es1"
      "Set_Prop (''/soc/virtio@'' @ py_hex (int e - 0x200000 * (i + 1))) ''interrupts'' (cell (word_of_int (33 - i))) \<in> set es1"
      by (rule virtio_node_props [OF n(1)])
    show ?thesis by (rule exI [of _ r], intro conjI unpack_pack [OF r(1)]) (use r(2,3) n(2) nodes(2) in blast)+
  qed
  define s where "s = e - 0x600000"
  have s: "int s = int e - 0x600000" using e by (simp add: s_def)
  have device: "device_window c off \<subseteq> span s 0x600000
      \<and> (\<exists>r. unpack_QQ r = Inr (uint (mmio_address c off), 0x200000)
           \<and> Set_Prop (''/soc/virtio@'' @ py_hex (uint (mmio_address c off))) ''reg'' r \<in> set es
           \<and> Set_Prop (''/soc/virtio@'' @ py_hex (uint (mmio_address c off))) ''interrupts'' (cell (of_nat i)) \<in> set es)"
    if d: "(i, off) \<in> set (devices ts)" for i off
  proof -
    have cs: "(i, off) \<in> {(33, 0x200000), (32, 0x400000), (31, 0x600000)}" using sub d by blast
    then have off: "off \<in> {0x200000, 0x400000, 0x600000}" by auto
    have nat: "unat (mmio_address c off) = e - unat off" using mmio_address_value(1) [OF new off] by (simp add: e_def)
    have "uint (mmio_address c off) = int (unat (mmio_address c off))" by simp
    then have a: "uint (mmio_address c off) = int e - int (unat off)" using nat cs e by (auto simp: of_nat_diff)
    have "device_window c off \<subseteq> span s 0x600000" using cs e by (auto simp: device_window_def nat s_def span_def)
    then show ?thesis using cs node [of 0] node [of 1] node [of 2] by (auto simp: a)
  qed
  have eq: "int e - 0x200000 * (3 + 1) = int s - 0x200000" using s by simp
  have fourth: "\<exists>r. unpack_QQ r = Inr (int s - 0x200000, 0x200000)
       \<and> Set_Prop (''/soc/virtio@'' @ py_hex (int s - 0x200000)) ''reg'' r \<in> set es
       \<and> Set_Prop (''/soc/virtio@'' @ py_hex (int s - 0x200000)) ''interrupts'' (cell 30) \<in> set es"
    using node [of 3, unfolded eq] by simp
  have "30 \<notin> fst ` set (devices ts)" using sub by force
  moreover have "unpack_QQ rr = Inr (int s, 0x600000)" using unpack_pack [OF rr(1)] s by simp
  ultimately show ?thesis using rr(2) device fourth by (intro exI [of _ rr] exI [of _ s]) blast
qed

theorem boot_tree_announces_devices_witness:
  "\<exists>evs c N' es rr s. L2CPU_new sample_env (\<lambda>_ _ _. 0) 0 0 = (evs, Inr (c, N'))
     \<and> patch_tree sample_boot_args (fdt sample_boot_env []) (Inr []) = (es, Inr ())
     \<and> Set_Prop ''/reserved-memory/memory@4000afa00000'' ''reg'' rr \<in> set es \<and> unpack_QQ rr = Inr (int s, 0x600000)
     \<and> device_window c 0x200000 \<subseteq> span s 0x600000"
proof -
  obtain evs c N' where new: "L2CPU_new sample_env (\<lambda>_ _ _. 0) 0 0 = (evs, Inr (c, N'))"
    using sample_l2cpu_tile [of 0 "\<lambda>_ _ _. 0"] by auto
  have c: "starting_address c = 0x400030000000" "memory_size c = 0x100000000"
    using new by (auto elim!: L2CPU_new_Inr simp: l2cpu_starting_address_mapping_def l2cpu_memory_size_mapping_def)
  have run: "tool_main [] = Inr (main_threads default_options)" by (simp add: tool_main_def default_options_def)
  obtain es where tree: "patch_tree sample_boot_args (fdt sample_boot_env []) (Inr []) = (es, Inr ())"
    using sample_tree by (metis prod.collapse)
  have mem: "memory_reg (fdt sample_boot_env []) = Some (rev (bytes64 0x400030000000) @ rev (bytes64 0x100000000))"
    "\<not> dt_no_virtio_devices sample_boot_args" by (simp_all add: sample_boot_env_def sample_boot_args_def)
  have "pack_QQ 0x400030000000 0x100000000 = Inr (rev (bytes64 0x400030000000) @ rev (bytes64 0x100000000))"
    by (simp add: pack_QQ_def)
  from boot_tree_announces_devices [OF new run tree mem(2,1) unpack_pack [OF this]]
  obtain rr s where "Set_Prop ''/reserved-memory/memory@4000afa00000'' ''reg'' rr \<in> set es" "unpack_QQ rr = Inr (int s, 0x600000)"
    "\<forall>(i, off) \<in> set (devices (main_threads default_options)). device_window c off \<subseteq> span s 0x600000"
    by (fastforce simp: c)
  moreover have "(33, 0x200000) \<in> set (devices (main_threads default_options))" by (simp add: devices_def main_threads_def)
  ultimately show ?thesis using new tree by blast
qed

end
