(* ===== verification/Hardware_Tests.thy ===== *)
theory Hardware_Tests
  imports L2cpu
begin

text \<open>
  The tests that the repository runs on a card (\<^verbatim>\<open>console/test.cpp\<close>), as functions of the chip: each
  constructs its tiles, reads words at random addresses and asserts. The random numbers and the
  kernel's answers are arguments. A test returns the chip as it leaves it (the constructors ramp the
  clock) or the fault that ends the process; the releases of windows are as for the class and not
  repeated here.
\<close>

section \<open>The tests\<close>

definition read32 :: "L2CPU \<Rightarrow> kmd_reply \<Rightarrow> noc \<Rightarrow> u64 \<Rightarrow> u32 res" where
  "read32 c k N a = snd (L2CPU_read32 c k N a)"

definition with_l2cpu :: "l2cpu_env \<Rightarrow> noc \<Rightarrow> int \<Rightarrow> (L2CPU \<Rightarrow> noc \<Rightarrow> noc res) \<Rightarrow> noc res" where
  "with_l2cpu env N i body = bindR (snd (L2CPU_new env N i 0)) (\<lambda>(c, N'). body c N')"

text \<open>One loop over random addresses, each aligned down to four bytes.\<close>

fun for_draws :: "(u64 \<Rightarrow> unit res) \<Rightarrow> u64 list \<Rightarrow> unit res" where
  "for_draws check [] = Inr ()"
| "for_draws check (a # as) = bindR (check (a - a mod 4)) (\<lambda>_. for_draws check as)"

fun for_tiles :: "(int \<Rightarrow> noc \<Rightarrow> noc res) \<Rightarrow> int list \<Rightarrow> noc \<Rightarrow> noc res" where
  "for_tiles test [] N = Inr N"
| "for_tiles test (i # is) N = bindR (test i N) (for_tiles test is)"

text \<open>Two reads that must give the same word.\<close>

definition reads_agree :: "L2CPU \<Rightarrow> u64 \<Rightarrow> L2CPU \<Rightarrow> u64 \<Rightarrow> kmd_reply \<Rightarrow> noc \<Rightarrow> u64 \<Rightarrow> unit res" where
  "reads_agree c a c' a' k N r =
     bindR (read32 c k N (a + r)) (\<lambda>v. bindR (read32 c' k N (a' + r)) (\<lambda>w. require Assert_Failed (v = w)))"

definition TestL2CPU23SharedMemoryTile :: "l2cpu_env \<Rightarrow> kmd_reply \<Rightarrow> u64 list \<Rightarrow> noc \<Rightarrow> noc res" where
  "TestL2CPU23SharedMemoryTile env k draws N =
     with_l2cpu env N 2 (\<lambda>two N1. with_l2cpu env N1 3 (\<lambda>three N2.
       bindR (for_draws (reads_agree two 0x400030000000 three 0x400030000000 k N2) draws) (\<lambda>_. Inr N2)))"

definition NODEID :: u64 where
  "NODEID = 0xfffff7fefff56000 + 0x44"

definition TestL2CPUNocNodeID :: "l2cpu_env \<Rightarrow> kmd_reply \<Rightarrow> noc \<Rightarrow> noc res" where
  "TestL2CPUNocNodeID env k =
     for_tiles (\<lambda>i N. with_l2cpu env N i (\<lambda>c N'.
       bindR (read32 c k N' NODEID) (\<lambda>nodeid.
       bindR (require Assert_Failed (nodeid AND 63 = ucast (fst (get_coordinates c)))) (\<lambda>_.
       bindR (require Assert_Failed (drop_bit 6 nodeid AND 63 = ucast (snd (get_coordinates c)))) (\<lambda>_.
         Inr N'))))) [0, 1, 2, 3]"

definition pointer_agrees :: "L2CPU \<Rightarrow> kmd_reply \<Rightarrow> noc \<Rightarrow> u64 \<Rightarrow> unit res" where
  "pointer_agrees c k N r =
     bindR (read32 c k N (get_starting_address c + r)) (\<lambda>v.
     bindR (ld32 (2 ^ 33) (l2cpu_mem N c) (unat (get_memory_ptr c - l2_memory c + r))) (\<lambda>w.
       require Assert_Failed (v = w)))"

definition TestMemoryPtr :: "l2cpu_env \<Rightarrow> kmd_reply \<Rightarrow> (int \<Rightarrow> u64 list) \<Rightarrow> noc \<Rightarrow> noc res" where
  "TestMemoryPtr env k draws =
     for_tiles (\<lambda>i N. with_l2cpu env N i (\<lambda>c N'.
       bindR (for_draws (pointer_agrees c k N') (draws i)) (\<lambda>_. Inr N'))) [0, 1, 2, 3]"

definition TestMemoryWrapAround :: "l2cpu_env \<Rightarrow> kmd_reply \<Rightarrow> u64 list \<Rightarrow> noc \<Rightarrow> noc res" where
  "TestMemoryWrapAround env k draws N =
     with_l2cpu env N 0 (\<lambda>c N'.
       bindR (for_draws (reads_agree c 0x400030000000 c 0x400130000000 k N') draws) (\<lambda>_. Inr N'))"

definition test_main ::
  "l2cpu_env \<Rightarrow> kmd_reply \<Rightarrow> u64 list \<Rightarrow> (int \<Rightarrow> u64 list) \<Rightarrow> u64 list \<Rightarrow> noc \<Rightarrow> noc res" where
  "test_main env k draws23 drawsp drawsw N =
     bindR (TestL2CPU23SharedMemoryTile env k draws23 N) (\<lambda>N1.
     bindR (TestL2CPUNocNodeID env k N1) (\<lambda>N2.
     bindR (TestMemoryPtr env k drawsp N2) (\<lambda>N3.
       TestMemoryWrapAround env k drawsw N3)))"

section \<open>What the card must be like\<close>

text \<open>What the comments of the tests say of the hardware: tiles 2 and 3 share a memory, the memory of
  tile 0 appears again 4 GiB further on, and the NOC node identifier of a tile holds its coordinates.\<close>

definition shared_tile :: "noc \<Rightarrow> bool" where
  "shared_tile N \<longleftrightarrow> (\<forall>a \<in> span 0x400030000000 (2 ^ 32 + 4). N 8 5 a = N 8 7 a)"

definition wraps_around :: "noc \<Rightarrow> bool" where
  "wraps_around N \<longleftrightarrow> (\<forall>a \<in> span 0x400030000000 (2 ^ 32 + 4). N 8 3 a = N 8 3 (a + 2 ^ 32))"

definition node_id :: "noc \<Rightarrow> u16 \<times> u16 \<Rightarrow> bool" where
  "node_id N t \<longleftrightarrow>
     (let v = val32 (N (fst t) (snd t)) (unat NODEID)
      in v AND 63 = ucast (fst t) \<and> drop_bit 6 v AND 63 = ucast (snd t))"

definition tiles :: "(u16 \<times> u16) list" where
  "tiles = [(8, 3), (8, 9), (8, 5), (8, 7)]"

definition card_ok :: "noc \<Rightarrow> bool" where
  "card_ok N \<longleftrightarrow> shared_tile N \<and> wraps_around N \<and> (\<forall>t \<in> set tiles. node_id N t)"

lemma same_chip_tiles: "same_chip N N' \<Longrightarrow> t \<in> set tiles \<Longrightarrow> N' (fst t) (snd t) = N (fst t) (snd t)"
  by (rule ext) (auto simp: same_chip_def tiles_def)

lemma card_ok_same: "same_chip N N' \<Longrightarrow> card_ok N \<Longrightarrow> card_ok N'"
  using same_chip_tiles [of N N' "(8, 3)"] same_chip_tiles [of N N' "(8, 5)"] same_chip_tiles [of N N' "(8, 7)"]
    same_chip_tiles [of N N'] 
  by (auto simp: card_ok_def shared_tile_def wraps_around_def node_id_def) (simp_all add: tiles_def)

section \<open>A kernel that grants everything\<close>

definition granted :: "kmd_reply \<Rightarrow> bool" where
  "granted k \<longleftrightarrow> rep_allocate k \<noteq> None \<and> rep_configure k \<and> rep_mmap k \<noteq> None"

definition env_granted :: "l2cpu_env \<Rightarrow> bool" where
  "env_granted env \<longleftrightarrow>
     granted (env_cntl5 env) \<and> granted (env_cntl1 env) \<and> granted (env_first env) \<and> granted (env_second env)"

lemma window_granted: "granted k \<Longrightarrow> \<exists>evs w. TlbWindow_new sz fd x y a b wc k = (evs, Inr w)"
  using sample_window_new [of k] by (auto simp: granted_def)

lemma L2CPU_new_succeeds:
  assumes idx: "idx \<in> {0, 1, 2, 3}" and env: "env_granted env"
  shows "\<exists>evs c N'. L2CPU_new env N idx cardno = (evs, Inr (c, N')) \<and> same_chip N N'
     \<and> coordinates c \<in> set tiles \<and> l2cpu_tile_mapping idx = Some (coordinates c)"
proof -
  have g: "granted (env_cntl5 env)" "granted (env_cntl1 env)" "granted (env_first env)" "granted (env_second env)"
    using env by (simp_all add: env_granted_def)
  obtain e5 w5 where w5: "TlbWindow_new TWO_MEG (env_fd env) 8 0 (PLL4_BASE + PLL_CNTL_5) None False (env_cntl5 env) = (e5, Inr w5)"
    using window_granted [OF g(1)] by blast
  obtain e1 w1 where w1: "TlbWindow_new TWO_MEG (env_fd env) 8 0 (PLL4_BASE + PLL_CNTL_1) None False (env_cntl1 env) = (e1, Inr w1)"
    using window_granted [OF g(2)] by blast
  obtain e0 N' where f: "set_frequency (env_fd env) (env_cntl5 env) (env_cntl1 env) N = (e0, Inr N')" "same_chip N N'"
    using set_frequency_spec [OF w5 w1, of N] by blast
  obtain x y st sz where t: "l2cpu_tile_mapping idx = Some (x, y)" "(x, y) \<in> set tiles"
    "l2cpu_starting_address_mapping idx = Some st" "l2cpu_memory_size_mapping idx = Some sz"
    using idx tables_at by (auto simp: tiles_def)
  obtain e2 v2 where v2: "TlbWindow_new FOUR_GIG (env_fd env) x y 0x400000000000 (Some (env_reserve env)) True (env_first env) = (e2, Inr v2)"
    using window_granted [OF g(3)] by blast
  obtain e3 v3 where v3: "TlbWindow_new FOUR_GIG (env_fd env) x y 0x400100000000 (Some (env_reserve env + 0x100000000)) True (env_second env) = (e3, Inr v3)"
    using window_granted [OF g(4)] by blast
  have "0 \<le> idx" "idx < 4" using idx by auto
  then show ?thesis
    using f t by (auto simp: L2CPU_new_def Let_def map_at_def v2 v3)
qed

lemma read32_granted:
  assumes "granted k" "4 dvd unat a"
  shows "read32 c k M a = Inr (val32 (M (fst (coordinates c)) (snd (coordinates c))) (unat a))"
proof -
  obtain e w where w: "get_persistent_2M_tlb_window c a k = (e, Inr w)"
    unfolding get_persistent_2M_tlb_window_def using window_granted [OF assms(1)] by blast
  then show ?thesis
    using two_meg_window(1) [OF w [unfolded get_persistent_2M_tlb_window_def] assms(2), of M]
    by (simp add: read32_def L2CPU_read32_def)
qed

lemma aligned_draw: "4 dvd unat (a - a mod 4 :: u64)" "unat (a - a mod 4 :: u64) \<le> unat a"
proof -
  have "a mod 4 \<le> a" by (simp add: word_le_nat_alt unat_mod)
  then have "unat (a - a mod 4) = unat a - unat a mod 4" by (simp add: unat_sub unat_mod)
  then show "4 dvd unat (a - a mod 4 :: u64)" "unat (a - a mod 4 :: u64) \<le> unat a"
    by (simp_all add: minus_mod_eq_mult_div)
qed

lemma for_draws_pass:
  "(\<And>a. a \<in> set as \<Longrightarrow> check (a - a mod 4) = Inr ()) \<Longrightarrow> for_draws check as = Inr ()"
  by (induction as) simp_all

text \<open>\<open>passes T\<close>: on a good card the test \<open>T\<close> returns, with nothing changed but the clock.\<close>

definition passes :: "(noc \<Rightarrow> noc res) \<Rightarrow> bool" where
  "passes T \<longleftrightarrow> (\<forall>N. card_ok N \<longrightarrow> (\<exists>N'. T N = Inr N' \<and> same_chip N N'))"

lemma passes_with_l2cpu:
  assumes "idx \<in> {0, 1, 2, 3}" "env_granted env"
    and "\<And>evs c N0 N. L2CPU_new env N0 idx 0 = (evs, Inr (c, N)) \<Longrightarrow> card_ok N \<Longrightarrow>
           l2cpu_tile_mapping idx = Some (coordinates c) \<Longrightarrow> \<exists>N'. body c N = Inr N' \<and> same_chip N N'"
  shows "passes (\<lambda>N. with_l2cpu env N idx body)"
  unfolding passes_def
proof (intro allI impI)
  fix N assume N: "card_ok N"
  obtain evs c N1 where c: "L2CPU_new env N idx 0 = (evs, Inr (c, N1))" "same_chip N N1"
    "l2cpu_tile_mapping idx = Some (coordinates c)"
    using L2CPU_new_succeeds [OF assms(1,2)] by blast
  obtain N' where "body c N1 = Inr N'" "same_chip N1 N'"
    using assms(3) [OF c(1) card_ok_same [OF c(2) N] c(3)] by blast
  then show "\<exists>N'. with_l2cpu env N idx body = Inr N' \<and> same_chip N N'"
    using c(1,2) by (auto simp: with_l2cpu_def intro: same_chip_trans)
qed

lemma same_chip_refl: "same_chip N N"
  by (simp add: same_chip_def)

lemma passes_for_tiles: "(\<And>i. i \<in> set is \<Longrightarrow> passes (T i)) \<Longrightarrow> passes (for_tiles T is)"
proof (induction "is")
  case Nil
  then show ?case by (simp add: passes_def same_chip_refl)
next
  case (Cons i "is")
  have T: "passes (T i)" "passes (for_tiles T is)" using Cons by simp_all
  show ?case
    unfolding passes_def
  proof (intro allI impI)
    fix N assume N: "card_ok N"
    obtain N1 where N1: "T i N = Inr N1" "same_chip N N1" using T(1) N by (auto simp: passes_def)
    obtain N2 where "for_tiles T is N1 = Inr N2" "same_chip N1 N2"
      using T(2) card_ok_same [OF N1(2) N] by (auto simp: passes_def)
    then show "\<exists>N'. for_tiles T (i # is) N = Inr N' \<and> same_chip N N'"
      using N1 by (auto intro: same_chip_trans)
  qed
qed

section \<open>The tests pass on a good card\<close>

text \<open>The draws are from a closed interval, so the bound itself can be drawn.\<close>

definition drawn :: "nat \<Rightarrow> u64 list \<Rightarrow> bool" where
  "drawn n as \<longleftrightarrow> (\<forall>a \<in> set as. unat a \<le> n)"

lemma high_address:
  assumes "unat r \<le> 2 ^ 32" "4 dvd unat r" "b \<in> {0x400030000000, 0x4000b0000000, 0x400130000000 :: u64}"
  shows "unat (b + r) = unat b + unat r" "4 dvd unat (b + r)"
proof -
  have "unat b + unat r < 2 ^ 64" using assms by auto
  then show eq: "unat (b + r) = unat b + unat r" by (rule unat_add_less_64)
  show "4 dvd unat (b + r)" unfolding eq using assms(2,3) by (auto intro: dvd_add)
qed

lemma val32_agree:
  "\<forall>a \<in> span p n. m a = m' (a + d) \<Longrightarrow> p \<le> q \<Longrightarrow> q + 4 \<le> p + n \<Longrightarrow> val32 m q = val32 m' (q + d)"
proof -
  assume eq: "\<forall>a \<in> span p n. m a = m' (a + d)" and q: "p \<le> q" "q + 4 \<le> p + n"
  have "m (q + j) = m' (q + d + j)" if "j < 4" for j
  proof -
    have "q + j \<in> span p n" using that q by (simp add: span_def)
    then show ?thesis using eq by (simp add: algebra_simps)
  qed
  then have "peek m q 4 = peek m' (q + d) 4" by (simp add: peek_def)
  then show ?thesis by (simp add: val32_def)
qed

lemma reads_agree_passes:
  assumes "granted k" "unat r \<le> 2 ^ 32" "4 dvd unat r"
    and "b \<in> {0x400030000000, 0x400130000000}" "b' \<in> {0x400030000000, 0x400130000000}"
    and "\<forall>a \<in> span (unat b) (2 ^ 32 + 4). N (fst (coordinates c)) (snd (coordinates c)) a
            = N (fst (coordinates c')) (snd (coordinates c')) (a + (unat b' - unat b))" "unat b \<le> unat b'"
  shows "reads_agree c b c' b' k N r = Inr ()"
proof -
  have h: "unat (b + r) = unat b + unat r" "4 dvd unat (b + r)" "unat (b' + r) = unat b' + unat r" "4 dvd unat (b' + r)"
    using high_address [OF assms(2,3)] assms(4,5) by blast+
  have "val32 (N (fst (coordinates c)) (snd (coordinates c))) (unat b + unat r)
      = val32 (N (fst (coordinates c')) (snd (coordinates c'))) (unat b + unat r + (unat b' - unat b))"
    by (rule val32_agree [OF assms(6)]) (use assms(2) in simp_all)
  moreover have "unat b + unat r + (unat b' - unat b) = unat b' + unat r" using assms(7) by simp
  ultimately show ?thesis
    unfolding reads_agree_def read32_granted [OF assms(1) h(2)] read32_granted [OF assms(1) h(4)] h(1,3)
    by (simp add: require_def)
qed

lemma draw_bounds: "drawn n as \<Longrightarrow> a \<in> set as \<Longrightarrow> unat (a - a mod 4) \<le> n"
  using aligned_draw(2) [of a] by (auto simp: drawn_def intro: order_trans)

lemma shared_memory_passes:
  assumes g: "env_granted env" "granted k" and d: "drawn (2 ^ 32) draws"
  shows "passes (TestL2CPU23SharedMemoryTile env k draws)"
  unfolding TestL2CPU23SharedMemoryTile_def
proof (rule passes_with_l2cpu [OF _ g(1)])
  fix evs and c :: L2CPU and N0 N assume N: "card_ok N" and c: "l2cpu_tile_mapping 2 = Some (coordinates c)"
  let ?three = "\<lambda>N. with_l2cpu env N 3 (\<lambda>three N2.
      bindR (for_draws (reads_agree c 0x400030000000 three 0x400030000000 k N2) draws) (\<lambda>_. Inr N2))"
  have "passes ?three"
  proof (rule passes_with_l2cpu [OF _ g(1)])
    fix evs' and c' :: L2CPU and N0' M assume M: "card_ok M" and c': "l2cpu_tile_mapping 3 = Some (coordinates c')"
    have xy: "coordinates c = (8, 5)" "coordinates c' = (8, 7)" using c c' tables_at by simp_all
    have "for_draws (reads_agree c 0x400030000000 c' 0x400030000000 k M) draws = Inr ()"
      using M draw_bounds [OF d] aligned_draw(1)
      by (intro for_draws_pass reads_agree_passes [OF g(2)])
        (simp_all add: xy card_ok_def shared_tile_def)
    then show "\<exists>N'. bindR (for_draws (reads_agree c 0x400030000000 c' 0x400030000000 k M) draws) (\<lambda>_. Inr M)
        = Inr N' \<and> same_chip M N'"
      by (simp add: same_chip_refl)
  qed simp
  then show "\<exists>N'. ?three N = Inr N' \<and> same_chip N N'" using N unfolding passes_def by blast
qed simp

lemma wrap_around_passes:
  assumes g: "env_granted env" "granted k" and d: "drawn (2 ^ 32) draws"
  shows "passes (TestMemoryWrapAround env k draws)"
  unfolding TestMemoryWrapAround_def
proof (rule passes_with_l2cpu [OF _ g(1)])
  fix evs and c :: L2CPU and N0 N assume N: "card_ok N" and c: "l2cpu_tile_mapping 0 = Some (coordinates c)"
  have xy: "coordinates c = (8, 3)" using c tables_at by simp
  have "for_draws (reads_agree c 0x400030000000 c 0x400130000000 k N) draws = Inr ()"
    using N draw_bounds [OF d] aligned_draw(1)
    by (intro for_draws_pass reads_agree_passes [OF g(2)]) (simp_all add: xy card_ok_def wraps_around_def)
  then show "\<exists>N'. bindR (for_draws (reads_agree c 0x400030000000 c 0x400130000000 k N) draws) (\<lambda>_. Inr N)
      = Inr N' \<and> same_chip N N'"
    by (simp add: same_chip_refl)
qed simp

lemma node_id_passes:
  assumes g: "env_granted env" "granted k"
  shows "passes (TestL2CPUNocNodeID env k)"
  unfolding TestL2CPUNocNodeID_def
proof (rule passes_for_tiles, rule passes_with_l2cpu [OF _ g(1)])
  fix i :: int and evs and c :: L2CPU and N0 N assume i: "i \<in> set [0, 1, 2, 3]" and N: "card_ok N"
    and c: "l2cpu_tile_mapping i = Some (coordinates c)"
  have "coordinates c \<in> set tiles" using i c tables_at by (auto simp: tiles_def)
  then have "node_id N (coordinates c)" using N by (simp add: card_ok_def)
  moreover have "4 dvd unat NODEID" by (simp add: NODEID_def)
  ultimately show "\<exists>N'. bindR (read32 c k N NODEID) (\<lambda>nodeid.
      bindR (require Assert_Failed (nodeid AND 63 = ucast (fst (get_coordinates c)))) (\<lambda>_.
      bindR (require Assert_Failed (drop_bit 6 nodeid AND 63 = ucast (snd (get_coordinates c)))) (\<lambda>_.
        Inr N))) = Inr N' \<and> same_chip N N'"
    by (simp add: read32_granted [OF g(2)] node_id_def Let_def get_coordinates_def require_def same_chip_refl)
qed simp

lemma pointer_agrees_passes:
  assumes new: "L2CPU_new env N0 i 0 = (evs, Inr (c, N))" and k: "granted k"
    and r: "4 dvd unat r" "unat r \<le> unat (memory_size c)"
  shows "pointer_agrees c k N r = Inr ()"
proof -
  define s where "s = starting_address c"
  have t: "l2cpu_starting_address_mapping i = Some s" "l2cpu_memory_size_mapping i = Some (memory_size c)"
    using L2CPU_new_Inr [OF new] by (auto simp: s_def)
  note range = tables_range [OF t]
  have size: "unat (memory_size c) \<le> 2 ^ 32" and s: "s \<in> {0x400030000000, 0x4000b0000000, 0x400130000000}"
    using range(3) by auto
  have r32: "unat r \<le> 2 ^ 32" using r(2) size by linarith
  note h = high_address [OF r32 r(1) s]
  have "unat (s - 0x400000000000) = unat s - 0x400000000000" using range(2) by (simp add: unat_sub word_le_nat_alt)
  moreover have "unat (s - 0x400000000000) + unat r < 2 ^ 64" using calculation range(1) r32 by simp
  ultimately have p: "unat (s - 0x400000000000 + r) = unat s - 0x400000000000 + unat r"
    by (simp add: unat_add_less_64)
  have inside: "unat s - 0x400000000000 + unat r + 4 \<le> 2 ^ 33"
    using r(2) range(3) by auto
  have "val32 (l2cpu_mem N c) (unat s - 0x400000000000 + unat r)
      = val32 (N (fst (coordinates c)) (snd (coordinates c))) (unat s + unat r)"
    using range(2) by (simp add: val32_def peek_def l2cpu_mem_eq [OF new])
  then show ?thesis
    using p inside h
    by (simp add: pointer_agrees_def get_starting_address_def get_memory_ptr_def s_def [symmetric]
        read32_granted [OF k] ld32_def require_def)
qed

lemma memory_ptr_passes:
  assumes g: "env_granted env" "granted k"
    and d: "\<And>i sz. l2cpu_memory_size_mapping i = Some sz \<Longrightarrow> drawn (unat sz) (draws i)"
  shows "passes (TestMemoryPtr env k draws)"
  unfolding TestMemoryPtr_def
proof (rule passes_for_tiles, rule passes_with_l2cpu [OF _ g(1)])
  fix i :: int and evs and c :: L2CPU and N0 N assume new: "L2CPU_new env N0 i 0 = (evs, Inr (c, N))"
  have "l2cpu_memory_size_mapping i = Some (memory_size c)" using L2CPU_new_Inr [OF new] by blast
  from draw_bounds [OF d [OF this]] have "for_draws (pointer_agrees c k N) (draws i) = Inr ()"
    by (intro for_draws_pass pointer_agrees_passes [OF new g(2)] aligned_draw(1))
  then show "\<exists>N'. bindR (for_draws (pointer_agrees c k N) (draws i)) (\<lambda>_. Inr N) = Inr N' \<and> same_chip N N'"
    by (simp add: same_chip_refl)
qed simp

section \<open>The whole program\<close>

lemma passes_seq:
  assumes "passes T" "passes T'"
  shows "passes (\<lambda>N. bindR (T N) T')"
  unfolding passes_def
proof (intro allI impI)
  fix N assume N: "card_ok N"
  obtain N1 where N1: "T N = Inr N1" "same_chip N N1" using assms(1) N by (auto simp: passes_def)
  obtain N2 where "T' N1 = Inr N2" "same_chip N1 N2"
    using assms(2) card_ok_same [OF N1(2) N] by (auto simp: passes_def)
  then show "\<exists>N'. bindR (T N) T' = Inr N' \<and> same_chip N N'" using N1 by (auto intro: same_chip_trans)
qed

text \<open>C37: on a card that is as the comments of the tests describe it, and with a kernel that grants the
  windows, the test program passes whatever numbers are drawn, the closed upper ends of the
  intervals included: no assertion fails, no read leaves the 8 GiB view or is unaligned, and the chip
  is left as it was but for the clock. That the pointer and the single reads agree needs nothing of
  the hardware; the other three tests hold by what is assumed of it.\<close>

theorem hardware_tests_pass:
  assumes "env_granted env" "granted k" and "card_ok N"
    and "drawn (2 ^ 32) draws23" "drawn (2 ^ 32) drawsw"
    and "\<And>i sz. l2cpu_memory_size_mapping i = Some sz \<Longrightarrow> drawn (unat sz) (drawsp i)"
  shows "\<exists>N'. test_main env k draws23 drawsp drawsw N = Inr N' \<and> same_chip N N'"
proof -
  note g = assms(1,2)
  have "passes (\<lambda>N. test_main env k draws23 drawsp drawsw N)"
    unfolding test_main_def
    by (intro passes_seq shared_memory_passes [OF g assms(4)] node_id_passes [OF g] wrap_around_passes [OF g assms(5)]
        memory_ptr_passes [OF g assms(6)])
  then show ?thesis using assms(3) by (simp add: passes_def)
qed

text \<open>A card with its node identifiers and otherwise zero memory.\<close>

definition sample_card :: noc where
  "sample_card x y = poke (\<lambda>_. 0) (unat NODEID) (bytes32 (ucast x OR push_bit 6 (ucast y)))"

lemma sample_card_ok: "card_ok sample_card"
proof -
  have "node_id sample_card t" if "t \<in> set tiles" for t
    using that by (auto simp: tiles_def node_id_def sample_card_def val_poke_same Let_def)
  moreover have "sample_card x y a = 0" if "a < 0x400000000000 + 2 ^ 34" for x y a
    using that by (simp add: sample_card_def poke_def NODEID_def)
  ultimately show ?thesis by (simp add: card_ok_def shared_tile_def wraps_around_def span_def)
qed

theorem hardware_tests_pass_witness:
  "\<exists>N'. test_main sample_env sample_reply [0, 2 ^ 32] (\<lambda>_. [7, 0x80000000]) [0xFFFFFFFF] sample_card = Inr N'
     \<and> same_chip sample_card N'"
proof (rule hardware_tests_pass)
  show "env_granted sample_env" "granted sample_reply"
    by (simp_all add: env_granted_def granted_def sample_env_def sample_reply_def)
  show "card_ok sample_card" by (rule sample_card_ok)
  show "drawn (2 ^ 32) [0, 2 ^ 32]" "drawn (2 ^ 32) [0xFFFFFFFF]" by (simp_all add: drawn_def)
  show "drawn (unat sz) [7, 0x80000000]" if "l2cpu_memory_size_mapping i = Some sz" for i sz
    using that by (auto simp: drawn_def l2cpu_memory_size_mapping_def split: if_splits)
qed

end
