(* ===== verification/Spec2Isabelle.thy ===== *)
theory Spec2Isabelle
  imports Mmio Interrupt_Line Store_Order Tool_System Network_Thread Host_Tool Boot_Script Hardware_Tests
begin

text \<open>
  tt-bh-linux lets Linux run on the X280 cores (L2CPUs) of a Tenstorrent Blackhole card. This
  library models its host tool, the C++ program under \<^verbatim>\<open>src/console/\<close>, with the Python scripts that boot the
  card before it, and proves what makes them correct.

  \<^bold>\<open>The program and its parts.\<close> The tool maps the memory of one L2CPU tile through TLB windows of
  the kernel driver (\<^verbatim>\<open>ioctl.h\<close>, \<^verbatim>\<open>tlb.h\<close>, \<^verbatim>\<open>tlb.cpp\<close>, \<^verbatim>\<open>l2cpu.h\<close>, \<^verbatim>\<open>l2cpu.cpp\<close>), whose constructor also
  ramps the cores' clock. Through that memory it is the other end of a virtual UART kept by OpenSBI
  (\<^verbatim>\<open>console.hpp\<close>) and of virtio-mmio devices driven by Linux: a generic engine
  (\<^verbatim>\<open>virtiodevice.hpp\<close>) with a block (\<^verbatim>\<open>disk.hpp\<close>) and a network class (\<^verbatim>\<open>network.hpp\<close>). \<^verbatim>\<open>tt-bh-linux.cpp\<close>
  starts one thread for the console and one per device. Console and devices never call each other;
  they share the guest's memory, each in its own region, and the interrupt register, each its own bit.
  Before the tool runs, \<^verbatim>\<open>boot.py\<close>, with the ramp of \<^verbatim>\<open>clock.py\<close>, loads the tiles, patches the device tree so that
  Linux finds the tool's devices, and releases the cores.

  \<^bold>\<open>Theories.\<close>
  \<^item> \<^theory_text>\<open>Prelude\<close>, \<^theory_text>\<open>Byte_Memory\<close>, \<^theory_text>\<open>C_Layout\<close>: words, faults, fallible computations; memories as
    functions from byte offsets with checked accesses and framing (\<open>same_on\<close>); the layout of C structs.
  \<^item> \<^theory_text>\<open>Ioctl\<close>: the driver's requests and argument structs.
  \<^item> \<^theory_text>\<open>Tlb\<close>: \<open>TlbHandle\<close> and \<open>TlbWindow\<close>. No constructor leaks on any failure; an access through a
    window reaches the address the window was made for.
  \<^item> \<^theory_text>\<open>Pll\<close>: the register values \<open>set_frequency\<close> writes. The ramp ends at the target, moves in single
    ticks, and never runs a clock faster than at its start or at its target.
  \<^item> \<^theory_text>\<open>L2cpu\<close>: the tile. The 8 GiB view is the tile's memory; single accesses agree with it; the clock
    ramp on the chip; the order of destruction, with a ledger of TLBs (\<open>tlbs_held\<close>) in which a release
    through a closed descriptor counts for nothing.
  \<^item> \<^theory_text>\<open>Console\<close>: the rings as lists, the contracts of a ring's two ends (locales \<open>ring_writer\<close> and
    \<open>ring_reader\<close>, interpreted on the host's ends), all interleavings with the guest as the step relation
    \<open>console_step\<close>, the search for the rings.
  \<^item> \<^theory_text>\<open>Uart\<close>: the raw mode of the terminal, the terminal loop against the specification \<open>escape\<close> of its
    keys, and the whole of \<open>uart_loop\<close>, which gives back the terminal, and its windows but for the two of
    the view.
  \<^item> \<^theory_text>\<open>Virtqueue\<close>: one round of \<open>device_loop\<close>. The locale \<open>virtio_backend\<close> is the contract of a device
    class (which guest bytes each virtual function may change); in it the walk over the live descriptor
    table is shown equal to a fold over the chain as posted, a service to advance the rings by one
    element, and every interleaving with the driver (\<open>queue_step\<close>) to serve each head exactly once.
  \<^item> \<^theory_text>\<open>Device_Run\<close>: \<open>device_loop\<close> as a whole, over several queues and rounds, still for any device class:
    no queue disturbs another, and every run serves each posted head exactly once.
  \<^item> \<^theory_text>\<open>Virtio_Blk\<close>, \<^theory_text>\<open>Virtio_Net\<close>: the two classes, each an interpretation of \<open>virtio_backend\<close>, with the
    effect of each kind of request.
  \<^item> \<^theory_text>\<open>Disk_Run\<close>, \<^theory_text>\<open>Net_Run\<close>: the classes under the loop. The block device implements an abstract disk,
    \<open>disk_exec\<close>, request by request, and what becomes of any other request is stated exactly; a round of the
    network device moves a packet in and a frame out.
  \<^item> \<^theory_text>\<open>Nic_Run\<close>: the network device implements an abstract network card, \<open>nic_round\<close>, for any number of
    rounds, buffers and frames being chains of any shape (\<open>post_of\<close>) and frames no longer than the host's
    buffer of 1514 bytes; what becomes of any frame, longer ones too, is stated exactly.
  \<^item> \<^theory_text>\<open>Store_Order\<close>: the stores and fences of a service, with the stores between two fences taking effect
    in any order that keeps overlapping ones in theirs (guest memory is mapped write-combining).
  \<^item> \<^theory_text>\<open>Service_Steps\<close>: the service of a queue taken apart into single loads, stores and calls (\<open>access\<close>),
    with the driver running between any two of them (\<open>svc_run\<close>). The locale \<open>local_backend\<close> extends
    \<open>virtio_backend\<close> by what a class looks at; in it a run is simulated by the uninterrupted body, ends within
    a number of steps linear in the chain, and equals one service after all of the driver's changes.
  \<^item> \<^theory_text>\<open>Live_Queue\<close>: queue and driver interleaved at that grain (\<open>live_step\<close>), a refinement of \<open>queue_step\<close>.
  \<^item> \<^theory_text>\<open>Concurrent_Driver\<close>: both classes as interpretations of \<open>local_backend\<close>; a disk request and a receive
    buffer served beside a running driver.
  \<^item> \<^theory_text>\<open>Two_Devices\<close>: two device threads and the driver at once (\<open>pair_run\<close>). The locale \<open>device_pair\<close>
    puts two instances of \<open>local_backend\<close> side by side: what one guarantees is what the other relies on.
  \<^item> \<^theory_text>\<open>Thread_System\<close>: any number of device threads, each going round the queues of its device, and the driver,
    interleaved access by access (\<open>system_step\<close>). The locale \<open>device_threads\<close> takes a family of
    \<open>local_backend\<close>s; its invariant gives each queue a run of \<open>live_step\<close> in which the other threads are part of
    the driver.
  \<^item> \<^theory_text>\<open>Tool_System\<close>: its instance with the disk, network and cloud-init threads of the tool.
  \<^item> \<^theory_text>\<open>Device_Types\<close>: what the state of a class keeps through every run without a fault; the locale
    \<open>typed_backend\<close> extends \<open>virtio_backend\<close>.
  \<^item> \<^theory_text>\<open>Virtio_Setup\<close>: the constructor of \<open>VirtioDevice\<close>, \<open>device_setup\<close> as a state machine of phases, and
    the driver's bring-up.
  \<^item> \<^theory_text>\<open>Mmio\<close>: the same setup on the bytes of the register window, refined to the record of registers.
  \<^item> \<^theory_text>\<open>Interrupt_Line\<close>: \<open>set_interrupt\<close> access by access, under any interleaving of the device threads.
  \<^item> \<^theory_text>\<open>Device_Thread\<close>: a device thread from construction through setup and loop to destruction and retry,
    with the trace of its system calls. Announced queues are the ones served; what a pass leaves behind;
    shutting down.
  \<^item> \<^theory_text>\<open>Network_Thread\<close>: the network thread as such a card, on the queues its driver has announced.
  \<^item> \<^theory_text>\<open>Host_Tool\<close>: options and the threads they ask for, the console's retry loop, when a device cannot be made, and the
    agreement with the device tree of \<^verbatim>\<open>boot.py\<close>.
  \<^item> \<^theory_text>\<open>Clock_Script\<close>: the ramp of \<^verbatim>\<open>clock.py\<close>, equal to the tool's for every entry of its table.
  \<^item> \<^theory_text>\<open>Boot_Script\<close>: \<^verbatim>\<open>boot.py\<close>, from its arguments to the accesses of the chip. It releases exactly the tiles it
    has loaded, with the ramps of \<open>Clock_Script\<close>, and its device tree announces the tool's devices.
  \<^item> \<^theory_text>\<open>Hardware_Tests\<close>: the tests of \<^verbatim>\<open>test.cpp\<close> as functions of the chip.

  \<^bold>\<open>How state and effects are modelled.\<close> Objects are records, C integers are words of their width,
  pointers into mapped objects are offsets with the object's size checked at each access
  (\<open>Wild_Access\<close>), failed assertions, library exceptions and \<open>exit\<close> are values of \<open>fault\<close>. Kernel calls
  are recorded as a trace, and the kernel's answers are arguments. Code that is not in the repository
  is a parameter: the kernel driver, the guest's OpenSBI and Linux (as what they may do to shared
  memory between two accesses of the host: \<open>guest_step\<close>, the driver steps of \<open>queue_step\<close> and \<open>svc_run\<close>, the register
  changes of \<open>device_setup\<close>), libslirp, and the constants and layouts of Linux's headers
  (\<open>vring_abi\<close>, \<open>blk_abi\<close>, \<open>net_abi\<close>, \<open>mmio_abi\<close>, with the documented values as the predicates
  \<open>abi_ok\<close> and the like, and the concrete \<open>linux_abi\<close> and the like in the witnesses).

  \<^bold>\<open>Bounds and fuel.\<close> The chain walk has fuel, one unit per descriptor; \<open>walk_ends_within_table\<close> shows
  that with 16384, the size of the table, or more the walk completes every chain that ends. The spin loops of the console and
  the polling loops run over the list of what happens before each of their iterations, so every finite
  run is covered and a loop that has not returned says so. The ramp's loops are total, with the
  distance to the target as measure; those of \<^verbatim>\<open>clock.py\<close> are partial functions, shown to return.

  \<^bold>\<open>Not modelled.\<close> Sleeps and messages printed; weak memory between host and guest beyond
  \<open>Store_Order\<close> (elsewhere the accesses take effect in program order); signals; the scheduling of the tool's threads against each
  other except in guest memory (\<open>Thread_System\<close>) and at the interrupt register (\<open>Interrupt_Line\<close>), beside which they
  share only the exit flag, an input of each of their loops; the insides of the kernel driver, libslirp, getopt and
  the terminal; the build, image and CI scripts; of \<^verbatim>\<open>boot.py\<close> the
  insides of pyluwen, libfdt and argparse, whose answers are inputs of \<open>boot_main\<close>.
\<close>

end
